(* ===== verification/Go_Prelude.thy ===== *)
theory Go_Prelude
  imports Main "HOL-Library.AList" "HOL-Library.Char_ord" "HOL-Library.List_Lexorder"
    "HOL-Library.Sublist"
begin

text \<open>
  What the components share: Go maps, Go strings and the helpers of the standard library
  that the modelled sources call.

  A Go map is an association list with distinct keys. The order of the list is one of the
  orders in which \<^verbatim>\<open>range\<close> may visit the map: Go leaves that order open, so a function
  that ranges over a map without sorting its keys is a function of the list, and a claim
  that it does not depend on the order is a theorem over all lists of the same map. A
  lookup is \<^const>\<open>map_of\<close>, a store \<^const>\<open>AList.update\<close>, a delete \<^const>\<open>AList.delete\<close>.

  A Go string is a list of bytes (\<^typ>\<open>char\<close> is a byte). Go compares strings bytewise,
  which is the lexicographic order of \<^verbatim>\<open>List_Lexorder\<close> over \<^verbatim>\<open>Char_ord\<close>.

  A computation that can panic (a nil dereference, an index out of range) returns an
  option, \<^const>\<open>None\<close> being the panic.
\<close>

named_theorems gomap_simps \<open>lookups after stores and deletes on Go maps\<close>
named_theorems model_defs \<open>definitions unfolded when a concrete input is evaluated\<close>

section \<open>Go maps\<close>

type_synonym ('k, 'v) gomap = "('k \<times> 'v) list"

definition gget :: "('k, 'v) gomap \<Rightarrow> 'k \<Rightarrow> 'v option" where
  "gget m k = map_of m k"

definition gput :: "('k, 'v) gomap \<Rightarrow> 'k \<Rightarrow> 'v \<Rightarrow> ('k, 'v) gomap" where
  "gput m k v = AList.update k v m"

definition gdel :: "('k, 'v) gomap \<Rightarrow> 'k \<Rightarrow> ('k, 'v) gomap" where
  "gdel m k = AList.delete k m"

definition gkeys :: "('k, 'v) gomap \<Rightarrow> 'k list" where
  "gkeys m = map fst m"

text \<open>The representation invariant: every key is listed once.\<close>

definition gwf :: "('k, 'v) gomap \<Rightarrow> bool" where
  "gwf m = distinct (map fst m)"

text \<open>\<^verbatim>\<open>getSorted...Keys\<close>: the keys of a map in ascending order.\<close>

definition sortedKeys :: "('k::linorder, 'v) gomap \<Rightarrow> 'k list" where
  "sortedKeys m = sort (map fst m)"

text \<open>Equality of two maps as \<^verbatim>\<open>reflect.DeepEqual\<close> decides it: same size and same entries.\<close>

definition gmapEqual :: "('k, 'v) gomap \<Rightarrow> ('k, 'v) gomap \<Rightarrow> bool" where
  "gmapEqual m1 m2 = (length m1 = length m2 \<and> list_all (\<lambda>(k, v). map_of m2 k = Some v) m1)"

text \<open>Two lists are the same Go map when they hold the same entries in some order.\<close>

definition gsame :: "('k, 'v) gomap \<Rightarrow> ('k, 'v) gomap \<Rightarrow> bool" where
  "gsame m1 m2 = (gwf m1 \<and> gwf m2 \<and> set m1 = set m2)"

lemma gget_Nil [simp, gomap_simps]: "gget [] k = None"
  by (simp add: gget_def)

lemma gget_gput [simp, gomap_simps]: "gget (gput m k v) j = (if j = k then Some v else gget m j)"
  by (simp add: gget_def gput_def update_conv')

lemma gget_gdel [simp, gomap_simps]: "gget (gdel m k) j = (if j = k then None else gget m j)"
  by (simp add: gget_def gdel_def delete_conv')

lemma gwf_Nil [simp]: "gwf []"
  by (simp add: gwf_def)

lemma gwf_gput [simp]: "gwf m \<Longrightarrow> gwf (gput m k v)"
  by (simp add: gwf_def gput_def distinct_update)

lemma gwf_gdel [simp]: "gwf m \<Longrightarrow> gwf (gdel m k)"
  by (simp add: gwf_def gdel_def distinct_delete)

lemma set_gkeys: "set (gkeys m) = {k. gget m k \<noteq> None}"
  by (force simp: gkeys_def gget_def map_of_eq_None_iff)

lemma gkeys_gget: "k \<in> set (gkeys m) \<longleftrightarrow> (\<exists>v. gget m k = Some v)"
  by (auto simp: set_gkeys)

lemma gkeys_Nil [simp]: "gkeys [] = []"
  by (simp add: gkeys_def)

lemma gkeys_gdel: "set (gkeys (gdel m k)) = set (gkeys m) - {k}"
  by (auto simp: set_gkeys)

lemma gkeys_gput: "set (gkeys (gput m k v)) = insert k (set (gkeys m))"
  by (auto simp: set_gkeys)

lemma gput_neq_Nil [simp]: "gput m k v \<noteq> []"
  by (metis gget_Nil gget_gput option.distinct(1))

lemma gget_empty_iff: "m = [] \<longleftrightarrow> (\<forall>k. gget m k = None)"
  by (metis gget_Nil gget_def list.exhaust map_of_eq_None_iff image_eqI list.set_intros(1))

lemma gkeys_gput_new: "gget m k = None \<Longrightarrow> gkeys (gput m k v) = gkeys m @ [k]"
  by (simp add: gkeys_def gput_def gget_def update_keys map_of_eq_None_iff)

lemma gkeys_gput_old: "gget m k \<noteq> None \<Longrightarrow> gkeys (gput m k v) = gkeys m"
  by (simp add: gkeys_def gput_def gget_def update_keys map_of_eq_None_iff)

lemma find_SomeD: "find P xs = Some x \<Longrightarrow> x \<in> set xs \<and> P x"
  by (induction xs) (auto split: if_splits)

lemma set_sortedKeys [simp]: "set (sortedKeys m) = set (gkeys m)"
  by (simp add: sortedKeys_def gkeys_def)

lemma distinct_sortedKeys [simp]: "gwf m \<Longrightarrow> distinct (sortedKeys m)"
  by (simp add: sortedKeys_def gwf_def)

lemma sorted_sortedKeys [simp]: "sorted (sortedKeys m)"
  by (simp add: sortedKeys_def)

lemma gget_iff: "gwf m \<Longrightarrow> gget m k = Some v \<longleftrightarrow> (k, v) \<in> set m"
  by (simp add: gget_def gwf_def)

lemma gget_memI: "gwf m \<Longrightarrow> (k, v) \<in> set m \<Longrightarrow> gget m k = Some v"
  by (simp add: gget_iff)

lemma gget_memD: "gget m k = Some v \<Longrightarrow> (k, v) \<in> set m"
  by (simp add: gget_def map_of_SomeD)

lemma gget_ext:
  assumes "\<And>k v. gget m1 k = Some v \<longleftrightarrow> gget m2 k = Some v"
  shows "gget m1 = gget m2"
proof
  fix k
  show "gget m1 k = gget m2 k"
    using assms [of k "the (gget m1 k)"] assms [of k "the (gget m2 k)"]
    by (cases "gget m1 k"; cases "gget m2 k") auto
qed

lemma gsame_gget: "gsame m1 m2 \<Longrightarrow> gget m1 = gget m2"
  by (rule gget_ext) (simp add: gsame_def gget_iff)

lemma gsame_sortedKeys:
  assumes "gsame m1 m2"
  shows "sortedKeys m1 = sortedKeys m2"
proof (rule sorted_distinct_set_unique)
  show "set (sortedKeys m1) = set (sortedKeys m2)"
    using assms by (simp add: gkeys_def gsame_def)
qed (use assms in \<open>auto simp: gsame_def\<close>)

lemma gwf_distinct: "gwf m \<Longrightarrow> distinct m"
  by (simp add: gwf_def distinct_map)

lemma gwf_length: "gwf m \<Longrightarrow> length m = card (set m)"
  by (simp add: distinct_card gwf_distinct)

lemma gmapEqual_iff:
  assumes "gwf m1" and "gwf m2"
  shows "gmapEqual m1 m2 \<longleftrightarrow> gget m1 = gget m2"
proof
  assume eq: "gmapEqual m1 m2"
  then have "set m1 \<subseteq> set m2" and "length m1 = length m2"
    by (auto simp: gmapEqual_def list_all_iff dest: map_of_SomeD)
  then have "set m1 = set m2"
    using gwf_length [OF assms(1)] gwf_length [OF assms(2)] by (simp add: card_subset_eq)
  with assms have "gsame m1 m2"
    unfolding gsame_def by blast
  then show "gget m1 = gget m2"
    by (rule gsame_gget)
next
  assume eq: "gget m1 = gget m2"
  have mem: "x \<in> set m1 \<longleftrightarrow> x \<in> set m2" for x
    using gget_iff [OF assms(1), of "fst x" "snd x"] gget_iff [OF assms(2), of "fst x" "snd x"] eq
    by simp
  then have "set m1 = set m2"
    by blast
  then have "length m1 = length m2"
    using gwf_length [OF assms(1)] gwf_length [OF assms(2)] by simp
  moreover have "list_all (\<lambda>(k, v). map_of m2 k = Some v) m1"
    using mem gget_iff [OF assms(2)] by (auto simp: list_all_iff gget_def)
  ultimately show "gmapEqual m1 m2"
    by (simp add: gmapEqual_def)
qed

section \<open>Go strings\<close>

text \<open>\<^verbatim>\<open>strings.HasPrefix\<close>, \<^verbatim>\<open>strings.TrimPrefix\<close>, \<^verbatim>\<open>strings.Contains\<close> of one byte.\<close>

definition hasPrefix :: "string \<Rightarrow> string \<Rightarrow> bool" where
  "hasPrefix s p = (take (length p) s = p)"

definition trimPrefix :: "string \<Rightarrow> string \<Rightarrow> string" where
  "trimPrefix s p = (if hasPrefix s p then drop (length p) s else s)"

text \<open>\<^verbatim>\<open>strings.Split\<close> with a separator of one byte.\<close>

fun splitOn :: "char \<Rightarrow> string \<Rightarrow> string list" where
  "splitOn c [] = [[]]"
| "splitOn c (x # xs) =
     (if x = c then [] # splitOn c xs
      else (case splitOn c xs of [] \<Rightarrow> [[x]] | y # ys \<Rightarrow> (x # y) # ys))"

fun joinWith :: "char \<Rightarrow> string list \<Rightarrow> string" where
  "joinWith c [] = []"
| "joinWith c [x] = x"
| "joinWith c (x # y # ys) = x @ c # joinWith c (y # ys)"

lemma hasPrefix_iff: "hasPrefix s p \<longleftrightarrow> (\<exists>t. s = p @ t)"
  by (metis append_eq_conv_conj append_take_drop_id hasPrefix_def)

lemma hasPrefix_append [simp]: "hasPrefix (p @ t) p"
  by (simp add: hasPrefix_def)

lemma splitOn_neq_Nil [simp]: "splitOn c s \<noteq> []"
  by (cases s) (auto split: list.splits)

lemma splitOn_no_sep [simp]: "c \<notin> set s \<Longrightarrow> splitOn c s = [s]"
  by (induction s) auto

lemma splitOn_append_sep: "c \<notin> set a \<Longrightarrow> splitOn c (a @ c # b) = a # splitOn c b"
  by (induction a) auto

lemma splitOn_no_sep_elem: "p \<in> set (splitOn c s) \<Longrightarrow> c \<notin> set p"
  by (induction s arbitrary: p) (auto split: if_splits list.splits)

lemma joinWith_splitOn: "joinWith c (splitOn c s) = s"
proof (induction s)
  case (Cons x xs)
  obtain y ys where "splitOn c xs = y # ys"
    by (cases "splitOn c xs") auto
  with Cons show ?case
    by (cases ys) auto
qed simp

text \<open>
  The white space of \<^verbatim>\<open>unicode.IsSpace\<close>, in UTF-8: the number of bytes of the space rune
  at the head of the string, 0 when the string starts with no space.
\<close>

fun asciiSpace :: "char \<Rightarrow> bool" where
  "asciiSpace c = (let n = (of_char c :: nat) in n = 32 \<or> (9 \<le> n \<and> n \<le> 13))"

definition spaceRunes :: "nat list list" where
  "spaceRunes =
    [[194, 133], [194, 160], [225, 154, 128], [226, 128, 168], [226, 128, 169], [226, 128, 175],
     [226, 129, 159], [227, 128, 128]] @ map (\<lambda>n. [226, 128, 128 + n]) [0 ..< 11]"

definition spaceWidth :: "string \<Rightarrow> nat" where
  "spaceWidth s =
     (case s of
        [] \<Rightarrow> 0
      | c # _ \<Rightarrow>
          if asciiSpace c then 1
          else (case filter (\<lambda>r. take (length r) (map of_char s) = r) spaceRunes of
                  [] \<Rightarrow> 0
                | r # _ \<Rightarrow> length r))"

text \<open>The same at the end of the string, on the reversed bytes.\<close>

definition spaceWidthEnd :: "string \<Rightarrow> nat" where
  "spaceWidthEnd t =
     (case t of
        [] \<Rightarrow> 0
      | c # _ \<Rightarrow>
          if asciiSpace c then 1
          else (case filter (\<lambda>r. take (length r) (map of_char t) = rev r) spaceRunes of
                  [] \<Rightarrow> 0
                | r # _ \<Rightarrow> length r))"

text \<open>\<^verbatim>\<open>strings.TrimLeftFunc(s, unicode.IsSpace)\<close> and \<^verbatim>\<open>strings.TrimSpace\<close>.\<close>

function trimLeftSpace :: "string \<Rightarrow> string" where
  "trimLeftSpace s = (if spaceWidth s = 0 then s else trimLeftSpace (drop (spaceWidth s) s))"
  by pat_completeness auto
termination
  by (relation "measure length") (auto simp: spaceWidth_def split: list.splits if_splits)

function trimEndSpace :: "string \<Rightarrow> string" where
  "trimEndSpace t = (if spaceWidthEnd t = 0 then t else trimEndSpace (drop (spaceWidthEnd t) t))"
  by pat_completeness auto
termination
  by (relation "measure length") (auto simp: spaceWidthEnd_def split: list.splits if_splits)

declare trimLeftSpace.simps [simp del] trimEndSpace.simps [simp del]

definition trimSpace :: "string \<Rightarrow> string" where
  "trimSpace s = rev (trimEndSpace (rev (trimLeftSpace s)))"

end
