(* ===== verification/Api_Types.thy ===== *)
theory Api_Types
  imports Go_Prelude "HOL-Library.Word"
begin

text \<open>
  The Kubernetes objects the controller works on. The custom resources follow
  \<^verbatim>\<open>pkg/apis/configuration/v1/types.go\<close> field by field, in the order of the structs
  (\<^verbatim>\<open>TypeMeta\<close> and the list types are left out); a field is named by a prefix for its
  struct and the field's own name. A pointer is an option, nil being \<^const>\<open>None\<close>; a
  slice is a list; \<^verbatim>\<open>uint16\<close> is \<^typ>\<open>16 word\<close>.

  \<^verbatim>\<open>ObjectMeta\<close> and the Ingress types belong to the Kubernetes API packages. They are
  modelled by the fields that the sources read.
\<close>

section \<open>Kubernetes API types\<close>

text \<open>
  \<^verbatim>\<open>Annotations\<close> keeps nil and the empty map apart, because \<^verbatim>\<open>reflect.DeepEqual\<close> does.
  A creation timestamp is an instant; the sources only compare instants.
\<close>

record ObjectMeta =
  Namespace :: string
  Name :: string
  UID :: string
  CreationTimestamp :: int
  Generation :: int
  Annotations :: "(string, string) gomap option"
  Labels :: "(string, string) gomap"

definition annotation :: "ObjectMeta \<Rightarrow> string \<Rightarrow> string option" where
  "annotation meta k = (case Annotations meta of None \<Rightarrow> None | Some m \<Rightarrow> gget m k)"

datatype PathType = PathTypeExact | PathTypePrefix | PathTypeImplementationSpecific

record IngressServiceBackend =
  isb_Name :: string
  isb_PortName :: string
  isb_PortNumber :: int

text \<open>Of \<^verbatim>\<open>Backend.Resource\<close> only whether it is set is read.\<close>

record IngressBackend =
  be_Service :: "IngressServiceBackend option"
  be_hasResource :: bool

record HTTPIngressPath =
  hip_Path :: string
  hip_PathType :: "PathType option"
  hip_Backend :: IngressBackend

text \<open>\<^verbatim>\<open>rule_HTTP\<close> is nil or the list \<^verbatim>\<open>HTTP.Paths\<close>.\<close>

record IngressRule =
  rule_Host :: string
  rule_HTTP :: "HTTPIngressPath list option"

record IngressTLS =
  itls_Hosts :: "string list"
  itls_SecretName :: string

record IngressSpec =
  is_DefaultBackend :: "IngressBackend option"
  is_TLS :: "IngressTLS list"
  is_Rules :: "IngressRule list"

record Ingress =
  ing_ObjectMeta :: ObjectMeta
  ing_Spec :: IngressSpec

section \<open>Custom resources\<close>

text \<open>Of a \<^verbatim>\<open>LabelSelector\<close> the sources read \<^verbatim>\<open>MatchLabels\<close>.\<close>

record PolicyReference =
  pr_Name :: string
  pr_Namespace :: string

record VirtualServerListener =
  vsl_HTTP :: string
  vsl_HTTPS :: string

record ProviderSpecificProperty =
  psp_Name :: string
  psp_Value :: string

record ExternalDNS =
  edns_Enable :: bool
  edns_RecordType :: string
  edns_RecordTTL :: int
  edns_Labels :: "(string, string) gomap"
  edns_ProviderSpecific :: "ProviderSpecificProperty list"

record UpstreamBuffers =
  ub_Number :: int
  ub_Size :: string

record UpstreamTLS =
  utls_Enable :: bool

record Header =
  hdr_Name :: string
  hdr_Value :: string

record HealthCheck =
  hc_Enable :: bool
  hc_Path :: string
  hc_Interval :: string
  hc_Jitter :: string
  hc_Fails :: int
  hc_Passes :: int
  hc_Port :: int
  hc_TLS :: "UpstreamTLS option"
  hc_ConnectTimeout :: string
  hc_ReadTimeout :: string
  hc_SendTimeout :: string
  hc_Headers :: "Header list"
  hc_StatusMatch :: string
  hc_GRPCStatus :: "int option"
  hc_GRPCService :: string
  hc_Mandatory :: bool
  hc_Persistent :: bool
  hc_KeepaliveTime :: string

record SessionCookie =
  sc_Enable :: bool
  sc_Name :: string
  sc_Path :: string
  sc_Expires :: string
  sc_Domain :: string
  sc_HTTPOnly :: bool
  sc_Secure :: bool
  sc_SameSite :: string

record UpstreamQueue =
  uq_Size :: int
  uq_Timeout :: string

record Upstream =
  up_Name :: string
  up_Service :: string
  up_Subselector :: "(string, string) gomap"
  up_Port :: "16 word"
  up_LBMethod :: string
  up_FailTimeout :: string
  up_MaxFails :: "int option"
  up_MaxConns :: "int option"
  up_Keepalive :: "int option"
  up_ProxyConnectTimeout :: string
  up_ProxyReadTimeout :: string
  up_ProxySendTimeout :: string
  up_ProxyNextUpstream :: string
  up_ProxyNextUpstreamTimeout :: string
  up_ProxyNextUpstreamTries :: int
  up_ProxyBuffering :: "bool option"
  up_ProxyBuffers :: "UpstreamBuffers option"
  up_ProxyBufferSize :: string
  up_ProxyBusyBuffersSize :: string
  up_ClientMaxBodySize :: string
  up_ClientBodyBufferSize :: string
  up_TLS :: UpstreamTLS
  up_HealthCheck :: "HealthCheck option"
  up_SlowStart :: string
  up_Queue :: "UpstreamQueue option"
  up_SessionCookie :: "SessionCookie option"
  up_UseClusterIP :: bool
  up_NTLM :: bool
  up_Type :: string
  up_Backup :: string
  up_BackupPort :: "16 word option"

record ActionRedirect =
  redir_URL :: string
  redir_Code :: int

record ActionReturn =
  ret_Code :: int
  ret_Type :: string
  ret_Body :: string
  ret_Headers :: "Header list"

record ProxyRequestHeaders =
  reqh_Pass :: "bool option"
  reqh_Set :: "Header list"

record AddHeader =
  addh_Header :: Header
  addh_Always :: bool

record ProxyResponseHeaders =
  resph_Hide :: "string list"
  resph_Pass :: "string list"
  resph_Ignore :: "string list"
  resph_Add :: "AddHeader list"

record ActionProxy =
  proxy_Upstream :: string
  proxy_RewritePath :: string
  proxy_RequestHeaders :: "ProxyRequestHeaders option"
  proxy_ResponseHeaders :: "ProxyResponseHeaders option"

record Action =
  act_Pass :: string
  act_Redirect :: "ActionRedirect option"
  act_Return :: "ActionReturn option"
  act_Proxy :: "ActionProxy option"

record Split =
  split_Weight :: int
  split_Action :: "Action option"

record Condition =
  cond_Header :: string
  cond_Cookie :: string
  cond_Argument :: string
  cond_Variable :: string
  cond_Value :: string

record Match =
  match_Conditions :: "Condition list"
  match_Action :: "Action option"
  match_Splits :: "Split list"

record ErrorPage =
  errp_Codes :: "int list"
  errp_Return :: "ActionReturn option"
  errp_Redirect :: "ActionRedirect option"

record Route =
  route_Path :: string
  route_Policies :: "PolicyReference list"
  route_Route :: string
  route_RouteSelector :: "(string, string) gomap option"
  route_Action :: "Action option"
  route_Splits :: "Split list"
  route_Matches :: "Match list"
  route_ErrorPages :: "ErrorPage list"
  route_LocationSnippets :: string
  route_AddHeaderInherit :: string
  route_Dos :: string

record TLSRedirect =
  tlsr_Enable :: bool
  tlsr_Code :: "int option"
  tlsr_BasedOn :: string

record CertManager =
  cm_ClusterIssuer :: string
  cm_Issuer :: string
  cm_IssuerKind :: string
  cm_IssuerGroup :: string
  cm_CommonName :: string
  cm_Duration :: string
  cm_RenewBefore :: string
  cm_Usages :: string
  cm_IssueTempCert :: bool

record TLS =
  tls_Secret :: string
  tls_Redirect :: "TLSRedirect option"
  tls_CertManager :: "CertManager option"

record VirtualServerSpec =
  vss_IngressClass :: string
  vss_Host :: string
  vss_Listener :: "VirtualServerListener option"
  vss_TLS :: "TLS option"
  vss_Gunzip :: bool
  vss_Policies :: "PolicyReference list"
  vss_Upstreams :: "Upstream list"
  vss_Routes :: "Route list"
  vss_HTTPSnippets :: string
  vss_ServerSnippets :: string
  vss_AddHeaderInherit :: string
  vss_Dos :: string
  vss_ExternalDNS :: ExternalDNS

record ExternalEndpoint =
  eep_IP :: string
  eep_Hostname :: string
  eep_Ports :: string

record VirtualServerStatus =
  vsst_State :: string
  vsst_Reason :: string
  vsst_Message :: string
  vsst_ExternalEndpoints :: "ExternalEndpoint list"

record VirtualServer =
  vs_ObjectMeta :: ObjectMeta
  vs_Spec :: VirtualServerSpec
  vs_Status :: VirtualServerStatus

record VirtualServerRouteSpec =
  vsrs_IngressClass :: string
  vsrs_Host :: string
  vsrs_Upstreams :: "Upstream list"
  vsrs_Subroutes :: "Route list"

record VirtualServerRouteStatus =
  vsrst_State :: string
  vsrst_Reason :: string
  vsrst_Message :: string
  vsrst_ReferencedBy :: string
  vsrst_ExternalEndpoints :: "ExternalEndpoint list"

record VirtualServerRoute =
  vsr_ObjectMeta :: ObjectMeta
  vsr_Spec :: VirtualServerRouteSpec
  vsr_Status :: VirtualServerRouteStatus

record Listener =
  lst_Name :: string
  lst_Protocol :: string
  lst_Port :: int
  lst_IPv4 :: string
  lst_IPv6 :: string
  lst_Ssl :: bool

record GlobalConfigurationSpec =
  gcs_Listeners :: "Listener list"

record GlobalConfiguration =
  gc_ObjectMeta :: ObjectMeta
  gc_Spec :: GlobalConfigurationSpec

record TransportServerTLS =
  tstls_Secret :: string

record TransportServerListener =
  tsl_Name :: string
  tsl_Protocol :: string

record TransportServerMatch =
  tsm_Send :: string
  tsm_Expect :: string

record TransportServerHealthCheck =
  tshc_Enabled :: bool
  tshc_Timeout :: string
  tshc_Jitter :: string
  tshc_Port :: int
  tshc_Interval :: string
  tshc_Passes :: int
  tshc_Fails :: int
  tshc_Match :: "TransportServerMatch option"

record TransportServerUpstream =
  tsu_Name :: string
  tsu_Service :: string
  tsu_Port :: int
  tsu_FailTimeout :: string
  tsu_MaxFails :: "int option"
  tsu_MaxConns :: "int option"
  tsu_HealthCheck :: "TransportServerHealthCheck option"
  tsu_LoadBalancingMethod :: string
  tsu_Backup :: string
  tsu_BackupPort :: "16 word option"

record UpstreamParameters =
  upar_UDPRequests :: "int option"
  upar_UDPResponses :: "int option"
  upar_ConnectTimeout :: string
  upar_NextUpstream :: bool
  upar_NextUpstreamTimeout :: string
  upar_NextUpstreamTries :: int

record SessionParameters =
  sess_Timeout :: string

record TransportServerAction =
  tsact_Pass :: string

record TransportServerSpec =
  tss_IngressClass :: string
  tss_TLS :: "TransportServerTLS option"
  tss_Listener :: TransportServerListener
  tss_ServerSnippets :: string
  tss_StreamSnippets :: string
  tss_Host :: string
  tss_Upstreams :: "TransportServerUpstream list"
  tss_UpstreamParameters :: "UpstreamParameters option"
  tss_SessionParameters :: "SessionParameters option"
  tss_Action :: "TransportServerAction option"

record TransportServerStatus =
  tsst_State :: string
  tsst_Reason :: string
  tsst_Message :: string

record TransportServer =
  ts_ObjectMeta :: ObjectMeta
  ts_Spec :: TransportServerSpec
  ts_Status :: TransportServerStatus

section \<open>Zero values\<close>

text \<open>The composite literals of the sources leave the other fields at their zero values.\<close>

definition emptyMeta :: ObjectMeta where
  "emptyMeta = \<lparr>Namespace = [], Name = [], UID = [], CreationTimestamp = 0, Generation = 0,
     Annotations = None, Labels = []\<rparr>"

definition emptyUpstream :: Upstream where
  "emptyUpstream = \<lparr>up_Name = [], up_Service = [], up_Subselector = [], up_Port = 0,
     up_LBMethod = [], up_FailTimeout = [], up_MaxFails = None, up_MaxConns = None,
     up_Keepalive = None, up_ProxyConnectTimeout = [], up_ProxyReadTimeout = [],
     up_ProxySendTimeout = [], up_ProxyNextUpstream = [], up_ProxyNextUpstreamTimeout = [],
     up_ProxyNextUpstreamTries = 0, up_ProxyBuffering = None, up_ProxyBuffers = None,
     up_ProxyBufferSize = [], up_ProxyBusyBuffersSize = [], up_ClientMaxBodySize = [],
     up_ClientBodyBufferSize = [], up_TLS = \<lparr>utls_Enable = False\<rparr>, up_HealthCheck = None,
     up_SlowStart = [], up_Queue = None, up_SessionCookie = None, up_UseClusterIP = False,
     up_NTLM = False, up_Type = [], up_Backup = [], up_BackupPort = None\<rparr>"

definition emptyRoute :: Route where
  "emptyRoute = \<lparr>route_Path = [], route_Policies = [], route_Route = [],
     route_RouteSelector = None, route_Action = None, route_Splits = [], route_Matches = [],
     route_ErrorPages = [], route_LocationSnippets = [], route_AddHeaderInherit = [],
     route_Dos = []\<rparr>"

definition emptyVSSpec :: VirtualServerSpec where
  "emptyVSSpec = \<lparr>vss_IngressClass = [], vss_Host = [], vss_Listener = None, vss_TLS = None,
     vss_Gunzip = False, vss_Policies = [], vss_Upstreams = [], vss_Routes = [],
     vss_HTTPSnippets = [], vss_ServerSnippets = [], vss_AddHeaderInherit = [], vss_Dos = [],
     vss_ExternalDNS = \<lparr>edns_Enable = False, edns_RecordType = [], edns_RecordTTL = 0,
       edns_Labels = [], edns_ProviderSpecific = []\<rparr>\<rparr>"

definition emptyVS :: VirtualServer where
  "emptyVS = \<lparr>vs_ObjectMeta = emptyMeta, vs_Spec = emptyVSSpec,
     vs_Status = \<lparr>vsst_State = [], vsst_Reason = [], vsst_Message = [],
       vsst_ExternalEndpoints = []\<rparr>\<rparr>"

definition emptyVSR :: VirtualServerRoute where
  "emptyVSR = \<lparr>vsr_ObjectMeta = emptyMeta,
     vsr_Spec = \<lparr>vsrs_IngressClass = [], vsrs_Host = [], vsrs_Upstreams = [], vsrs_Subroutes = []\<rparr>,
     vsr_Status = \<lparr>vsrst_State = [], vsrst_Reason = [], vsrst_Message = [],
       vsrst_ReferencedBy = [], vsrst_ExternalEndpoints = []\<rparr>\<rparr>"

definition emptyTS :: TransportServer where
  "emptyTS = \<lparr>ts_ObjectMeta = emptyMeta,
     ts_Spec = \<lparr>tss_IngressClass = [], tss_TLS = None,
       tss_Listener = \<lparr>tsl_Name = [], tsl_Protocol = []\<rparr>, tss_ServerSnippets = [],
       tss_StreamSnippets = [], tss_Host = [], tss_Upstreams = [], tss_UpstreamParameters = None,
       tss_SessionParameters = None, tss_Action = None\<rparr>,
     ts_Status = \<lparr>tsst_State = [], tsst_Reason = [], tsst_Message = []\<rparr>\<rparr>"

definition emptyIngress :: Ingress where
  "emptyIngress = \<lparr>ing_ObjectMeta = emptyMeta,
     ing_Spec = \<lparr>is_DefaultBackend = None, is_TLS = [], is_Rules = []\<rparr>\<rparr>"

lemmas zero_defs = emptyMeta_def emptyUpstream_def emptyRoute_def emptyVSSpec_def emptyVS_def
  emptyVSR_def emptyTS_def emptyIngress_def

declare zero_defs [model_defs]

section \<open>Abbreviations for the paths the sources write\<close>

abbreviation vs_Namespace :: "VirtualServer \<Rightarrow> string" where
  "vs_Namespace vs \<equiv> Namespace (vs_ObjectMeta vs)"

abbreviation vs_Name :: "VirtualServer \<Rightarrow> string" where
  "vs_Name vs \<equiv> Name (vs_ObjectMeta vs)"

abbreviation vs_Host :: "VirtualServer \<Rightarrow> string" where
  "vs_Host vs \<equiv> vss_Host (vs_Spec vs)"

abbreviation vsr_Namespace :: "VirtualServerRoute \<Rightarrow> string" where
  "vsr_Namespace r \<equiv> Namespace (vsr_ObjectMeta r)"

abbreviation vsr_Name :: "VirtualServerRoute \<Rightarrow> string" where
  "vsr_Name r \<equiv> Name (vsr_ObjectMeta r)"

abbreviation vsr_Host :: "VirtualServerRoute \<Rightarrow> string" where
  "vsr_Host r \<equiv> vsrs_Host (vsr_Spec r)"

abbreviation vsr_Subroutes :: "VirtualServerRoute \<Rightarrow> Route list" where
  "vsr_Subroutes r \<equiv> vsrs_Subroutes (vsr_Spec r)"

abbreviation ts_Host :: "TransportServer \<Rightarrow> string" where
  "ts_Host ts \<equiv> tss_Host (ts_Spec ts)"

abbreviation ts_Listener :: "TransportServer \<Rightarrow> TransportServerListener" where
  "ts_Listener ts \<equiv> tss_Listener (ts_Spec ts)"

abbreviation ing_Rules :: "Ingress \<Rightarrow> IngressRule list" where
  "ing_Rules ing \<equiv> is_Rules (ing_Spec ing)"

abbreviation gc_Listeners :: "GlobalConfiguration \<Rightarrow> Listener list" where
  "gc_Listeners g \<equiv> gcs_Listeners (gc_Spec g)"

end
