(* ===== verification/Contest.thy ===== *)
theory Contest
  imports Api_Types "HOL-Library.Multiset"
begin

text \<open>
  Who wins a contested slot. Hosts, listener hosts and minion paths are all settled the
  same way in \<^verbatim>\<open>internal/k8s/configuration.go\<close>: the first resource that claims a slot
  holds it, and a later claimant takes it over unless the holder wins over the claimant.
  The locale \<^verbatim>\<open>contest\<close> states the law the comparison obeys (it is the strict order of a
  rank) and proves once what the three places rely on: the final holder is the best of
  all claimants, whatever the order of the claims, and every other claim is a lost one.
\<close>

section \<open>The winner of two objects\<close>

text \<open>\<^verbatim>\<open>chooseObjectMetaWinner\<close>: the older object wins, a tie goes to the greater UID.\<close>

definition chooseObjectMetaWinner :: "ObjectMeta \<Rightarrow> ObjectMeta \<Rightarrow> bool" where
  "chooseObjectMetaWinner meta1 meta2 =
     (if CreationTimestamp meta1 = CreationTimestamp meta2 then UID meta1 > UID meta2
      else CreationTimestamp meta1 < CreationTimestamp meta2)"

text \<open>The rank of an object: its age first, then its UID in descending order.\<close>

datatype rank = Rank (rank_time: int) (rank_uid: string)

instantiation rank :: linorder
begin

definition less_rank :: "rank \<Rightarrow> rank \<Rightarrow> bool" where
  "less_rank a b = (rank_time a < rank_time b \<or> rank_time a = rank_time b \<and> rank_uid b < rank_uid a)"

definition less_eq_rank :: "rank \<Rightarrow> rank \<Rightarrow> bool" where
  "less_eq_rank a b = (a = b \<or> a < b)"

instance
proof
  fix x y :: rank
  show "x \<le> y \<or> y \<le> x"
    by (cases x; cases y) (auto simp: less_rank_def less_eq_rank_def)
qed (auto simp: less_rank_def less_eq_rank_def rank.expand)

end

definition metaRank :: "ObjectMeta \<Rightarrow> rank" where
  "metaRank meta = Rank (CreationTimestamp meta) (UID meta)"

lemma chooseObjectMetaWinner_rank:
  "chooseObjectMetaWinner m1 m2 \<longleftrightarrow> metaRank m1 < metaRank m2"
  by (auto simp: chooseObjectMetaWinner_def metaRank_def less_rank_def)

lemma metaRank_UID: "metaRank m1 = metaRank m2 \<Longrightarrow> UID m1 = UID m2"
  by (simp add: metaRank_def)

section \<open>Settling a sequence of claims\<close>

text \<open>The holder of each slot after a sequence of claims, and the claims that were lost.\<close>

definition settleStep :: "('a \<Rightarrow> 'a \<Rightarrow> bool) \<Rightarrow> ('s \<Rightarrow> 'a option) \<Rightarrow> 's \<Rightarrow> 'a \<Rightarrow> ('s \<Rightarrow> 'a option)" where
  "settleStep beats H s a =
     (case H s of None \<Rightarrow> H(s \<mapsto> a) | Some h \<Rightarrow> if beats h a then H else H(s \<mapsto> a))"

fun settle :: "('a \<Rightarrow> 'a \<Rightarrow> bool) \<Rightarrow> ('s \<Rightarrow> 'a option) \<Rightarrow> ('s \<times> 'a) list \<Rightarrow> ('s \<Rightarrow> 'a option)" where
  "settle beats H [] = H"
| "settle beats H ((s, a) # cs) = settle beats (settleStep beats H s a) cs"

fun lost :: "('a \<Rightarrow> 'a \<Rightarrow> bool) \<Rightarrow> ('s \<Rightarrow> 'a option) \<Rightarrow> ('s \<times> 'a) list \<Rightarrow> ('s \<times> 'a) list" where
  "lost beats H [] = []"
| "lost beats H ((s, a) # cs) =
     (case H s of
        None \<Rightarrow> lost beats (settleStep beats H s a) cs
      | Some h \<Rightarrow> (s, if beats h a then a else h) # lost beats (settleStep beats H s a) cs)"

text \<open>The specification: the claimant of a slot that beats every other one.\<close>

definition bestClaimant :: "('a \<Rightarrow> 'a \<Rightarrow> bool) \<Rightarrow> ('s \<times> 'a) list \<Rightarrow> 's \<Rightarrow> 'a \<Rightarrow> bool" where
  "bestClaimant beats cs s w =
     ((s, w) \<in> set cs \<and> (\<forall>(t, a) \<in> set cs. t = s \<longrightarrow> a = w \<or> beats w a))"

text \<open>The best element of a set of claimants.\<close>

definition bestOf :: "('a \<Rightarrow> 'a \<Rightarrow> bool) \<Rightarrow> 'a set \<Rightarrow> 'a \<Rightarrow> bool" where
  "bestOf beats C w = (w \<in> C \<and> (\<forall>x \<in> C. x = w \<or> beats w x))"

definition claimants :: "('s \<Rightarrow> 'a option) \<Rightarrow> ('s \<times> 'a) list \<Rightarrow> 's \<Rightarrow> 'a set" where
  "claimants H cs s = set_option (H s) \<union> {a. (s, a) \<in> set cs}"

lemma bestClaimant_bestOf: "bestClaimant beats cs s w \<longleftrightarrow> bestOf beats {a. (s, a) \<in> set cs} w"
  by (auto simp: bestClaimant_def bestOf_def)

lemma settle_append: "settle beats H (xs @ ys) = settle beats (settle beats H xs) ys"
  by (induction xs arbitrary: H) auto

lemma lost_append: "lost beats H (xs @ ys) = lost beats H xs @ lost beats (settle beats H xs) ys"
  by (induction beats H xs rule: lost.induct) (auto split: option.splits)

lemma settleStep_same [simp]:
  "settleStep beats H s a s = Some (case H s of None \<Rightarrow> a | Some h \<Rightarrow> if beats h a then h else a)"
  by (auto simp: settleStep_def split: option.splits)

lemma settleStep_other [simp]: "t \<noteq> s \<Longrightarrow> settleStep beats H s a t = H t"
  by (auto simp: settleStep_def split: option.splits)

lemma settleStep_eq_None: "settleStep beats H s a t = None \<longleftrightarrow> H t = None \<and> t \<noteq> s"
  by (auto simp: settleStep_def split: option.splits)

lemma settle_eq_None: "settle beats H cs t = None \<longleftrightarrow> H t = None \<and> t \<notin> fst ` set cs"
  by (induction beats H cs rule: settle.induct) (auto simp: settleStep_eq_None)

lemma settle_claimed: "settle beats H cs s = Some w \<Longrightarrow> H s = Some w \<or> (s, w) \<in> set cs"
proof (induction cs arbitrary: H)
  case (Cons c cs)
  obtain t a where c: "c = (t, a)" by (cases c)
  with Cons.prems have "settleStep beats H t a s = Some w \<or> (s, w) \<in> set cs"
    using Cons.IH [of "settleStep beats H t a"] by simp
  with c show ?case
    by (cases "s = t") (auto split: option.splits if_splits)
qed simp

lemma settleStep_cong:
  "(\<And>h. H s = Some h \<Longrightarrow> beats h a = beats' h a) \<Longrightarrow> settleStep beats H s a = settleStep beats' H s a"
  by (auto simp: settleStep_def split: option.splits)

lemma settle_unclaimed: "s \<notin> fst ` set cs \<Longrightarrow> settle beats H cs s = H s"
  by (induction beats H cs rule: settle.induct) auto

text \<open>No claim is dropped: on every slot, the claims are the lost ones and the final holder.\<close>

lemma lost_conservation:
  "filter_mset (\<lambda>c. fst c = s) (mset cs) + mset (map (Pair s) (case H s of None \<Rightarrow> [] | Some h \<Rightarrow> [h])) =
   filter_mset (\<lambda>c. fst c = s) (mset (lost beats H cs)) +
     mset (map (Pair s) (case settle beats H cs s of None \<Rightarrow> [] | Some h \<Rightarrow> [h]))"
proof (induction beats H cs rule: lost.induct)
  case (2 beats H t a cs)
  show ?case
  proof (cases "H t")
    case None
    then show ?thesis
      using "2.IH"(1) [OF None] by (cases "t = s") auto
  next
    case (Some h)
    then show ?thesis
      using "2.IH"(2) [OF Some] by (cases "t = s"; cases "beats h a") auto
  qed
qed simp

section \<open>The contract of the comparison\<close>

locale contest =
  fixes beats :: "'a \<Rightarrow> 'a \<Rightarrow> bool" and rk :: "'a \<Rightarrow> 'r::linorder"
  assumes beats_rk: "beats a b \<longleftrightarrow> rk a < rk b"
begin

lemma beats_irrefl: "\<not> beats a a"
  by (simp add: beats_rk)

text \<open>A claimant that is beaten by another one changes nothing for the best of them.\<close>

lemma bestOf_insert:
  assumes "beats h a" and "h \<in> C"
  shows "bestOf beats (insert a C) w \<longleftrightarrow> bestOf beats C w"
proof
  assume best: "bestOf beats (insert a C) w"
  then have "h = w \<or> beats w h"
    using assms by (simp add: bestOf_def)
  then have "a \<noteq> w"
    using assms by (auto simp: beats_rk)
  with best show "bestOf beats C w"
    by (simp add: bestOf_def)
next
  assume best: "bestOf beats C w"
  then have "h = w \<or> beats w h"
    using assms by (simp add: bestOf_def)
  then have "beats w a"
    using assms by (auto simp: beats_rk)
  with best show "bestOf beats (insert a C) w"
    by (simp add: bestOf_def)
qed

lemma bestOf_settleStep:
  assumes "inj_on rk (claimants H ((s, a) # cs) s)"
  shows "bestOf beats (claimants (settleStep beats H s a) cs s) w \<longleftrightarrow>
    bestOf beats (claimants H ((s, a) # cs) s) w"
proof (cases "H s")
  case None
  then have "claimants (settleStep beats H s a) cs s = claimants H ((s, a) # cs) s"
    by (auto simp: claimants_def)
  then show ?thesis by simp
next
  case (Some h)
  let ?D = "{x. (s, x) \<in> set cs}"
  have all: "claimants H ((s, a) # cs) s = insert h (insert a ?D)"
    using Some by (auto simp: claimants_def)
  have new: "claimants (settleStep beats H s a) cs s = insert (if beats h a then h else a) ?D"
    using Some by (auto simp: claimants_def)
  consider "beats h a" | "beats a h" "\<not> beats h a" | "a = h"
    using inj_onD [OF assms, of a h] all linorder_less_linear [of "rk h" "rk a"]
    by (auto simp: beats_rk)
  then show ?thesis
  proof cases
    case 1
    then show ?thesis
      using bestOf_insert [OF 1, of "insert h ?D" w] all new by (simp add: insert_commute)
  next
    case 2
    then show ?thesis
      using bestOf_insert [OF 2(1), of "insert a ?D" w] all new by simp
  next
    case 3
    with all new show ?thesis by simp
  qed
qed

lemma settle_best_aux:
  assumes "inj_on rk (claimants H cs s)"
  shows "settle beats H cs s = Some w \<longleftrightarrow> bestOf beats (claimants H cs s) w"
  using assms
proof (induction cs arbitrary: H)
  case Nil
  then show ?case
    by (cases "H s") (auto simp: claimants_def bestOf_def)
next
  case (Cons c cs)
  obtain t a where c: "c = (t, a)" by (cases c)
  show ?case
  proof (cases "t = s")
    case False
    then have "claimants (settleStep beats H t a) cs s = claimants H (c # cs) s"
      using c by (auto simp: claimants_def)
    with Cons.IH [of "settleStep beats H t a"] Cons.prems c show ?thesis
      by simp
  next
    case True
    have "claimants (settleStep beats H s a) cs s \<subseteq> claimants H ((s, a) # cs) s"
      by (auto simp: claimants_def split: option.splits if_splits)
    with Cons.prems True c have "inj_on rk (claimants (settleStep beats H s a) cs s)"
      using inj_on_subset by blast
    with Cons.IH [of "settleStep beats H s a"] Cons.prems True c show ?thesis
      by (simp add: bestOf_settleStep)
  qed
qed

text \<open>The holder of a slot is the claimant that beats every other claimant.\<close>

lemma settle_best:
  assumes "inj_on rk {a. (s, a) \<in> set cs}"
  shows "settle beats Map.empty cs s = Some w \<longleftrightarrow> bestClaimant beats cs s w"
  using settle_best_aux [of Map.empty cs s w] assms
  by (simp add: bestClaimant_bestOf claimants_def)

lemma bestClaimant_unique:
  "bestClaimant beats cs s v \<Longrightarrow> bestClaimant beats cs s w \<Longrightarrow> v = w"
  by (force simp: bestClaimant_def beats_rk)

text \<open>The order in which the claims are made does not matter.\<close>

lemma settle_order:
  assumes "set cs = set cs'" and "inj_on rk {a. (s, a) \<in> set cs}"
  shows "settle beats Map.empty cs s = settle beats Map.empty cs' s"
proof -
  have "settle beats Map.empty cs s = Some w \<longleftrightarrow> settle beats Map.empty cs' s = Some w" for w
    using settle_best [of s cs w] settle_best [of s cs' w] assms
    by (simp add: bestClaimant_def)
  then show ?thesis
    by (metis not_Some_eq)
qed

end

interpretation metas: contest chooseObjectMetaWinner metaRank
  by unfold_locales (rule chooseObjectMetaWinner_rank)

interpretation keyed: contest "\<lambda>j k. chooseObjectMetaWinner (M j) (M k)" "\<lambda>k. metaRank (M k)"
  for M :: "'k \<Rightarrow> ObjectMeta"
  by unfold_locales (rule chooseObjectMetaWinner_rank)

end
