(* ===== verification/Resources.thy ===== *)
theory Resources
  imports Contest
begin

text \<open>
  The \<^verbatim>\<open>Resource\<close> interface of \<^verbatim>\<open>internal/k8s/configuration.go\<close> and its three
  implementations: a regular or master Ingress with its minions, a VirtualServer with its
  routes, a TransportServer. The interface is the datatype \<^verbatim>\<open>Resource\<close>, a type switch is a
  case distinction on it, and a method is a function that dispatches on the constructor.
\<close>

section \<open>Kinds, keys, operations and problems\<close>

definition ingressKind :: string where "ingressKind = ''Ingress''"

definition virtualServerKind :: string where "virtualServerKind = ''VirtualServer''"

definition virtualServerRouteKind :: string where "virtualServerRouteKind = ''VirtualServerRoute''"

definition transportServerKind :: string where "transportServerKind = ''TransportServer''"

declare ingressKind_def [model_defs] virtualServerKind_def [model_defs]
  virtualServerRouteKind_def [model_defs] transportServerKind_def [model_defs]

definition getResourceKey :: "ObjectMeta \<Rightarrow> string" where
  "getResourceKey meta = Namespace meta @ ''/'' @ Name meta"

definition getResourceKeyWithKind :: "string \<Rightarrow> ObjectMeta \<Rightarrow> string" where
  "getResourceKeyWithKind kind meta = kind @ ''/'' @ Namespace meta @ ''/'' @ Name meta"

datatype Operation = Delete | AddOrUpdate

text \<open>The configuration objects a problem can be about.\<close>

datatype Object =
    ObjIngress Ingress
  | ObjVirtualServer VirtualServer
  | ObjVirtualServerRoute VirtualServerRoute
  | ObjTransportServer TransportServer

record ConfigurationProblem =
  cp_Object :: Object
  cp_IsError :: bool
  cp_Reason :: string
  cp_Message :: string

definition compareConfigurationProblems :: "ConfigurationProblem \<Rightarrow> ConfigurationProblem \<Rightarrow> bool" where
  "compareConfigurationProblems p1 p2 =
     (cp_IsError p1 = cp_IsError p2 \<and> cp_Reason p1 = cp_Reason p2 \<and> cp_Message p1 = cp_Message p2)"

section \<open>The implementations\<close>

record MinionConfiguration =
  mc_Ingress :: Ingress
  mc_ValidPaths :: "(string, bool) gomap"

record IngressConfiguration =
  ic_Ingress :: Ingress
  ic_IsMaster :: bool
  ic_Minions :: "MinionConfiguration list"
  ic_ValidHosts :: "(string, bool) gomap"
  ic_Warnings :: "string list"
  ic_ChildWarnings :: "(string, string list) gomap"

record VirtualServerConfiguration =
  vsc_VirtualServer :: VirtualServer
  vsc_VirtualServerRoutes :: "VirtualServerRoute list"
  vsc_VirtualServerRouteSelectors :: "(string, string list) gomap"
  vsc_Warnings :: "string list"
  vsc_HTTPPort :: int
  vsc_HTTPSPort :: int
  vsc_HTTPIPv4 :: string
  vsc_HTTPIPv6 :: string
  vsc_HTTPSIPv4 :: string
  vsc_HTTPSIPv6 :: string

record TransportServerConfiguration =
  tsc_ListenerPort :: int
  tsc_IPv4 :: string
  tsc_IPv6 :: string
  tsc_TransportServer :: TransportServer
  tsc_Warnings :: "string list"

datatype Resource =
    IngressRes IngressConfiguration
  | VirtualServerRes VirtualServerConfiguration
  | TransportServerRes TransportServerConfiguration

definition NewRegularIngressConfiguration :: "Ingress \<Rightarrow> IngressConfiguration" where
  "NewRegularIngressConfiguration ing =
     \<lparr>ic_Ingress = ing, ic_IsMaster = False, ic_Minions = [], ic_ValidHosts = [], ic_Warnings = [],
      ic_ChildWarnings = []\<rparr>"

definition NewMasterIngressConfiguration ::
  "Ingress \<Rightarrow> MinionConfiguration list \<Rightarrow> (string, string list) gomap \<Rightarrow> IngressConfiguration" where
  "NewMasterIngressConfiguration ing minions childWarnings =
     \<lparr>ic_Ingress = ing, ic_IsMaster = True, ic_Minions = minions, ic_ValidHosts = [],
      ic_Warnings = [], ic_ChildWarnings = childWarnings\<rparr>"

definition NewMinionConfiguration :: "Ingress \<Rightarrow> MinionConfiguration" where
  "NewMinionConfiguration ing = \<lparr>mc_Ingress = ing, mc_ValidPaths = []\<rparr>"

definition NewVirtualServerConfiguration ::
  "VirtualServer \<Rightarrow> VirtualServerRoute list \<Rightarrow> (string, string list) gomap \<Rightarrow> string list
    \<Rightarrow> VirtualServerConfiguration" where
  "NewVirtualServerConfiguration vs vsrs vsrSelectors warnings =
     \<lparr>vsc_VirtualServer = vs, vsc_VirtualServerRoutes = vsrs,
      vsc_VirtualServerRouteSelectors = vsrSelectors, vsc_Warnings = warnings,
      vsc_HTTPPort = 0, vsc_HTTPSPort = 0, vsc_HTTPIPv4 = [], vsc_HTTPIPv6 = [],
      vsc_HTTPSIPv4 = [], vsc_HTTPSIPv6 = []\<rparr>"

definition NewTransportServerConfiguration :: "TransportServer \<Rightarrow> TransportServerConfiguration" where
  "NewTransportServerConfiguration ts =
     \<lparr>tsc_ListenerPort = 0, tsc_IPv4 = [], tsc_IPv6 = [], tsc_TransportServer = ts,
      tsc_Warnings = []\<rparr>"

section \<open>The methods of the interface\<close>

fun GetObjectMeta :: "Resource \<Rightarrow> ObjectMeta" where
  "GetObjectMeta (IngressRes ic) = ing_ObjectMeta (ic_Ingress ic)"
| "GetObjectMeta (VirtualServerRes vsc) = vs_ObjectMeta (vsc_VirtualServer vsc)"
| "GetObjectMeta (TransportServerRes tsc) = ts_ObjectMeta (tsc_TransportServer tsc)"

fun GetKeyWithKind :: "Resource \<Rightarrow> string" where
  "GetKeyWithKind (IngressRes ic) =
     ingressKind @ ''/'' @ getResourceKey (ing_ObjectMeta (ic_Ingress ic))"
| "GetKeyWithKind (VirtualServerRes vsc) =
     virtualServerKind @ ''/'' @ getResourceKey (vs_ObjectMeta (vsc_VirtualServer vsc))"
| "GetKeyWithKind (TransportServerRes tsc) =
     transportServerKind @ ''/'' @ getResourceKey (ts_ObjectMeta (tsc_TransportServer tsc))"

definition Wins :: "Resource \<Rightarrow> Resource \<Rightarrow> bool" where
  "Wins r1 r2 = chooseObjectMetaWinner (GetObjectMeta r1) (GetObjectMeta r2)"

fun AddWarning :: "string \<Rightarrow> Resource \<Rightarrow> Resource" where
  "AddWarning w (IngressRes ic) = IngressRes (ic\<lparr>ic_Warnings := ic_Warnings ic @ [w]\<rparr>)"
| "AddWarning w (VirtualServerRes vsc) = VirtualServerRes (vsc\<lparr>vsc_Warnings := vsc_Warnings vsc @ [w]\<rparr>)"
| "AddWarning w (TransportServerRes tsc) =
     TransportServerRes (tsc\<lparr>tsc_Warnings := tsc_Warnings tsc @ [w]\<rparr>)"

definition compareObjectMetas :: "ObjectMeta \<Rightarrow> ObjectMeta \<Rightarrow> bool" where
  "compareObjectMetas meta1 meta2 =
     (Namespace meta1 = Namespace meta2 \<and> Name meta1 = Name meta2 \<and> Generation meta1 = Generation meta2)"

text \<open>\<^verbatim>\<open>reflect.DeepEqual\<close> on the annotations: nil equals only nil.\<close>

definition annotationsEqual :: "(string, string) gomap option \<Rightarrow> (string, string) gomap option \<Rightarrow> bool" where
  "annotationsEqual a1 a2 =
     (case (a1, a2) of
        (None, None) \<Rightarrow> True
      | (Some m1, Some m2) \<Rightarrow> gmapEqual m1 m2
      | _ \<Rightarrow> False)"

definition compareObjectMetasWithAnnotations :: "ObjectMeta \<Rightarrow> ObjectMeta \<Rightarrow> bool" where
  "compareObjectMetasWithAnnotations meta1 meta2 =
     (compareObjectMetas meta1 meta2 \<and> annotationsEqual (Annotations meta1) (Annotations meta2))"

definition isEqualIngress :: "IngressConfiguration \<Rightarrow> IngressConfiguration \<Rightarrow> bool" where
  "isEqualIngress ic ic' =
     (if \<not> compareObjectMetasWithAnnotations (ing_ObjectMeta (ic_Ingress ic))
             (ing_ObjectMeta (ic_Ingress ic')) then False
      else if \<not> gmapEqual (ic_ValidHosts ic) (ic_ValidHosts ic') then False
      else if ic_IsMaster ic \<noteq> ic_IsMaster ic' then False
      else if length (ic_Minions ic) \<noteq> length (ic_Minions ic') then False
      else list_all2 (\<lambda>m m'. compareObjectMetasWithAnnotations (ing_ObjectMeta (mc_Ingress m))
             (ing_ObjectMeta (mc_Ingress m'))) (ic_Minions ic) (ic_Minions ic'))"

definition routeSelectorsEqual :: "(string, string list) gomap \<Rightarrow> (string, string list) gomap \<Rightarrow> bool" where
  "routeSelectorsEqual sels sels' =
     (length sels = length sels' \<and>
      list_all (\<lambda>(selector, routes).
        case gget sels' selector of
          None \<Rightarrow> False
        | Some otherRoutes \<Rightarrow>
            length routes = length otherRoutes \<and>
            list_all (\<lambda>otherRoute. otherRoute \<in> set routes) otherRoutes) sels)"

definition isEqualVirtualServer :: "VirtualServerConfiguration \<Rightarrow> VirtualServerConfiguration \<Rightarrow> bool" where
  "isEqualVirtualServer vsc vsc' =
     (if \<not> compareObjectMetas (vs_ObjectMeta (vsc_VirtualServer vsc))
             (vs_ObjectMeta (vsc_VirtualServer vsc')) then False
      else if length (vsc_VirtualServerRoutes vsc) \<noteq> length (vsc_VirtualServerRoutes vsc') then False
      else if \<not> list_all2 (\<lambda>r r'. compareObjectMetas (vsr_ObjectMeta r) (vsr_ObjectMeta r'))
             (vsc_VirtualServerRoutes vsc) (vsc_VirtualServerRoutes vsc') then False
      else routeSelectorsEqual (vsc_VirtualServerRouteSelectors vsc)
             (vsc_VirtualServerRouteSelectors vsc'))"

definition isEqualTransportServer :: "TransportServerConfiguration \<Rightarrow> TransportServerConfiguration \<Rightarrow> bool" where
  "isEqualTransportServer tsc tsc' =
     (compareObjectMetas (ts_ObjectMeta (tsc_TransportServer tsc)) (ts_ObjectMeta (tsc_TransportServer tsc')) \<and>
      tsc_ListenerPort tsc = tsc_ListenerPort tsc')"

fun IsEqual :: "Resource \<Rightarrow> Resource \<Rightarrow> bool" where
  "IsEqual (IngressRes ic) (IngressRes ic') = isEqualIngress ic ic'"
| "IsEqual (VirtualServerRes vsc) (VirtualServerRes vsc') = isEqualVirtualServer vsc vsc'"
| "IsEqual (TransportServerRes tsc) (TransportServerRes tsc') = isEqualTransportServer tsc tsc'"
| "IsEqual _ _ = False"

record ResourceChange =
  rc_Op :: Operation
  rc_Resource :: Resource
  rc_Error :: string

section \<open>Laws of the interface\<close>

lemma GetObjectMeta_AddWarning [simp]: "GetObjectMeta (AddWarning w r) = GetObjectMeta r"
  by (cases r) simp_all

lemma GetKeyWithKind_AddWarning [simp]: "GetKeyWithKind (AddWarning w r) = GetKeyWithKind r"
  by (cases r) simp_all

lemma Wins_AddWarning [simp]: "Wins (AddWarning w r1) r2 = Wins r1 r2" "Wins r1 (AddWarning w r2) = Wins r1 r2"
  by (simp_all add: Wins_def)

lemma IsEqual_AddWarning [simp]:
  "IsEqual (AddWarning w r1) r2 = IsEqual r1 r2" "IsEqual r1 (AddWarning w r2) = IsEqual r1 r2"
  by (cases r1; cases r2; simp add: isEqualIngress_def isEqualVirtualServer_def isEqualTransportServer_def)+

lemma kinds_differ [simp]:
  "ingressKind @ s \<noteq> virtualServerKind @ t" "virtualServerKind @ t \<noteq> ingressKind @ s"
  "ingressKind @ s \<noteq> transportServerKind @ t" "transportServerKind @ t \<noteq> ingressKind @ s"
  "virtualServerKind @ s \<noteq> transportServerKind @ t" "transportServerKind @ t \<noteq> virtualServerKind @ s"
  by (simp_all add: ingressKind_def virtualServerKind_def transportServerKind_def)

lemma GetKeyWithKind_getResourceKeyWithKind:
  "GetKeyWithKind (IngressRes ic) = getResourceKeyWithKind ingressKind (ing_ObjectMeta (ic_Ingress ic))"
  "GetKeyWithKind (VirtualServerRes vsc) = getResourceKeyWithKind virtualServerKind (vs_ObjectMeta (vsc_VirtualServer vsc))"
  "GetKeyWithKind (TransportServerRes tsc) = getResourceKeyWithKind transportServerKind (ts_ObjectMeta (tsc_TransportServer tsc))"
  by (simp_all add: getResourceKeyWithKind_def getResourceKey_def)

text \<open>Equal resources have the same key.\<close>

lemma compareObjectMetas_key: "compareObjectMetas m1 m2 \<Longrightarrow> getResourceKey m1 = getResourceKey m2"
  by (simp add: compareObjectMetas_def getResourceKey_def)

lemma IsEqual_key: "IsEqual r1 r2 \<Longrightarrow> GetKeyWithKind r1 = GetKeyWithKind r2"
  by (induction r1 r2 rule: IsEqual.induct)
    (auto simp: isEqualIngress_def isEqualVirtualServer_def isEqualTransportServer_def
      compareObjectMetasWithAnnotations_def split: if_splits dest: compareObjectMetas_key)

text \<open>A well-formed object: its Go maps list every key once.\<close>

definition wfMeta :: "ObjectMeta \<Rightarrow> bool" where
  "wfMeta meta = (case Annotations meta of None \<Rightarrow> True | Some m \<Rightarrow> gwf m)"

fun wfResource :: "Resource \<Rightarrow> bool" where
  "wfResource (IngressRes ic) =
     (gwf (ic_ValidHosts ic) \<and> wfMeta (ing_ObjectMeta (ic_Ingress ic)) \<and>
      list_all (\<lambda>m. wfMeta (ing_ObjectMeta (mc_Ingress m))) (ic_Minions ic))"
| "wfResource (VirtualServerRes vsc) = gwf (vsc_VirtualServerRouteSelectors vsc)"
| "wfResource (TransportServerRes tsc) = True"

lemma compareObjectMetas_refl [simp]: "compareObjectMetas m m"
  by (simp add: compareObjectMetas_def)

lemma compareObjectMetasWithAnnotations_refl [simp]:
  "wfMeta m \<Longrightarrow> compareObjectMetasWithAnnotations m m"
  by (auto simp: compareObjectMetasWithAnnotations_def annotationsEqual_def wfMeta_def gmapEqual_iff
      split: option.splits)

lemma gget_self: "gwf m \<Longrightarrow> list_all (\<lambda>(k, v). gget m k = Some v) m"
  by (auto simp: list_all_iff gget_iff)

lemma routeSelectorsEqual_refl [simp]: "gwf s \<Longrightarrow> routeSelectorsEqual s s"
  using gget_self [of s] by (force simp: routeSelectorsEqual_def list_all_iff)

lemma IsEqual_refl: "wfResource r \<Longrightarrow> IsEqual r r"
  by (cases r)
    (auto simp: isEqualIngress_def isEqualVirtualServer_def isEqualTransportServer_def
      list_all2_conv_all_nth list_all_length gmapEqual_iff)

end
