(* ===== verification/Ingress_Validation.thy ===== *)
theory Ingress_Validation
  imports Resources
begin

text \<open>
  The structural validation of Ingress resources of \<^verbatim>\<open>internal/k8s/validation.go\<close> and the
  classification of Ingresses of \<^verbatim>\<open>internal/k8s/utils.go\<close>. An error of a
  \<^verbatim>\<open>field.ErrorList\<close> is its kind and the path of the field; the detail texts are left out.
  The checks of single annotations and of the characters of a path (regular expressions) are
  parameters: the results below hold for every behaviour of them.
\<close>

section \<open>Kinds of Ingress\<close>

definition isMinion :: "Ingress \<Rightarrow> bool" where
  "isMinion ing = (annotation (ing_ObjectMeta ing) ''nginx.org/mergeable-ingress-type'' = Some ''minion'')"

definition isMaster :: "Ingress \<Rightarrow> bool" where
  "isMaster ing = (annotation (ing_ObjectMeta ing) ''nginx.org/mergeable-ingress-type'' = Some ''master'')"

definition isChallengeIngress :: "Ingress \<Rightarrow> bool" where
  "isChallengeIngress ing =
     (gget (Labels (ing_ObjectMeta ing)) ''acme.cert-manager.io/http01-solver'' = Some ''true'')"

section \<open>Field errors\<close>

datatype segment = Child string | Index nat | Key string

datatype errorKind = ErrRequired | ErrDuplicate | ErrForbidden | ErrTooMany | ErrInvalid | ErrNotFound

datatype fieldError = FieldError errorKind "segment list"

text \<open>What the structural checks call: the annotation checks and the check of one path.\<close>

record ingressChecks =
  chk_annotations :: "bool \<Rightarrow> Ingress \<Rightarrow> fieldError list"
  chk_path :: "string \<Rightarrow> PathType option \<Rightarrow> segment list \<Rightarrow> fieldError list"

section \<open>The checks\<close>

definition validateBackend :: "IngressBackend \<Rightarrow> segment list \<Rightarrow> fieldError list" where
  "validateBackend backend fieldPath =
     (if be_hasResource backend then [FieldError ErrForbidden (fieldPath @ [Child ''resource''])]
      else if be_Service backend = None then [FieldError ErrRequired (fieldPath @ [Child ''service''])]
      else [])"

fun validatePaths :: "ingressChecks \<Rightarrow> segment list \<Rightarrow> nat \<Rightarrow> HTTPIngressPath list \<Rightarrow> fieldError list" where
  "validatePaths chk idxRule j [] = []"
| "validatePaths chk idxRule j (p # ps) =
     (let idxPath = idxRule @ [Child ''http'', Child ''paths'', Index j]
      in chk_path chk (hip_Path p) (hip_PathType p) (idxPath @ [Child ''path'']) @
         validateBackend (hip_Backend p) (idxPath @ [Child ''backend'']) @
         validatePaths chk idxRule (Suc j) ps)"

text \<open>The loop over the rules, with the hosts seen so far.\<close>

fun validateRules ::
  "ingressChecks \<Rightarrow> segment list \<Rightarrow> bool \<Rightarrow> nat \<Rightarrow> string list \<Rightarrow> bool \<Rightarrow> IngressRule list \<Rightarrow> fieldError list"
  where
  "validateRules chk fieldPath allowEmptyHost i allHosts hasEmptyHost [] = []"
| "validateRules chk fieldPath allowEmptyHost i allHosts hasEmptyHost (r # rs) =
     (let idxRule = fieldPath @ [Child ''rules'', Index i];
          hostErrs =
            (if rule_Host r = [] then
               (if \<not> allowEmptyHost then [FieldError ErrRequired (idxRule @ [Child ''host''])]
                else if hasEmptyHost then [FieldError ErrDuplicate (idxRule @ [Child ''host''])]
                else [])
             else if rule_Host r \<in> set allHosts then [FieldError ErrDuplicate (idxRule @ [Child ''host''])]
             else []);
          hasEmptyHost' =
            (if rule_Host r = [] then (if \<not> allowEmptyHost then hasEmptyHost else True)
             else hasEmptyHost);
          allHosts' =
            (if rule_Host r \<noteq> [] \<and> rule_Host r \<notin> set allHosts then rule_Host r # allHosts
             else allHosts);
          pathErrs = (case rule_HTTP r of None \<Rightarrow> [] | Some ps \<Rightarrow> validatePaths chk idxRule 0 ps)
      in hostErrs @ pathErrs @
         validateRules chk fieldPath allowEmptyHost (Suc i) allHosts' hasEmptyHost' rs)"

definition validateIngressSpec :: "ingressChecks \<Rightarrow> IngressSpec \<Rightarrow> segment list \<Rightarrow> bool \<Rightarrow> fieldError list" where
  "validateIngressSpec chk spec fieldPath allowEmptyHost =
     (let allErrs =
        (case is_DefaultBackend spec of
           None \<Rightarrow> []
         | Some b \<Rightarrow> validateBackend b (fieldPath @ [Child ''defaultBackend'']))
      in if is_Rules spec = [] then allErrs @ [FieldError ErrRequired (fieldPath @ [Child ''rules''])]
         else allErrs @ validateRules chk fieldPath allowEmptyHost 0 [] False (is_Rules spec))"

definition hasEmptyHostRule :: "IngressSpec \<Rightarrow> bool" where
  "hasEmptyHostRule spec = list_ex (\<lambda>r. rule_Host r = []) (is_Rules spec)"

definition validateHostlessIngress :: "Ingress \<Rightarrow> segment list \<Rightarrow> fieldError list" where
  "validateHostlessIngress ing specPath =
     concat (map (\<lambda>(i, tls).
       concat (map (\<lambda>(j, host).
         if host = [] then
           [FieldError ErrForbidden (specPath @ [Child ''tls'', Index i, Child ''hosts'', Index j])]
         else [])
       (enumerate 0 (itls_Hosts tls))))
     (enumerate 0 (is_TLS (ing_Spec ing))))"

definition validateMasterSpec :: "IngressSpec \<Rightarrow> segment list \<Rightarrow> fieldError list" where
  "validateMasterSpec spec fieldPath =
     (case is_Rules spec of
        [r] \<Rightarrow>
          (case rule_HTTP r of
             Some (p # ps) \<Rightarrow>
               [FieldError ErrTooMany (fieldPath @ [Child ''rules'', Index 0, Child ''http'', Child ''paths''])]
           | _ \<Rightarrow> [])
      | _ \<Rightarrow> [FieldError ErrTooMany (fieldPath @ [Child ''rules''])])"

definition validateMinionSpec :: "IngressSpec \<Rightarrow> segment list \<Rightarrow> fieldError list" where
  "validateMinionSpec spec fieldPath =
     (let allErrs = (if is_TLS spec \<noteq> [] then [FieldError ErrTooMany (fieldPath @ [Child ''tls''])] else [])
      in case is_Rules spec of
           [r] \<Rightarrow>
             (case rule_HTTP r of
                Some (p # ps) \<Rightarrow> allErrs
              | _ \<Rightarrow> allErrs @
                  [FieldError ErrRequired (fieldPath @ [Child ''rules'', Index 0, Child ''http'', Child ''paths''])])
         | _ \<Rightarrow> allErrs @ [FieldError ErrTooMany (fieldPath @ [Child ''rules''])])"

definition validateChallengeIngress :: "IngressSpec \<Rightarrow> segment list \<Rightarrow> fieldError list" where
  "validateChallengeIngress spec fieldPath =
     (case is_Rules spec of
        [r] \<Rightarrow>
          (case rule_HTTP r of
             Some [p] \<Rightarrow>
               (case be_Service (hip_Backend p) of
                  None \<Rightarrow> [FieldError ErrRequired (fieldPath @ [Child ''rules.HTTP.Paths[0].Backend.Service''])]
                | Some svc \<Rightarrow>
                    (if isb_PortName svc \<noteq> [] then
                       [FieldError ErrForbidden
                          (fieldPath @ [Child ''rules.HTTP.Paths[0].Backend.Service.Port.Name''])]
                     else []))
           | _ \<Rightarrow> [FieldError ErrForbidden (fieldPath @ [Child ''rules.HTTP.Paths''])])
      | _ \<Rightarrow> [FieldError ErrForbidden (fieldPath @ [Child ''rules''])])"

text \<open>
  \<^verbatim>\<open>validateIngress\<close>. The parameter \<^verbatim>\<open>chk_annotations\<close> stands for the two annotation checks it
  starts with and receives whether the Ingress is treated as hostless.
\<close>

definition validateIngress :: "ingressChecks \<Rightarrow> bool \<Rightarrow> Ingress \<Rightarrow> fieldError list" where
  "validateIngress chk allowEmptyHost ing =
     (let spec = ing_Spec ing; hostless = (allowEmptyHost \<and> hasEmptyHostRule spec)
      in chk_annotations chk hostless ing @
         validateIngressSpec chk spec [Child ''spec''] allowEmptyHost @
         (if hostless then validateHostlessIngress ing [Child ''spec''] else []) @
         (if isMaster ing then validateMasterSpec spec [Child ''spec'']
          else if isMinion ing then validateMinionSpec spec [Child ''spec'']
          else []) @
         (if isChallengeIngress ing then validateChallengeIngress spec [Child ''spec''] else []))"

section \<open>What an accepted Ingress looks like\<close>

definition okBackend :: "IngressBackend \<Rightarrow> bool" where
  "okBackend b = (\<not> be_hasResource b \<and> be_Service b \<noteq> None)"

text \<open>The shape of an Ingress that the rest of the controller relies on.\<close>

definition okIngress :: "Ingress \<Rightarrow> bool" where
  "okIngress ing =
     (ing_Rules ing \<noteq> [] \<and> distinct (map rule_Host (ing_Rules ing)) \<and>
      (\<forall>r \<in> set (ing_Rules ing). \<forall>ps. rule_HTTP r = Some ps \<longrightarrow> (\<forall>p \<in> set ps. okBackend (hip_Backend p))) \<and>
      (\<forall>b. is_DefaultBackend (ing_Spec ing) = Some b \<longrightarrow> okBackend b) \<and>
      (isMaster ing \<longrightarrow> (\<exists>r. ing_Rules ing = [r] \<and> rule_HTTP r \<in> {None, Some []})) \<and>
      (isMinion ing \<longrightarrow> is_TLS (ing_Spec ing) = [] \<and>
         (\<exists>r p ps. ing_Rules ing = [r] \<and> rule_HTTP r = Some (p # ps))) \<and>
      (isChallengeIngress ing \<longrightarrow>
         (\<exists>r p svc. ing_Rules ing = [r] \<and> rule_HTTP r = Some [p] \<and>
            be_Service (hip_Backend p) = Some svc \<and> isb_PortName svc = [])))"

lemma isMaster_not_isMinion: "isMaster ing \<Longrightarrow> \<not> isMinion ing"
  by (simp add: isMaster_def isMinion_def)

lemma validateBackend_Nil [simp]: "validateBackend b path = [] \<longleftrightarrow> okBackend b"
  by (simp add: validateBackend_def okBackend_def)

lemma validatePaths_backends:
  "validatePaths chk idx j ps = [] \<Longrightarrow> \<forall>p \<in> set ps. okBackend (hip_Backend p)"
  by (induction chk idx j ps rule: validatePaths.induct) (auto simp: Let_def)

lemma validateRules_backends:
  "validateRules chk path allow i hs e rs = [] \<Longrightarrow>
   \<forall>r \<in> set rs. \<forall>ps. rule_HTTP r = Some ps \<longrightarrow> (\<forall>p \<in> set ps. okBackend (hip_Backend p))"
proof (induction rs arbitrary: i hs e)
  case (Cons r rs)
  then have tail: "\<forall>r \<in> set rs. \<forall>ps. rule_HTTP r = Some ps \<longrightarrow> (\<forall>p \<in> set ps. okBackend (hip_Backend p))"
    by (auto simp: Let_def)
  have "\<forall>p \<in> set ps. okBackend (hip_Backend p)" if "rule_HTTP r = Some ps" for ps
    using Cons.prems that by (auto simp: Let_def dest: validatePaths_backends)
  with tail show ?case by simp
qed simp

text \<open>The loop accepts only rules whose hosts are new and pairwise different.\<close>

lemma validateRules_hosts:
  "validateRules chk path allow i hs e rs = [] \<Longrightarrow>
   distinct (map rule_Host rs) \<and> (\<forall>r \<in> set rs. rule_Host r \<notin> set hs - {[]}) \<and>
   (e \<longrightarrow> [] \<notin> rule_Host ` set rs) \<and> (\<not> allow \<longrightarrow> [] \<notin> rule_Host ` set rs)"
proof (induction rs arbitrary: i hs e)
  case (Cons r rs)
  show ?case
  proof (cases "rule_Host r = []")
    case True
    with Cons.prems have acc: "allow" "\<not> e" and rest: "validateRules chk path allow (Suc i) hs True rs = []"
      by (auto simp: Let_def split: if_splits)
    from Cons.IH [OF rest] acc True show ?thesis
      by auto
  next
    case False
    with Cons.prems have new: "rule_Host r \<notin> set hs"
      and rest: "validateRules chk path allow (Suc i) (rule_Host r # hs) e rs = []"
      by (auto simp: Let_def split: if_splits)
    from Cons.IH [OF rest] new False show ?thesis
      by (auto simp: image_iff)
  qed
qed simp

lemma validateMasterSpec_Nil:
  "validateMasterSpec spec path = [] \<longleftrightarrow> (\<exists>r. is_Rules spec = [r] \<and> rule_HTTP r \<in> {None, Some []})"
  by (auto simp: validateMasterSpec_def split: list.splits option.splits)

lemma validateMinionSpec_Nil:
  "validateMinionSpec spec path = [] \<longleftrightarrow>
   is_TLS spec = [] \<and> (\<exists>r p ps. is_Rules spec = [r] \<and> rule_HTTP r = Some (p # ps))"
  by (auto simp: validateMinionSpec_def Let_def split: list.splits option.splits)

lemma validateChallengeIngress_Nil:
  "validateChallengeIngress spec path = [] \<longleftrightarrow>
   (\<exists>r p svc. is_Rules spec = [r] \<and> rule_HTTP r = Some [p] \<and>
      be_Service (hip_Backend p) = Some svc \<and> isb_PortName svc = [])"
  by (auto simp: validateChallengeIngress_def split: list.splits option.splits)

lemma validateIngressSpec_Nil:
  assumes "validateIngressSpec chk spec path allow = []"
  shows "is_Rules spec \<noteq> []" and "distinct (map rule_Host (is_Rules spec))"
    and "\<forall>r \<in> set (is_Rules spec). \<forall>ps. rule_HTTP r = Some ps \<longrightarrow> (\<forall>p \<in> set ps. okBackend (hip_Backend p))"
    and "\<forall>b. is_DefaultBackend spec = Some b \<longrightarrow> okBackend b"
  using assms validateRules_hosts validateRules_backends
  by (fastforce simp: validateIngressSpec_def Let_def split: if_splits option.splits)+

lemma validateIngress_okIngress:
  assumes "validateIngress chk allow ing = []"
  shows "okIngress ing"
proof -
  have spec: "validateIngressSpec chk (ing_Spec ing) [Child ''spec''] allow = []"
    using assms by (simp add: validateIngress_def Let_def)
  have "isMaster ing \<longrightarrow> validateMasterSpec (ing_Spec ing) [Child ''spec''] = []"
    and "isMinion ing \<longrightarrow> validateMinionSpec (ing_Spec ing) [Child ''spec''] = []"
    and "isChallengeIngress ing \<longrightarrow> validateChallengeIngress (ing_Spec ing) [Child ''spec''] = []"
    using assms isMaster_not_isMinion by (auto simp: validateIngress_def Let_def split: if_splits)
  then show ?thesis
    using validateIngressSpec_Nil [OF spec]
    by (simp add: okIngress_def validateMasterSpec_Nil validateMinionSpec_Nil validateChallengeIngress_Nil)
qed

end
