(* ===== verification/Minions.thy ===== *)
theory Minions
  imports Ingress_Validation
begin

text \<open>
  Mergeable Ingresses: the index of minions by host that \<^verbatim>\<open>AddOrUpdateIngress\<close> and
  \<^verbatim>\<open>DeleteIngress\<close> maintain, and the construction of the minions of a master
  (\<^verbatim>\<open>buildMinionConfigs\<close>), in which minions compete for paths.
\<close>

section \<open>The index of minions by host\<close>

type_synonym minionIndex = "(string, (string, bool) gomap) gomap"

definition removeMinionFromIndex :: "string \<Rightarrow> minionIndex \<Rightarrow> minionIndex" where
  "removeMinionFromIndex key idx =
     (case find (\<lambda>(host, keys). gget keys key = Some True) idx of
        None \<Rightarrow> idx
      | Some (host, keys) \<Rightarrow>
          (let keys' = gdel keys key
           in if keys' = [] then gdel idx host else gput idx host keys'))"

definition updateMinionIndex :: "string \<Rightarrow> Ingress option \<Rightarrow> minionIndex \<Rightarrow> minionIndex" where
  "updateMinionIndex key ingOpt idx =
     (let idx1 = removeMinionFromIndex key idx
      in case ingOpt of
           None \<Rightarrow> idx1
         | Some ing \<Rightarrow>
             (case ing_Rules ing of
                [] \<Rightarrow> idx1
              | r # _ \<Rightarrow>
                  if isMinion ing then
                    (let host = rule_Host r;
                         keys = (case gget idx1 host of None \<Rightarrow> [] | Some ks \<Rightarrow> ks)
                     in gput idx1 host (gput keys key True))
                  else idx1))"

definition indexed :: "minionIndex \<Rightarrow> string \<Rightarrow> string \<Rightarrow> bool" where
  "indexed idx host key = (case gget idx host of None \<Rightarrow> False | Some keys \<Rightarrow> gget keys key = Some True)"

text \<open>What the index must hold: the minions among the stored Ingresses, under their host.\<close>

definition minionOf :: "(string, Ingress) gomap \<Rightarrow> string \<Rightarrow> string \<Rightarrow> bool" where
  "minionOf ingresses host key =
     (case gget ingresses key of
        None \<Rightarrow> False
      | Some ing \<Rightarrow> isMinion ing \<and> (case ing_Rules ing of [] \<Rightarrow> False | r # _ \<Rightarrow> rule_Host r = host))"

definition wfIndex :: "minionIndex \<Rightarrow> bool" where
  "wfIndex idx =
     (gwf idx \<and> (\<forall>host keys. gget idx host = Some keys \<longrightarrow>
        gwf keys \<and> keys \<noteq> [] \<and> (\<forall>k \<in> set (gkeys keys). gget keys k = Some True)))"

definition indexInv :: "(string, Ingress) gomap \<Rightarrow> minionIndex \<Rightarrow> bool" where
  "indexInv ingresses idx = (wfIndex idx \<and> (\<forall>host key. indexed idx host key \<longleftrightarrow> minionOf ingresses host key))"

lemma minionOf_unique: "minionOf ingresses h key \<Longrightarrow> minionOf ingresses h' key \<Longrightarrow> h = h'"
  by (auto simp: minionOf_def split: option.splits list.splits)

lemma indexInv_Nil [simp]: "indexInv [] []"
  by (simp add: indexInv_def wfIndex_def indexed_def minionOf_def)

text \<open>Removing a key leaves the other keys where they were, and the key nowhere.\<close>

lemma removeMinionFromIndex_wf:
  assumes "wfIndex idx"
  shows "wfIndex (removeMinionFromIndex key idx)"
proof (cases "find (\<lambda>(host, keys). gget keys key = Some True) idx")
  case None
  with assms show ?thesis by (simp add: removeMinionFromIndex_def)
next
  case (Some hk)
  obtain host keys where hk: "hk = (host, keys)" by (cases hk)
  have "(host, keys) \<in> set idx"
    using find_SomeD [OF Some] hk by auto
  then have keys: "gget idx host = Some keys"
    using assms by (simp add: wfIndex_def gget_memI)
  then have ok: "gwf keys" "\<forall>k \<in> set (gkeys keys). gget keys k = Some True"
    using assms by (auto simp: wfIndex_def)
  show ?thesis
    using assms Some hk keys ok
    by (auto simp: removeMinionFromIndex_def Let_def wfIndex_def gkeys_gdel split: if_splits)
qed

lemma removeMinionFromIndex_indexed:
  assumes wf: "wfIndex idx" and once: "\<And>h h'. indexed idx h key \<Longrightarrow> indexed idx h' key \<Longrightarrow> h = h'"
  shows "indexed (removeMinionFromIndex key idx) host k \<longleftrightarrow> k \<noteq> key \<and> indexed idx host k"
proof (cases "find (\<lambda>(host, keys). gget keys key = Some True) idx")
  case None
  have "\<not> indexed idx h key" for h
    using None by (auto simp: indexed_def find_None_iff split: option.splits dest: gget_memD)
  with None show ?thesis
    by (auto simp: removeMinionFromIndex_def)
next
  case (Some hk)
  obtain h keys where hk: "hk = (h, keys)" by (cases hk)
  have "(h, keys) \<in> set idx" and key: "gget keys key = Some True"
    using find_SomeD [OF Some] hk by auto
  then have keys: "gget idx h = Some keys"
    using wf by (simp add: wfIndex_def gget_memI)
  with key have "indexed idx h key"
    by (simp add: indexed_def)
  with once have other: "\<not> indexed idx h' key" if "h' \<noteq> h" for h'
    using that by blast
  have gone: "gdel keys key = [] \<Longrightarrow> k \<noteq> key \<Longrightarrow> gget keys k = None" for k
    by (metis gget_Nil gget_gdel)
  show ?thesis
    using Some hk keys key other [of host] gone [of k]
    by (auto simp: removeMinionFromIndex_def Let_def indexed_def)
qed

lemma removeMinion_indexInv:
  assumes "indexInv ingresses idx"
  shows "indexInv (gdel ingresses key) (removeMinionFromIndex key idx)"
proof -
  have "indexed (removeMinionFromIndex key idx) h k \<longleftrightarrow> minionOf (gdel ingresses key) h k" for h k
    using assms removeMinionFromIndex_indexed [of idx key h k] minionOf_unique
    by (auto simp: indexInv_def minionOf_def)
  with assms show ?thesis
    by (simp add: indexInv_def removeMinionFromIndex_wf)
qed

lemma updateMinionIndex_None:
  "indexInv ingresses idx \<Longrightarrow> indexInv (gdel ingresses key) (updateMinionIndex key None idx)"
  by (simp add: updateMinionIndex_def removeMinion_indexInv)

lemma updateMinionIndex_Some:
  assumes "indexInv ingresses idx"
  shows "indexInv (gput ingresses key ing) (updateMinionIndex key (Some ing) idx)"
proof -
  let ?idx = "removeMinionFromIndex key idx"
  have inv: "indexInv (gdel ingresses key) ?idx"
    using assms by (rule removeMinion_indexInv)
  have other: "minionOf (gput ingresses key ing) h k \<longleftrightarrow> minionOf (gdel ingresses key) h k" if "k \<noteq> key" for h k
    using that by (simp add: minionOf_def)
  have none: "\<not> minionOf (gdel ingresses key) h key" for h
    by (simp add: minionOf_def)
  show ?thesis
  proof (cases "isMinion ing \<and> ing_Rules ing \<noteq> []")
    case False
    then have "updateMinionIndex key (Some ing) idx = ?idx"
      by (auto simp: updateMinionIndex_def Let_def split: list.splits)
    moreover have "\<not> minionOf (gput ingresses key ing) h key" for h
      using False by (auto simp: minionOf_def split: list.splits)
    ultimately show ?thesis
      using inv other none unfolding indexInv_def by metis
  next
    case True
    then obtain r rs where rules: "ing_Rules ing = r # rs" by (cases "ing_Rules ing") auto
    let ?keys = "case gget ?idx (rule_Host r) of None \<Rightarrow> [] | Some ks \<Rightarrow> ks"
    have upd: "updateMinionIndex key (Some ing) idx = gput ?idx (rule_Host r) (gput ?keys key True)"
      using True rules by (simp add: updateMinionIndex_def Let_def)
    have keys: "gwf ?keys" "\<forall>k \<in> set (gkeys ?keys). gget ?keys k = Some True"
      using inv by (auto simp: indexInv_def wfIndex_def split: option.splits)
    have "wfIndex (gput ?idx (rule_Host r) (gput ?keys key True))"
      using inv keys by (auto simp: indexInv_def wfIndex_def gkeys_gput)
    moreover have "indexed (gput ?idx (rule_Host r) (gput ?keys key True)) h k \<longleftrightarrow>
        (h = rule_Host r \<and> k = key) \<or> indexed ?idx h k" for h k
      by (auto simp: indexed_def split: option.splits)
    moreover have "minionOf (gput ingresses key ing) h key \<longleftrightarrow> h = rule_Host r" for h
      using True rules by (auto simp: minionOf_def)
    ultimately show ?thesis
      using inv other none upd unfolding indexInv_def by metis
  qed
qed

section \<open>The minions of a master\<close>

text \<open>
  The local state of \<^verbatim>\<open>buildMinionConfigs\<close>. A pointer to a minion configuration is the key of
  its Ingress; \<^verbatim>\<open>ms_configs\<close> is the store the pointers refer to, in the order in which the
  configurations are appended to the result.
\<close>

record minionState =
  ms_paths :: "(string, string) gomap"
  ms_configs :: "(string, MinionConfiguration) gomap"
  ms_childWarnings :: "(string, string list) gomap"

definition minionMeta :: "(string, MinionConfiguration) gomap \<Rightarrow> string \<Rightarrow> ObjectMeta" where
  "minionMeta configs key =
     (case gget configs key of None \<Rightarrow> emptyMeta | Some mc \<Rightarrow> ing_ObjectMeta (mc_Ingress mc))"

definition setValidPath :: "string \<Rightarrow> string \<Rightarrow> bool \<Rightarrow> (string, MinionConfiguration) gomap
    \<Rightarrow> (string, MinionConfiguration) gomap" where
  "setValidPath key path b configs =
     (case gget configs key of
        None \<Rightarrow> configs
      | Some mc \<Rightarrow> gput configs key (mc\<lparr>mc_ValidPaths := gput (mc_ValidPaths mc) path b\<rparr>))"

definition appendWarning :: "string \<Rightarrow> string \<Rightarrow> (string, string list) gomap \<Rightarrow> (string, string list) gomap" where
  "appendWarning key w ws = gput ws key ((case gget ws key of None \<Rightarrow> [] | Some l \<Rightarrow> l) @ [w])"

definition pathWarning :: "string \<Rightarrow> string" where
  "pathWarning path = ''path '' @ path @ '' is taken by another resource''"

text \<open>One iteration of the inner loop: the minion \<^verbatim>\<open>key\<close> claims \<^verbatim>\<open>path\<close>.\<close>

definition claimPath :: "string \<Rightarrow> string \<Rightarrow> minionState \<Rightarrow> minionState" where
  "claimPath key path st =
     (case gget (ms_paths st) path of
        None \<Rightarrow> st\<lparr>ms_paths := gput (ms_paths st) path key,
                   ms_configs := setValidPath key path True (ms_configs st)\<rparr>
      | Some holder \<Rightarrow>
          if \<not> chooseObjectMetaWinner (minionMeta (ms_configs st) holder) (minionMeta (ms_configs st) key) then
            st\<lparr>ms_paths := gput (ms_paths st) path key,
               ms_configs := setValidPath holder path False (setValidPath key path True (ms_configs st)),
               ms_childWarnings := appendWarning (getResourceKey (minionMeta (ms_configs st) holder))
                 (pathWarning path) (ms_childWarnings st)\<rparr>
          else
            st\<lparr>ms_childWarnings := appendWarning (getResourceKey (minionMeta (ms_configs st) key))
                 (pathWarning path) (ms_childWarnings st)\<rparr>)"

text \<open>
  One iteration of the outer loop. Reading \<^verbatim>\<open>Rules[0].HTTP.Paths\<close> panics when there is no rule
  or its \<^verbatim>\<open>HTTP\<close> is nil.
\<close>

definition addMinion :: "(string, Ingress) gomap \<Rightarrow> string \<Rightarrow> minionState \<Rightarrow> minionState option" where
  "addMinion ingresses key st =
     (case gget ingresses key of
        None \<Rightarrow> Some st
      | Some ing \<Rightarrow>
          (case ing_Rules ing of
             [] \<Rightarrow> None
           | r # _ \<Rightarrow>
               (case rule_HTTP r of
                  None \<Rightarrow> None
                | Some ps \<Rightarrow>
                    Some (fold (\<lambda>p. claimPath key (hip_Path p)) ps
                      (st\<lparr>ms_configs := gput (ms_configs st) key (NewMinionConfiguration ing)\<rparr>)))))"

fun addMinions :: "(string, Ingress) gomap \<Rightarrow> string list \<Rightarrow> minionState \<Rightarrow> minionState option" where
  "addMinions ingresses [] st = Some st"
| "addMinions ingresses (k # ks) st =
     (case addMinion ingresses k st of None \<Rightarrow> None | Some st' \<Rightarrow> addMinions ingresses ks st')"

definition minionKeys :: "minionIndex \<Rightarrow> string \<Rightarrow> string list" where
  "minionKeys idx host = (case gget idx host of None \<Rightarrow> [] | Some keys \<Rightarrow> sortedKeys keys)"

definition buildMinionConfigs ::
  "(string, Ingress) gomap \<Rightarrow> minionIndex \<Rightarrow> string
    \<Rightarrow> (MinionConfiguration list \<times> (string, string list) gomap) option" where
  "buildMinionConfigs ingresses idx masterHost =
     (case addMinions ingresses (minionKeys idx masterHost)
             \<lparr>ms_paths = [], ms_configs = [], ms_childWarnings = []\<rparr> of
        None \<Rightarrow> None
      | Some st \<Rightarrow> Some (map snd (ms_configs st), ms_childWarnings st))"

text \<open>A path is valid for a minion when its flag is set.\<close>

definition validPath :: "MinionConfiguration \<Rightarrow> string \<Rightarrow> bool" where
  "validPath mc path = (gget (mc_ValidPaths mc) path = Some True)"

definition validPathOf :: "(string, MinionConfiguration) gomap \<Rightarrow> string \<Rightarrow> string \<Rightarrow> bool" where
  "validPathOf configs key path =
     (case gget configs key of None \<Rightarrow> False | Some mc \<Rightarrow> validPath mc path)"

section \<open>Claims on paths\<close>

text \<open>The claims the minions make, in the order in which they are processed.\<close>

definition minionPaths :: "Ingress \<Rightarrow> string list" where
  "minionPaths ing =
     (case ing_Rules ing of
        [] \<Rightarrow> []
      | r # _ \<Rightarrow> (case rule_HTTP r of None \<Rightarrow> [] | Some ps \<Rightarrow> map hip_Path ps))"

definition claimsOf :: "(string, Ingress) gomap \<Rightarrow> string \<Rightarrow> (string \<times> string) list" where
  "claimsOf ingresses key =
     (case gget ingresses key of None \<Rightarrow> [] | Some ing \<Rightarrow> map (\<lambda>p. (p, key)) (minionPaths ing))"

definition metaOf :: "(string, Ingress) gomap \<Rightarrow> string \<Rightarrow> ObjectMeta" where
  "metaOf ingresses key = (case gget ingresses key of None \<Rightarrow> emptyMeta | Some ing \<Rightarrow> ing_ObjectMeta ing)"

lemma gget_setValidPath:
  "gget (setValidPath key path b configs) k =
     (if k = key then map_option (\<lambda>mc. mc\<lparr>mc_ValidPaths := gput (mc_ValidPaths mc) path b\<rparr>) (gget configs k)
      else gget configs k)"
  by (auto simp: setValidPath_def split: option.splits)

lemma minionMeta_setValidPath [simp]: "minionMeta (setValidPath key path b configs) = minionMeta configs"
  by (rule ext) (auto simp: minionMeta_def gget_setValidPath split: option.splits)

lemma minionMeta_claimPath [simp]: "minionMeta (ms_configs (claimPath key path st)) = minionMeta (ms_configs st)"
  by (simp add: claimPath_def split: option.splits)

lemma validPathOf_setValidPath:
  "validPathOf (setValidPath key path b configs) k p =
     (if k = key \<and> p = path then gget configs k \<noteq> None \<and> b else validPathOf configs k p)"
  by (auto simp: validPathOf_def validPath_def gget_setValidPath split: option.splits)

text \<open>A claim settles the holder of the path as \<^const>\<open>settleStep\<close> does.\<close>

lemma claimPath_paths:
  "gget (ms_paths (claimPath key path st)) =
     settleStep (\<lambda>j k. chooseObjectMetaWinner (minionMeta (ms_configs st) j) (minionMeta (ms_configs st) k))
       (gget (ms_paths st)) path key"
  by (rule ext) (auto simp: claimPath_def settleStep_def split: option.splits)

text \<open>
  The invariant of the loops: a path is valid for exactly the minion that holds it, and a
  holder has a configuration.
\<close>

definition pathInv :: "minionState \<Rightarrow> bool" where
  "pathInv st =
     ((\<forall>key path. validPathOf (ms_configs st) key path \<longleftrightarrow> gget (ms_paths st) path = Some key) \<and>
      (\<forall>path key. gget (ms_paths st) path = Some key \<longrightarrow> gget (ms_configs st) key \<noteq> None))"

lemma claimPath_pathInv:
  assumes "pathInv st" and "gget (ms_configs st) key \<noteq> None" and "gget (ms_paths st) path \<noteq> Some key"
  shows "pathInv (claimPath key path st)"
  using assms
  by (auto simp: pathInv_def claimPath_def validPathOf_setValidPath gget_setValidPath split: option.splits)

text \<open>A second claim of the same minion on a path it holds makes the path invalid for it.\<close>

lemma claimPath_twice:
  assumes "gget (ms_paths st) path = Some key"
  shows "\<not> validPathOf (ms_configs (claimPath key path st)) key path"
  using assms metas.beats_irrefl
  by (simp add: claimPath_def validPathOf_setValidPath)

lemma claimPath_keeps_config: "gget (ms_configs st) k \<noteq> None \<Longrightarrow> gget (ms_configs (claimPath key path st)) k \<noteq> None"
  by (auto simp: claimPath_def gget_setValidPath split: option.splits)

section \<open>The loops\<close>

abbreviation metaBeats :: "(string, Ingress) gomap \<Rightarrow> string \<Rightarrow> string \<Rightarrow> bool" where
  "metaBeats ingresses \<equiv> (\<lambda>j k. chooseObjectMetaWinner (metaOf ingresses j) (metaOf ingresses k))"

definition loopInv :: "(string, Ingress) gomap \<Rightarrow> (string \<times> string) list \<Rightarrow> minionState \<Rightarrow> bool" where
  "loopInv ingresses cs st =
     (pathInv st \<and> gget (ms_paths st) = settle (metaBeats ingresses) Map.empty cs \<and>
      (\<forall>k mc. gget (ms_configs st) k = Some mc \<longrightarrow> gget ingresses k = Some (mc_Ingress mc)))"

lemma loopInv_meta:
  "loopInv ingresses cs st \<Longrightarrow> gget (ms_configs st) k \<noteq> None \<Longrightarrow> minionMeta (ms_configs st) k = metaOf ingresses k"
  by (auto simp: loopInv_def minionMeta_def metaOf_def split: option.splits)

lemma claimPath_ingress:
  "gget (ms_configs (claimPath key path st)) k = Some mc \<Longrightarrow>
   \<exists>mc'. gget (ms_configs st) k = Some mc' \<and> mc_Ingress mc' = mc_Ingress mc"
  by (auto simp: claimPath_def gget_setValidPath split: option.splits if_splits)

lemma claimPath_loopInv:
  assumes inv: "loopInv ingresses cs st" and key: "gget (ms_configs st) key \<noteq> None"
    and new: "(path, key) \<notin> set cs"
  shows "loopInv ingresses (cs @ [(path, key)]) (claimPath key path st)"
proof -
  have held: "gget (ms_paths st) path \<noteq> Some key"
    using inv new settle_claimed [of "metaBeats ingresses" Map.empty cs path key]
    by (auto simp: loopInv_def)
  have "chooseObjectMetaWinner (minionMeta (ms_configs st) h) (minionMeta (ms_configs st) key) =
      chooseObjectMetaWinner (metaOf ingresses h) (metaOf ingresses key)"
    if "gget (ms_paths st) path = Some h" for h
    using that inv key loopInv_meta [OF inv] by (simp add: loopInv_def pathInv_def)
  then have "gget (ms_paths (claimPath key path st)) =
      settleStep (metaBeats ingresses) (gget (ms_paths st)) path key"
    unfolding claimPath_paths by (rule settleStep_cong)
  then have "gget (ms_paths (claimPath key path st)) = settle (metaBeats ingresses) Map.empty (cs @ [(path, key)])"
    using inv by (simp add: loopInv_def settle_append)
  moreover have "pathInv (claimPath key path st)"
    using inv key held by (simp add: loopInv_def claimPath_pathInv)
  moreover have "gget ingresses k = Some (mc_Ingress mc)"
    if "gget (ms_configs (claimPath key path st)) k = Some mc" for k mc
    using claimPath_ingress [OF that] inv by (auto simp: loopInv_def)
  ultimately show ?thesis
    by (simp add: loopInv_def)
qed

lemma fold_claimPath_loopInv:
  assumes "loopInv ingresses cs st" and "gget (ms_configs st) key \<noteq> None"
    and "distinct ps" and "\<forall>p \<in> set ps. (p, key) \<notin> set cs"
  shows "loopInv ingresses (cs @ map (\<lambda>p. (p, key)) ps) (fold (claimPath key) ps st)"
  using assms
proof (induction ps arbitrary: cs st)
  case (Cons p ps)
  have "loopInv ingresses (cs @ [(p, key)]) (claimPath key p st)"
    using Cons.prems by (simp add: claimPath_loopInv)
  then have "loopInv ingresses ((cs @ [(p, key)]) @ map (\<lambda>p. (p, key)) ps) (fold (claimPath key) ps (claimPath key p st))"
    using Cons.prems by (intro Cons.IH) (auto simp: claimPath_keeps_config)
  then show ?case by simp
qed simp

lemma gkeys_setValidPath [simp]: "gkeys (setValidPath key path b configs) = gkeys configs"
  by (auto simp: setValidPath_def gkeys_gput_old split: option.splits)

lemma gkeys_claimPath [simp]: "gkeys (ms_configs (claimPath key path st)) = gkeys (ms_configs st)"
  by (simp add: claimPath_def split: option.splits)

lemma gkeys_fold_claimPath [simp]: "gkeys (ms_configs (fold (claimPath key) ps st)) = gkeys (ms_configs st)"
  by (induction ps arbitrary: st) simp_all

text \<open>The shape of a stored minion that the loop reads, and that its paths are listed once.\<close>

definition okMinion :: "Ingress \<Rightarrow> bool" where
  "okMinion ing = (\<exists>r rs ps. ing_Rules ing = r # rs \<and> rule_HTTP r = Some ps)"

lemma addMinion_Some:
  assumes "gget ingresses key = Some ing" and "okMinion ing"
  shows "addMinion ingresses key st =
    Some (fold (claimPath key) (minionPaths ing)
      (st\<lparr>ms_configs := gput (ms_configs st) key (NewMinionConfiguration ing)\<rparr>))"
  using assms by (auto simp: addMinion_def okMinion_def minionPaths_def fold_map comp_def)

lemma loopInv_new_config:
  assumes "loopInv ingresses cs st" and "gget ingresses key = Some ing" and "\<forall>p. (p, key) \<notin> set cs"
  shows "loopInv ingresses cs (st\<lparr>ms_configs := gput (ms_configs st) key (NewMinionConfiguration ing)\<rparr>)"
proof -
  have "gget (ms_paths st) p \<noteq> Some key" for p
    using assms settle_claimed [of "metaBeats ingresses" Map.empty cs p key] by (auto simp: loopInv_def)
  with assms show ?thesis
    by (auto simp: loopInv_def pathInv_def validPathOf_def validPath_def NewMinionConfiguration_def)
qed

lemma addMinions_loopInv:
  assumes "loopInv ingresses cs st" and "distinct ks" and "\<forall>k \<in> set ks. \<forall>p. (p, k) \<notin> set cs"
    and "\<forall>k \<in> set ks. gget (ms_configs st) k = None"
    and "\<forall>k \<in> set ks. \<exists>ing. gget ingresses k = Some ing \<and> okMinion ing \<and> distinct (minionPaths ing)"
  shows "\<exists>st'. addMinions ingresses ks st = Some st' \<and>
    loopInv ingresses (cs @ concat (map (claimsOf ingresses) ks)) st' \<and>
    gkeys (ms_configs st') = gkeys (ms_configs st) @ ks"
  using assms
proof (induction ks arbitrary: cs st)
  case (Cons k ks)
  obtain ing where ing: "gget ingresses k = Some ing" "okMinion ing" "distinct (minionPaths ing)"
    using Cons.prems(5) by auto
  let ?st = "st\<lparr>ms_configs := gput (ms_configs st) k (NewMinionConfiguration ing)\<rparr>"
  let ?st' = "fold (claimPath k) (minionPaths ing) ?st"
  have claims: "claimsOf ingresses k = map (\<lambda>p. (p, k)) (minionPaths ing)"
    using ing by (simp add: claimsOf_def)
  have "loopInv ingresses (cs @ claimsOf ingresses k) ?st'"
    unfolding claims using Cons.prems ing
    by (intro fold_claimPath_loopInv loopInv_new_config) auto
  moreover have keys: "gkeys (ms_configs ?st') = gkeys (ms_configs st) @ [k]"
    using Cons.prems(4) by (simp add: gkeys_gput_new)
  moreover have "gget (ms_configs ?st') j = None" if "j \<in> set ks" for j
  proof -
    have "j \<notin> set (gkeys (ms_configs st))" and "j \<noteq> k"
      using that Cons.prems(2,4) by (auto simp: gkeys_gget)
    then have "j \<notin> set (gkeys (ms_configs ?st'))"
      unfolding keys by simp
    then show ?thesis
      by (meson gkeys_gget not_None_eq)
  qed
  ultimately obtain st'' where "addMinions ingresses ks ?st' = Some st''"
    and "loopInv ingresses ((cs @ claimsOf ingresses k) @ concat (map (claimsOf ingresses) ks)) st''"
    and "gkeys (ms_configs st'') = gkeys (ms_configs ?st') @ ks"
    using Cons.IH [of "cs @ claimsOf ingresses k" ?st'] Cons.prems claims by auto
  with ing keys show ?case
    by (simp add: addMinion_Some)
qed simp

text \<open>Without any assumption on repeated paths, the loop does not panic on well-shaped minions.\<close>

lemma addMinions_no_panic:
  "\<forall>k \<in> set ks. \<forall>ing. gget ingresses k = Some ing \<longrightarrow> okMinion ing \<Longrightarrow> addMinions ingresses ks st \<noteq> None"
proof (induction ks arbitrary: st)
  case (Cons k ks)
  then have "addMinion ingresses k st \<noteq> None"
    by (cases "gget ingresses k") (auto simp: addMinion_Some, simp add: addMinion_def)
  with Cons show ?case
    by auto
qed simp

lemma minionKeys_iff:
  assumes "indexInv ingresses idx"
  shows "k \<in> set (minionKeys idx host) \<longleftrightarrow> minionOf ingresses host k"
proof -
  have "minionOf ingresses host k \<longleftrightarrow> indexed idx host k"
    using assms by (simp add: indexInv_def)
  also have "\<dots> \<longleftrightarrow> k \<in> set (minionKeys idx host)"
  proof (cases "gget idx host")
    case (Some keys)
    then have "\<forall>k \<in> set (gkeys keys). gget keys k = Some True"
      using assms by (simp add: indexInv_def wfIndex_def)
    with Some show ?thesis
      by (auto simp: minionKeys_def indexed_def gkeys_gget)
  qed (simp add: minionKeys_def indexed_def)
  finally show ?thesis ..
qed

lemma distinct_minionKeys: "indexInv ingresses idx \<Longrightarrow> distinct (minionKeys idx host)"
  by (auto simp: minionKeys_def indexInv_def wfIndex_def split: option.splits)

lemma buildMinionConfigs_no_panic:
  assumes "indexInv ingresses idx" and "\<forall>k ing. gget ingresses k = Some ing \<and> isMinion ing \<longrightarrow> okMinion ing"
  shows "buildMinionConfigs ingresses idx host \<noteq> None"
proof -
  have "okMinion ing" if "k \<in> set (minionKeys idx host)" "gget ingresses k = Some ing" for k ing
    using that assms(2) minionKeys_iff [OF assms(1)] by (auto simp: minionOf_def)
  then have "addMinions ingresses (minionKeys idx host) st \<noteq> None" for st
    by (intro addMinions_no_panic) blast
  then show ?thesis
    by (auto simp: buildMinionConfigs_def split: option.splits)
qed

section \<open>Which minion serves a path\<close>

text \<open>Kubernetes gives every object its own UID.\<close>

definition uniqueUIDs :: "(string, Ingress) gomap \<Rightarrow> bool" where
  "uniqueUIDs ingresses =
     (\<forall>(k, ing) \<in> set ingresses. \<forall>(k', ing') \<in> set ingresses.
        UID (ing_ObjectMeta ing) = UID (ing_ObjectMeta ing') \<longrightarrow> k = k')"

lemma uniqueUIDs_inj:
  assumes "uniqueUIDs ingresses" and "\<forall>k \<in> K. gget ingresses k \<noteq> None"
  shows "inj_on (\<lambda>k. metaRank (metaOf ingresses k)) K"
proof (rule inj_onI)
  fix j k
  assume "j \<in> K" "k \<in> K" and eq: "metaRank (metaOf ingresses j) = metaRank (metaOf ingresses k)"
  then obtain ing ing' where "gget ingresses j = Some ing" "gget ingresses k = Some ing'"
    using assms(2) by (meson not_None_eq)
  moreover from this have "UID (ing_ObjectMeta ing) = UID (ing_ObjectMeta ing')"
    using metaRank_UID [OF eq] by (simp add: metaOf_def)
  ultimately show "j = k"
    using assms(1) gget_memD [of ingresses j ing] gget_memD [of ingresses k ing']
    by (auto simp: uniqueUIDs_def)
qed

lemma claims_minionKeys:
  "(p, k) \<in> set (concat (map (claimsOf ingresses) ks)) \<longleftrightarrow>
   k \<in> set ks \<and> (\<exists>ing. gget ingresses k = Some ing \<and> p \<in> set (minionPaths ing))"
  by (force simp: claimsOf_def split: option.splits)

text \<open>
  The result of \<^const>\<open>buildMinionConfigs\<close> on minions that list each path once: the minions of
  the host, and a path is valid for the claimant that beats every other one.
\<close>

lemma validPathOf_config: "gget configs k = Some mc \<Longrightarrow> validPathOf configs k p = validPath mc p"
  by (simp add: validPathOf_def)

lemma buildMinionConfigs_valid:
  assumes inv: "indexInv ingresses idx" and uids: "uniqueUIDs ingresses"
    and ok: "\<forall>k ing. gget ingresses k = Some ing \<and> isMinion ing \<longrightarrow> okMinion ing \<and> distinct (minionPaths ing)"
    and res: "buildMinionConfigs ingresses idx host = Some (minions, warnings)"
  shows "\<exists>configs. minions = map snd configs \<and> gkeys configs = minionKeys idx host \<and>
    (\<forall>k mc. gget configs k = Some mc \<longrightarrow> gget ingresses k = Some (mc_Ingress mc) \<and>
      (\<forall>p. validPath mc p \<longleftrightarrow>
        bestClaimant (metaBeats ingresses) (concat (map (claimsOf ingresses) (minionKeys idx host))) p k))"
proof -
  let ?ks = "minionKeys idx host" and ?cs = "concat (map (claimsOf ingresses) (minionKeys idx host))"
  let ?st = "\<lparr>ms_paths = [], ms_configs = [], ms_childWarnings = []\<rparr> :: minionState"
  have start: "loopInv ingresses [] ?st"
    by (auto simp: loopInv_def pathInv_def validPathOf_def)
  have keys: "\<exists>ing. gget ingresses k = Some ing \<and> okMinion ing \<and> distinct (minionPaths ing)" if "k \<in> set ?ks" for k
  proof -
    have "minionOf ingresses host k"
      using that minionKeys_iff [OF inv] by simp
    then obtain ing where "gget ingresses k = Some ing" "isMinion ing"
      by (auto simp: minionOf_def split: option.splits)
    with ok show ?thesis by blast
  qed
  obtain st where st: "addMinions ingresses ?ks ?st = Some st" "loopInv ingresses ?cs st" "gkeys (ms_configs st) = ?ks"
    using addMinions_loopInv [OF start distinct_minionKeys [OF inv], of host] keys by fastforce
  have inj: "inj_on (\<lambda>k. metaRank (metaOf ingresses k)) {k. (p, k) \<in> set ?cs}" for p
    by (rule uniqueUIDs_inj [OF uids]) (unfold claims_minionKeys, auto)
  have "validPath mc p \<longleftrightarrow> bestClaimant (metaBeats ingresses) ?cs p k"
    if "gget (ms_configs st) k = Some mc" for k mc p
  proof -
    have "validPath mc p \<longleftrightarrow> gget (ms_paths st) p = Some k"
      using st(2) that validPathOf_config [OF that] by (simp add: loopInv_def pathInv_def)
    also have "\<dots> \<longleftrightarrow> bestClaimant (metaBeats ingresses) ?cs p k"
      using st(2) keyed.settle_best [OF inj] by (simp add: loopInv_def)
    finally show ?thesis .
  qed
  moreover have "minions = map snd (ms_configs st)"
    using res st(1) by (simp add: buildMinionConfigs_def)
  moreover have "\<forall>k mc. gget (ms_configs st) k = Some mc \<longrightarrow> gget ingresses k = Some (mc_Ingress mc)"
    using st(2) by (simp add: loopInv_def)
  ultimately show ?thesis
    using st(3) by blast
qed

lemma bestClaimant_minions:
  assumes inv: "indexInv ingresses idx" and ing: "gget ingresses k = Some ing"
  shows "bestClaimant (metaBeats ingresses) (concat (map (claimsOf ingresses) (minionKeys idx host))) p k \<longleftrightarrow>
    minionOf ingresses host k \<and> p \<in> set (minionPaths ing) \<and>
    (\<forall>k' ing'. minionOf ingresses host k' \<and> gget ingresses k' = Some ing' \<and> p \<in> set (minionPaths ing') \<and> k' \<noteq> k
      \<longrightarrow> chooseObjectMetaWinner (ing_ObjectMeta ing) (ing_ObjectMeta ing'))"
proof -
  have claims: "(p', k') \<in> set (concat (map (claimsOf ingresses) (minionKeys idx host))) \<longleftrightarrow>
      minionOf ingresses host k' \<and> (\<exists>ing. gget ingresses k' = Some ing \<and> p' \<in> set (minionPaths ing))" for p' k'
    unfolding claims_minionKeys minionKeys_iff [OF inv] ..
  show ?thesis
    unfolding bestClaimant_bestOf bestOf_def mem_Collect_eq claims Ball_def
    using ing by (auto simp: metaOf_def) blast
qed


text \<open>Two minions of one host that both list \<^verbatim>\<open>/tea\<close>; the older one serves it.\<close>

definition teaMinion :: "string \<Rightarrow> int \<Rightarrow> string list \<Rightarrow> Ingress" where
  "teaMinion name created paths = emptyIngress
     \<lparr>ing_ObjectMeta := emptyMeta\<lparr>Namespace := ''d'', Name := name, UID := name, CreationTimestamp := created,
        Annotations := Some [(''nginx.org/mergeable-ingress-type'', ''minion'')]\<rparr>,
      ing_Spec := (ing_Spec emptyIngress)\<lparr>is_Rules := [\<lparr>rule_Host = ''cafe.example.com'', rule_HTTP = Some (map
        (\<lambda>p. \<lparr>hip_Path = p, hip_PathType = None,
           hip_Backend = \<lparr>be_Service = None, be_hasResource = False\<rparr>\<rparr>) paths)\<rparr>]\<rparr>\<rparr>"

definition teaIngresses :: "(string, Ingress) gomap" where
  "teaIngresses = gput (gput [] ''d/a'' (teaMinion ''a'' 2 [''/tea''])) ''d/b'' (teaMinion ''b'' 1 [''/tea'', ''/milk''])"

definition teaIndex :: minionIndex where
  "teaIndex = updateMinionIndex ''d/b'' (Some (teaMinion ''b'' 1 [''/tea'', ''/milk'']))
     (updateMinionIndex ''d/a'' (Some (teaMinion ''a'' 2 [''/tea''])) [])"

lemma tea_index: "indexInv teaIngresses teaIndex"
  unfolding teaIngresses_def teaIndex_def by (intro updateMinionIndex_Some indexInv_Nil)

lemma gget_tea:
  "gget teaIngresses k =
     (if k = ''d/b'' then Some (teaMinion ''b'' 1 [''/tea'', ''/milk''])
      else if k = ''d/a'' then Some (teaMinion ''a'' 2 [''/tea'']) else None)"
  by (simp add: teaIngresses_def)

lemma teaMinion_simps [simp]:
  "isMinion (teaMinion name created paths)"
  "ing_Rules (teaMinion name created paths) \<noteq> []"
  "minionPaths (teaMinion name created paths) = paths"
  "okMinion (teaMinion name created paths)"
  "ing_ObjectMeta (teaMinion name created paths) = emptyMeta\<lparr>Namespace := ''d'', Name := name, UID := name,
     CreationTimestamp := created, Annotations := Some [(''nginx.org/mergeable-ingress-type'', ''minion'')]\<rparr>"
  by (auto simp: teaMinion_def isMinion_def annotation_def minionPaths_def okMinion_def comp_def gget_def zero_defs)

lemma minionOf_tea: "minionOf teaIngresses ''cafe.example.com'' k \<longleftrightarrow> k = ''d/a'' \<or> k = ''d/b''"
  by (simp add: minionOf_def gget_tea) (simp add: teaMinion_def)


text \<open>
  A single minion that lists a path twice (for instance as an exact path and as a prefix) loses
  it: the path is not valid for it and it is warned of another resource.
\<close>

lemma repeated_path_is_lost:
  "buildMinionConfigs [(''d/a'', teaMinion ''a'' 1 [''/tea'', ''/tea''])]
     (updateMinionIndex ''d/a'' (Some (teaMinion ''a'' 1 [''/tea'', ''/tea''])) []) ''cafe.example.com'' =
   Some ([\<lparr>mc_Ingress = teaMinion ''a'' 1 [''/tea'', ''/tea''], mc_ValidPaths = [(''/tea'', False)]\<rparr>],
     [(''d/a'', [''path /tea is taken by another resource''])])"
  by code_simp

end
