(* ===== verification/Route_Validation.thy ===== *)
theory Route_Validation
  imports Ingress_Validation
begin

text \<open>
  The validation of the routes of a VirtualServer and of the subroutes of a VirtualServerRoute
  (\<^verbatim>\<open>pkg/apis/configuration/validation/virtualserver.go\<close>): the path modifiers, the fields of one
  route, the routes of a VirtualServer, and the four ways in which subroutes are checked against
  the paths of the VirtualServer that refers to them. The checks of single fields (paths,
  actions, splits, matches, error pages, policies, hosts, upstreams) are the fields of
  \<^verbatim>\<open>routeChecks\<close>; the results hold for every behaviour of them. Errors are the kinds and field
  paths of \<^verbatim>\<open>Ingress_Validation\<close>.
\<close>

section \<open>Paths with a modifier\<close>

definition pathModifiers :: "string list" where
  "pathModifiers = [''~*'', ''~'', ''^~'', ''='']"

definition NormalizePath :: "string \<Rightarrow> string" where
  "NormalizePath path =
     (case find (hasPrefix path) pathModifiers of
        None \<Rightarrow> path
      | Some m \<Rightarrow> m @ trimLeftSpace (trimPrefix path m))"

definition isRegexOrExactMatch :: "string \<Rightarrow> bool" where
  "isRegexOrExactMatch path = (hasPrefix path ''~'' \<or> hasPrefix path ''='')"

definition subrouteModifierCategory :: "string \<Rightarrow> string" where
  "subrouteModifierCategory path =
     (if hasPrefix path ''~'' then ''regex''
      else if hasPrefix path ''='' then ''exact''
      else if hasPrefix path ''^~'' then ''longest-prefix''
      else ''prefix'')"

text \<open>\<^verbatim>\<open>nsutils.HasNamespace\<close>, and the key of a VirtualServerRoute that a route names.\<close>

definition HasNamespace :: "string \<Rightarrow> bool" where
  "HasNamespace s = (CHR ''/'' \<in> set s)"

definition qualifyRef :: "string \<Rightarrow> string \<Rightarrow> string" where
  "qualifyRef ns ref = (if HasNamespace ref then ref else ns @ ''/'' @ ref)"

section \<open>One route\<close>

record routeChecks =
  rk_path :: "string \<Rightarrow> segment list \<Rightarrow> fieldError list"
  rk_policies :: "PolicyReference list \<Rightarrow> segment list \<Rightarrow> string \<Rightarrow> fieldError list"
  rk_action :: "Action \<Rightarrow> segment list \<Rightarrow> string list \<Rightarrow> string \<Rightarrow> fieldError list"
  rk_splits :: "Split list \<Rightarrow> segment list \<Rightarrow> string list \<Rightarrow> string \<Rightarrow> fieldError list"
  rk_match :: "Match \<Rightarrow> segment list \<Rightarrow> string list \<Rightarrow> string \<Rightarrow> fieldError list"
  rk_labels :: "(string, string) gomap \<Rightarrow> segment list \<Rightarrow> fieldError list"
  rk_errorPage :: "ErrorPage \<Rightarrow> segment list \<Rightarrow> fieldError list"
  rk_routeField :: "string \<Rightarrow> segment list \<Rightarrow> fieldError list"
  rk_addHeaderInherit :: "string \<Rightarrow> segment list \<Rightarrow> fieldError list"
  rk_dos :: "string \<Rightarrow> segment list \<Rightarrow> fieldError list"
  rk_host :: "string \<Rightarrow> segment list \<Rightarrow> fieldError list"
  rk_upstreams :: "Upstream list \<Rightarrow> segment list \<Rightarrow> fieldError list \<times> string list"

definition validateRouteSelector ::
  "routeChecks \<Rightarrow> (string, string) gomap \<Rightarrow> segment list \<Rightarrow> fieldError list" where
  "validateRouteSelector chk matchLabels fieldPath =
     (if matchLabels = [] then [FieldError ErrRequired (fieldPath @ [Child ''matchLabels''])]
      else rk_labels chk matchLabels (fieldPath @ [Child ''matchLabels'']) @
        concat (map (\<lambda>(k, v).
          if v = [] then [FieldError ErrInvalid (fieldPath @ [Child ''matchLabels'', Key k])] else []) matchLabels))"

text \<open>\<^verbatim>\<open>validateRoute\<close>; \<^verbatim>\<open>fieldCount\<close> counts the four ways to say where requests go.\<close>

definition fieldCount :: "Route \<Rightarrow> bool \<Rightarrow> nat" where
  "fieldCount route isRouteFieldForbidden =
     (if route_Action route \<noteq> None then 1 else 0) + (if route_Splits route \<noteq> [] then 1 else 0) +
     (if route_RouteSelector route \<noteq> None then 1 else 0) +
     (if route_Route route \<noteq> [] \<and> \<not> isRouteFieldForbidden then 1 else 0)"

definition validateRoute ::
  "routeChecks \<Rightarrow> Route \<Rightarrow> segment list \<Rightarrow> string list \<Rightarrow> bool \<Rightarrow> string \<Rightarrow> fieldError list" where
  "validateRoute chk route fieldPath upstreamNames isRouteFieldForbidden namespace =
     rk_path chk (route_Path route) (fieldPath @ [Child ''path'']) @
     rk_policies chk (route_Policies route) (fieldPath @ [Child ''policies'']) namespace @
     (case route_Action route of
        None \<Rightarrow> []
      | Some a \<Rightarrow> rk_action chk a (fieldPath @ [Child ''action'']) upstreamNames (route_Path route)) @
     (if route_Splits route \<noteq> [] then
        rk_splits chk (route_Splits route) (fieldPath @ [Child ''splits'']) upstreamNames (route_Path route)
      else []) @
     concat (map (\<lambda>(i, m). rk_match chk m (fieldPath @ [Child ''matches'', Index i]) upstreamNames (route_Path route))
       (enumerate 0 (route_Matches route))) @
     (case route_RouteSelector route of
        None \<Rightarrow> []
      | Some sel \<Rightarrow> validateRouteSelector chk sel (fieldPath @ [Child ''routeSelector''])) @
     concat (map (\<lambda>(i, e). rk_errorPage chk e (fieldPath @ [Child ''errorPages'', Index i]))
       (enumerate 0 (route_ErrorPages route))) @
     (if route_Route route \<noteq> [] then
        (if isRouteFieldForbidden then [FieldError ErrForbidden (fieldPath @ [Child ''route''])]
         else rk_routeField chk (route_Route route) (fieldPath @ [Child ''route'']))
      else []) @
     (if fieldCount route isRouteFieldForbidden \<noteq> 1 then [FieldError ErrInvalid fieldPath] else []) @
     (if route_AddHeaderInherit route \<noteq> [] then
        rk_addHeaderInherit chk (route_AddHeaderInherit route) (fieldPath @ [Child ''add-header-inherit''])
      else []) @
     rk_dos chk (route_Dos route) (fieldPath @ [Child ''dos''])"

section \<open>The routes of a VirtualServer\<close>

text \<open>The first loop: every route by itself, and no normalized path twice.\<close>

fun validateRouteList ::
  "routeChecks \<Rightarrow> segment list \<Rightarrow> string list \<Rightarrow> bool \<Rightarrow> string \<Rightarrow> nat \<Rightarrow> string list \<Rightarrow> Route list \<Rightarrow> fieldError list"
  where
  "validateRouteList chk fieldPath names forbidden ns i allPaths [] = []"
| "validateRouteList chk fieldPath names forbidden ns i allPaths (r # rs) =
     (let idxPath = fieldPath @ [Index i];
          routeErrs = validateRoute chk r idxPath names forbidden ns;
          normPath = NormalizePath (route_Path r)
      in if routeErrs \<noteq> [] then routeErrs @ validateRouteList chk fieldPath names forbidden ns (Suc i) allPaths rs
         else if normPath \<in> set allPaths then
           FieldError ErrDuplicate (idxPath @ [Child ''path'']) #
             validateRouteList chk fieldPath names forbidden ns (Suc i) allPaths rs
         else validateRouteList chk fieldPath names forbidden ns (Suc i) (normPath # allPaths) rs)"

text \<open>The modifier categories with which the routes refer to each VirtualServerRoute.\<close>

definition addCategory ::
  "string \<Rightarrow> nat \<times> Route \<Rightarrow> (string, (string \<times> nat) list) gomap \<Rightarrow> (string, (string \<times> nat) list) gomap" where
  "addCategory ns ir vsrCategories =
     (case ir of (i, r) \<Rightarrow>
        if route_Route r = [] then vsrCategories
        else (let routeRef = qualifyRef ns (route_Route r);
                  infos = (case gget vsrCategories routeRef of None \<Rightarrow> [] | Some l \<Rightarrow> l)
              in gput vsrCategories routeRef (infos @ [(subrouteModifierCategory (route_Path r), i)])))"

definition vsrCategoriesOf :: "string \<Rightarrow> Route list \<Rightarrow> (string, (string \<times> nat) list) gomap" where
  "vsrCategoriesOf ns routes = fold (addCategory ns) (enumerate 0 routes) []"

definition categoryErrors :: "segment list \<Rightarrow> (string \<times> nat) list \<Rightarrow> fieldError list" where
  "categoryErrors fieldPath infos =
     (case infos of
        (first, i) # rest \<Rightarrow>
          concat (map (\<lambda>(category, index).
            if category \<noteq> first then [FieldError ErrInvalid (fieldPath @ [Index index, Child ''path''])] else []) rest)
      | [] \<Rightarrow> [])"

definition validateVirtualServerRoutes ::
  "routeChecks \<Rightarrow> Route list \<Rightarrow> segment list \<Rightarrow> string list \<Rightarrow> string \<Rightarrow> fieldError list" where
  "validateVirtualServerRoutes chk routes fieldPath upstreamNames namespace =
     validateRouteList chk fieldPath upstreamNames False namespace 0 [] routes @
     concat (map (\<lambda>(vsrRef, infos). categoryErrors fieldPath infos) (vsrCategoriesOf namespace routes))"

section \<open>The subroutes of a VirtualServerRoute\<close>

text \<open>The type-consistency check of \<^verbatim>\<open>validateSubroutesStandalone\<close>.\<close>

definition mixedModifiers :: "Route list \<Rightarrow> segment list \<Rightarrow> fieldError list" where
  "mixedModifiers routes fieldPath =
     (case routes of
        [] \<Rightarrow> []
      | r0 # rest \<Rightarrow>
          concat (map (\<lambda>(i, r).
            if subrouteModifierCategory (route_Path r) \<noteq> subrouteModifierCategory (route_Path r0)
            then [FieldError ErrInvalid (fieldPath @ [Index (i + 1), Child ''path''])] else []) (enumerate 0 rest)))"

definition validateSubroutesStandalone ::
  "routeChecks \<Rightarrow> Route list \<Rightarrow> segment list \<Rightarrow> string list \<Rightarrow> string \<Rightarrow> fieldError list" where
  "validateSubroutesStandalone chk routes fieldPath upstreamNames namespace =
     (if mixedModifiers routes fieldPath \<noteq> [] then mixedModifiers routes fieldPath
      else validateRouteList chk fieldPath upstreamNames True namespace 0 [] routes)"

definition validateSubroutesExact ::
  "routeChecks \<Rightarrow> Route list \<Rightarrow> segment list \<Rightarrow> string \<Rightarrow> string list \<Rightarrow> string \<Rightarrow> fieldError list" where
  "validateSubroutesExact chk routes fieldPath vsPath upstreamNames namespace =
     (case routes of
        [r] \<Rightarrow>
          if NormalizePath (route_Path r) \<noteq> NormalizePath vsPath
          then [FieldError ErrInvalid (fieldPath @ [Index 0, Child ''path''])]
          else validateRoute chk r (fieldPath @ [Index 0]) upstreamNames True namespace
      | _ \<Rightarrow> [FieldError ErrInvalid fieldPath])"

fun duplicatePaths :: "segment list \<Rightarrow> nat \<Rightarrow> string list \<Rightarrow> Route list \<Rightarrow> fieldError list" where
  "duplicatePaths fieldPath i allPaths [] = []"
| "duplicatePaths fieldPath i allPaths (r # rs) =
     (let normPath = NormalizePath (route_Path r)
      in if normPath \<in> set allPaths
         then FieldError ErrDuplicate (fieldPath @ [Index i, Child ''path'']) #
           duplicatePaths fieldPath (Suc i) allPaths rs
         else duplicatePaths fieldPath (Suc i) (normPath # allPaths) rs)"

text \<open>The coverage check: every path of the VirtualServer has a subroute and the other way round.\<close>

definition coverErrors :: "Route list \<Rightarrow> segment list \<Rightarrow> string list \<Rightarrow> fieldError list" where
  "coverErrors routes fieldPath vsPaths =
     (let subrouteSet = map (\<lambda>r. NormalizePath (route_Path r)) routes;
          vsPathSet = map NormalizePath vsPaths
      in concat (map (\<lambda>p. if NormalizePath p \<notin> set subrouteSet then [FieldError ErrInvalid fieldPath] else []) vsPaths) @
         concat (map (\<lambda>(i, r). if NormalizePath (route_Path r) \<notin> set vsPathSet
           then [FieldError ErrInvalid (fieldPath @ [Index i, Child ''path''])] else []) (enumerate 0 routes)))"

definition validateSubroutesRegex ::
  "routeChecks \<Rightarrow> Route list \<Rightarrow> segment list \<Rightarrow> string list \<Rightarrow> string list \<Rightarrow> string \<Rightarrow> fieldError list" where
  "validateSubroutesRegex chk routes fieldPath upstreamNames vsPaths namespace =
     (if duplicatePaths fieldPath 0 [] routes \<noteq> [] then duplicatePaths fieldPath 0 [] routes
      else if coverErrors routes fieldPath vsPaths \<noteq> [] then coverErrors routes fieldPath vsPaths
      else concat (map (\<lambda>(i, r). validateRoute chk r (fieldPath @ [Index i]) upstreamNames True namespace)
             (enumerate 0 routes)))"

fun validateSubroutesPrefix ::
  "routeChecks \<Rightarrow> segment list \<Rightarrow> string list \<Rightarrow> string \<Rightarrow> string \<Rightarrow> nat \<Rightarrow> string list \<Rightarrow> Route list \<Rightarrow> fieldError list"
  where
  "validateSubroutesPrefix chk fieldPath names vsPath ns i allPaths [] = []"
| "validateSubroutesPrefix chk fieldPath names vsPath ns i allPaths (r # rs) =
     (let idxPath = fieldPath @ [Index i];
          normPath = NormalizePath (route_Path r); normVSPath = NormalizePath vsPath;
          routeErrs = validateRoute chk r idxPath names True ns @
            (if normVSPath \<noteq> [] \<and> \<not> hasPrefix normPath normVSPath
             then [FieldError ErrInvalid (idxPath @ [Child ''path''])] else [])
      in if routeErrs \<noteq> [] then routeErrs @ validateSubroutesPrefix chk fieldPath names vsPath ns (Suc i) allPaths rs
         else if normPath \<in> set allPaths then
           FieldError ErrDuplicate (idxPath @ [Child ''path'']) #
             validateSubroutesPrefix chk fieldPath names vsPath ns (Suc i) allPaths rs
         else validateSubroutesPrefix chk fieldPath names vsPath ns (Suc i) (normPath # allPaths) rs)"

definition validateVirtualServerRouteSubroutes ::
  "routeChecks \<Rightarrow> Route list \<Rightarrow> segment list \<Rightarrow> string list \<Rightarrow> string list \<Rightarrow> string \<Rightarrow> fieldError list" where
  "validateVirtualServerRouteSubroutes chk routes fieldPath upstreamNames vsPaths namespace =
     (case vsPaths of
        [] \<Rightarrow> validateSubroutesStandalone chk routes fieldPath upstreamNames namespace
      | firstPath # rest \<Rightarrow>
          if rest \<noteq> [] \<and> list_ex (\<lambda>p. \<not> hasPrefix p ''~'') vsPaths then [FieldError ErrInvalid fieldPath]
          else if isRegexOrExactMatch firstPath then
            (if hasPrefix firstPath ''='' then validateSubroutesExact chk routes fieldPath firstPath upstreamNames namespace
             else validateSubroutesRegex chk routes fieldPath upstreamNames vsPaths namespace)
          else validateSubroutesPrefix chk fieldPath upstreamNames firstPath namespace 0 [] routes)"

definition validateVirtualServerRouteHost ::
  "routeChecks \<Rightarrow> string \<Rightarrow> string \<Rightarrow> segment list \<Rightarrow> fieldError list" where
  "validateVirtualServerRouteHost chk host virtualServerHost fieldPath =
     rk_host chk host fieldPath @
     (if virtualServerHost \<noteq> [] \<and> host \<noteq> virtualServerHost then [FieldError ErrInvalid fieldPath] else [])"

definition validateVirtualServerRouteSpec ::
  "routeChecks \<Rightarrow> VirtualServerRouteSpec \<Rightarrow> segment list \<Rightarrow> string \<Rightarrow> string list \<Rightarrow> string \<Rightarrow> fieldError list" where
  "validateVirtualServerRouteSpec chk spec fieldPath virtualServerHost vsPaths namespace =
     (let (upstreamErrs, upstreamNames) = rk_upstreams chk (vsrs_Upstreams spec) (fieldPath @ [Child ''upstreams''])
      in validateVirtualServerRouteHost chk (vsrs_Host spec) virtualServerHost (fieldPath @ [Child ''host'']) @
         upstreamErrs @
         validateVirtualServerRouteSubroutes chk (vsrs_Subroutes spec) (fieldPath @ [Child ''subroutes''])
           upstreamNames vsPaths namespace)"

definition ValidateVirtualServerRoute :: "routeChecks \<Rightarrow> VirtualServerRoute \<Rightarrow> fieldError list" where
  "ValidateVirtualServerRoute chk vsr =
     validateVirtualServerRouteSpec chk (vsr_Spec vsr) [Child ''spec''] [] [] (Namespace (vsr_ObjectMeta vsr))"

definition ValidateVirtualServerRouteForVirtualServer ::
  "routeChecks \<Rightarrow> VirtualServerRoute \<Rightarrow> string \<Rightarrow> string list \<Rightarrow> fieldError list" where
  "ValidateVirtualServerRouteForVirtualServer chk vsr virtualServerHost vsPaths =
     validateVirtualServerRouteSpec chk (vsr_Spec vsr) [Child ''spec''] virtualServerHost vsPaths
       (Namespace (vsr_ObjectMeta vsr))"

section \<open>What the checks accept\<close>

lemma concat_map_Nil [simp]: "concat (map f xs) = [] \<longleftrightarrow> (\<forall>x \<in> set xs. f x = [])"
  by (induction xs) auto

lemma enumerate_ball: "(\<forall>(i, x) \<in> set (enumerate n xs). P x) \<longleftrightarrow> (\<forall>x \<in> set xs. P x)"
  by (induction xs arbitrary: n) auto

text \<open>Every route of a list is accepted by \<^const>\<open>validateRoute\<close> at its index.\<close>

definition eachRoute :: "routeChecks \<Rightarrow> segment list \<Rightarrow> string list \<Rightarrow> bool \<Rightarrow> string \<Rightarrow> Route list \<Rightarrow> bool" where
  "eachRoute chk fieldPath names forbidden ns routes =
     list_all (\<lambda>(i, r). validateRoute chk r (fieldPath @ [Index i]) names forbidden ns = []) (enumerate 0 routes)"

abbreviation normPaths :: "Route list \<Rightarrow> string list" where
  "normPaths routes \<equiv> map (\<lambda>r. NormalizePath (route_Path r)) routes"

lemma validateRouteList_Nil:
  "validateRouteList chk fieldPath names forbidden ns i seen routes = [] \<longleftrightarrow>
   (\<forall>(j, r) \<in> set (enumerate i routes). validateRoute chk r (fieldPath @ [Index j]) names forbidden ns = []) \<and>
   distinct (normPaths routes) \<and> set (normPaths routes) \<inter> set seen = {}"
  by (induction routes arbitrary: i seen) (auto simp: Let_def)

lemma duplicatePaths_Nil:
  "duplicatePaths fieldPath i seen routes = [] \<longleftrightarrow>
   distinct (normPaths routes) \<and> set (normPaths routes) \<inter> set seen = {}"
  by (induction routes arbitrary: i seen) (auto simp: Let_def)

lemma validateSubroutesPrefix_Nil:
  "validateSubroutesPrefix chk fieldPath names vsPath ns i seen routes = [] \<longleftrightarrow>
   (\<forall>(j, r) \<in> set (enumerate i routes). validateRoute chk r (fieldPath @ [Index j]) names True ns = []) \<and>
   (\<forall>r \<in> set routes. hasPrefix (NormalizePath (route_Path r)) (NormalizePath vsPath)) \<and>
   distinct (normPaths routes) \<and> set (normPaths routes) \<inter> set seen = {}"
proof (induction routes arbitrary: i seen)
  case (Cons r rs)
  let ?n = "NormalizePath (route_Path r)"
  have nil: "NormalizePath vsPath = [] \<Longrightarrow> hasPrefix ?n (NormalizePath vsPath)"
    by (simp add: hasPrefix_def)
  show ?case
  proof (cases "validateRoute chk r (fieldPath @ [Index i]) names True ns = [] \<and>
      hasPrefix ?n (NormalizePath vsPath) \<and> ?n \<notin> set seen")
    case True
    then have "validateSubroutesPrefix chk fieldPath names vsPath ns i seen (r # rs) =
        validateSubroutesPrefix chk fieldPath names vsPath ns (Suc i) (?n # seen) rs"
      by (simp add: Let_def)
    with True Cons.IH [of "Suc i" "?n # seen"] show ?thesis
      by auto
  next
    case False
    then have "validateSubroutesPrefix chk fieldPath names vsPath ns i seen (r # rs) \<noteq> []"
      using nil by (auto simp: Let_def)
    with False show ?thesis
      by auto
  qed
qed simp

text \<open>
  The paths that the subroutes of a VirtualServerRoute may have when the routes of a
  VirtualServer with the paths \<^verbatim>\<open>vsPaths\<close> refer to it; no paths at all stand for a
  VirtualServerRoute that is looked at alone.
\<close>

definition sameCategory :: "string list \<Rightarrow> bool" where
  "sameCategory paths =
     list_all (\<lambda>p. list_all (\<lambda>q. subrouteModifierCategory p = subrouteModifierCategory q) paths) paths"

definition pathsFit :: "string list \<Rightarrow> string list \<Rightarrow> bool" where
  "pathsFit vsPaths subPaths =
     (distinct (map NormalizePath subPaths) \<and>
      (case vsPaths of
         [] \<Rightarrow> sameCategory subPaths
       | p # rest \<Rightarrow>
           if rest = [] \<and> hasPrefix p ''='' then map NormalizePath subPaths = [NormalizePath p]
           else if rest = [] \<and> \<not> hasPrefix p ''~'' then
             list_all (\<lambda>q. hasPrefix (NormalizePath q) (NormalizePath p)) subPaths
           else list_all (\<lambda>q. hasPrefix q ''~'') vsPaths \<and>
             set (map NormalizePath subPaths) = set (map NormalizePath vsPaths)))"

lemma sameCategory_Cons:
  "sameCategory (p # paths) \<longleftrightarrow> (\<forall>q \<in> set paths. subrouteModifierCategory q = subrouteModifierCategory p)"
proof -
  have "(\<forall>q \<in> insert x A. \<forall>r \<in> insert x A. f q = f r) \<longleftrightarrow> (\<forall>q \<in> A. f q = f x)" for A x and f :: "string \<Rightarrow> string"
    by (metis insert_iff)
  then show ?thesis
    unfolding sameCategory_def list_all_iff list.set .
qed

lemma mixedModifiers_Nil: "mixedModifiers routes fieldPath = [] \<longleftrightarrow> sameCategory (map route_Path routes)"
proof (cases routes)
  case (Cons r0 rest)
  have "mixedModifiers routes fieldPath = [] \<longleftrightarrow> (\<forall>(i, r) \<in> set (enumerate 0 rest).
      subrouteModifierCategory (route_Path r) = subrouteModifierCategory (route_Path r0))"
    using Cons by (auto simp: mixedModifiers_def split: if_splits)
  also have "\<dots> \<longleftrightarrow> (\<forall>r \<in> set rest. subrouteModifierCategory (route_Path r) = subrouteModifierCategory (route_Path r0))"
    by (rule enumerate_ball)
  finally show ?thesis
    using Cons by (simp add: sameCategory_Cons)
qed (simp add: mixedModifiers_def sameCategory_def)

lemma validateSubroutesStandalone_Nil:
  "validateSubroutesStandalone chk routes fieldPath names ns = [] \<longleftrightarrow>
   eachRoute chk fieldPath names True ns routes \<and> pathsFit [] (map route_Path routes)"
proof -
  have "validateSubroutesStandalone chk routes fieldPath names ns = [] \<longleftrightarrow>
      mixedModifiers routes fieldPath = [] \<and> validateRouteList chk fieldPath names True ns 0 [] routes = []"
    by (simp add: validateSubroutesStandalone_def)
  also have "\<dots> \<longleftrightarrow> eachRoute chk fieldPath names True ns routes \<and> pathsFit [] (map route_Path routes)"
    unfolding mixedModifiers_Nil validateRouteList_Nil eachRoute_def pathsFit_def
    by (auto simp: list_all_iff comp_def)
  finally show ?thesis .
qed

lemma validateSubroutesExact_Nil:
  "validateSubroutesExact chk routes fieldPath vsPath names ns = [] \<longleftrightarrow>
   eachRoute chk fieldPath names True ns routes \<and> normPaths routes = [NormalizePath vsPath]"
  by (auto simp: validateSubroutesExact_def eachRoute_def split: list.splits)

lemma coverErrors_Nil:
  "coverErrors routes fieldPath vsPaths = [] \<longleftrightarrow> set (normPaths routes) = set (map NormalizePath vsPaths)"
proof -
  have "coverErrors routes fieldPath vsPaths = [] \<longleftrightarrow>
      (\<forall>p \<in> set vsPaths. NormalizePath p \<in> set (normPaths routes)) \<and>
      (\<forall>(i, r) \<in> set (enumerate 0 routes). NormalizePath (route_Path r) \<in> set (map NormalizePath vsPaths))"
    unfolding coverErrors_def Let_def append_is_Nil_conv concat_map_Nil by (auto split: if_splits)
  also have "\<dots> \<longleftrightarrow> set (map NormalizePath vsPaths) \<subseteq> set (normPaths routes) \<and>
      set (normPaths routes) \<subseteq> set (map NormalizePath vsPaths)"
    unfolding enumerate_ball by auto
  finally show ?thesis
    by (simp only: set_eq_subset conj_commute)
qed

lemma validateSubroutesRegex_Nil:
  "validateSubroutesRegex chk routes fieldPath names vsPaths ns = [] \<longleftrightarrow>
   eachRoute chk fieldPath names True ns routes \<and> distinct (normPaths routes) \<and>
   set (normPaths routes) = set (map NormalizePath vsPaths)"
proof -
  have "validateSubroutesRegex chk routes fieldPath names vsPaths ns = [] \<longleftrightarrow>
      duplicatePaths fieldPath 0 [] routes = [] \<and> coverErrors routes fieldPath vsPaths = [] \<and>
      eachRoute chk fieldPath names True ns routes"
    unfolding validateSubroutesRegex_def eachRoute_def list_all_iff by auto
  then show ?thesis
    unfolding coverErrors_Nil duplicatePaths_Nil by auto
qed

lemma validateVirtualServerRouteSubroutes_Nil:
  "validateVirtualServerRouteSubroutes chk routes fieldPath names vsPaths ns = [] \<longleftrightarrow>
   eachRoute chk fieldPath names True ns routes \<and> pathsFit vsPaths (map route_Path routes)"
proof (cases vsPaths)
  case Nil
  then show ?thesis
    by (simp add: validateVirtualServerRouteSubroutes_def validateSubroutesStandalone_Nil)
next
  case (Cons p rest)
  have disjoint: "\<not> (hasPrefix p ''='' \<and> hasPrefix p ''~'')"
    by (auto simp: hasPrefix_iff)
  have single: "normPaths routes = [n] \<Longrightarrow> distinct (normPaths routes)" for n
    by simp
  consider "rest = []" "hasPrefix p ''=''" | "rest = []" "\<not> isRegexOrExactMatch p"
    | "rest = []" "hasPrefix p ''~''" | "rest \<noteq> []"
    by (auto simp: isRegexOrExactMatch_def)
  then show ?thesis
  proof cases
    case 1
    then show ?thesis
      using Cons single
      by (auto simp: validateVirtualServerRouteSubroutes_def isRegexOrExactMatch_def validateSubroutesExact_Nil
          pathsFit_def comp_def)
  next
    case 2
    then show ?thesis
      using Cons
      by (auto simp: validateVirtualServerRouteSubroutes_def isRegexOrExactMatch_def validateSubroutesPrefix_Nil
          pathsFit_def comp_def eachRoute_def list_all_iff)
  next
    case 3
    then show ?thesis
      using Cons disjoint
      by (auto simp: validateVirtualServerRouteSubroutes_def isRegexOrExactMatch_def validateSubroutesRegex_Nil
          pathsFit_def comp_def)
  next
    case 4
    then show ?thesis
      using Cons disjoint
      by (auto simp: validateVirtualServerRouteSubroutes_def isRegexOrExactMatch_def validateSubroutesRegex_Nil
          pathsFit_def comp_def list_ex_iff list_all_iff)
  qed
qed

text \<open>
  C9. A VirtualServerRoute is accepted for a VirtualServer exactly when its host passes the host
  check and is the host of the VirtualServer, its upstreams and each of its subroutes are accepted
  by themselves, and the paths of its subroutes fit the paths of the routes that refer to it: they
  are pairwise different after normalization, and for an exact path there is the one subroute
  with that path, for regular expressions the subroutes and the paths of the VirtualServer are the
  same set, and for a prefix every subroute path extends it.
\<close>

theorem vsr_accepted:
  "ValidateVirtualServerRouteForVirtualServer chk vsr host vsPaths = [] \<longleftrightarrow>
   rk_host chk (vsr_Host vsr) [Child ''spec'', Child ''host''] = [] \<and> (host = [] \<or> vsr_Host vsr = host) \<and>
   fst (rk_upstreams chk (vsrs_Upstreams (vsr_Spec vsr)) [Child ''spec'', Child ''upstreams'']) = [] \<and>
   eachRoute chk [Child ''spec'', Child ''subroutes'']
     (snd (rk_upstreams chk (vsrs_Upstreams (vsr_Spec vsr)) [Child ''spec'', Child ''upstreams'']))
     True (Namespace (vsr_ObjectMeta vsr)) (vsr_Subroutes vsr) \<and>
   pathsFit vsPaths (map route_Path (vsr_Subroutes vsr))"
  by (auto simp: ValidateVirtualServerRouteForVirtualServer_def validateVirtualServerRouteSpec_def
      validateVirtualServerRouteHost_def validateVirtualServerRouteSubroutes_Nil case_prod_beta)

lemma accepted_paths_distinct:
  "ValidateVirtualServerRouteForVirtualServer chk vsr host vsPaths = [] \<Longrightarrow> distinct (normPaths (vsr_Subroutes vsr))"
  by (simp add: ValidateVirtualServerRouteForVirtualServer_def validateVirtualServerRouteSpec_def
      validateVirtualServerRouteSubroutes_Nil case_prod_beta pathsFit_def comp_def)

section \<open>References to one VirtualServerRoute\<close>

definition infosOf :: "(string, (string \<times> nat) list) gomap \<Rightarrow> string \<Rightarrow> (string \<times> nat) list" where
  "infosOf m ref = (case gget m ref of None \<Rightarrow> [] | Some l \<Rightarrow> l)"

definition refersTo :: "string \<Rightarrow> string \<Rightarrow> Route \<Rightarrow> bool" where
  "refersTo ns ref r = (route_Route r \<noteq> [] \<and> qualifyRef ns (route_Route r) = ref)"

lemma infosOf_Nil [simp]: "infosOf [] ref = []"
  by (simp add: infosOf_def)

lemma infosOf_addCategory:
  "infosOf (addCategory ns (i, r) m) ref =
   infosOf m ref @ (if refersTo ns ref r then [(subrouteModifierCategory (route_Path r), i)] else [])"
  by (auto simp: infosOf_def addCategory_def refersTo_def Let_def)

lemma infosOf_fold:
  "infosOf (fold (addCategory ns) irs m) ref =
   infosOf m ref @ map (\<lambda>(i, r). (subrouteModifierCategory (route_Path r), i)) (filter (\<lambda>(i, r). refersTo ns ref r) irs)"
proof (induction irs arbitrary: m)
  case (Cons ir irs)
  then show ?case by (cases ir) (simp add: infosOf_addCategory)
qed simp

lemma gwf_fold_addCategory: "gwf m \<Longrightarrow> gwf (fold (addCategory ns) irs m)"
  by (induction irs arbitrary: m) (auto simp: addCategory_def Let_def split: prod.splits)

lemma infosOf_mem: "infosOf m ref \<noteq> [] \<Longrightarrow> (ref, infosOf m ref) \<in> set m"
  by (auto simp: infosOf_def split: option.splits dest: gget_memD)

lemma categoryErrors_Nil:
  assumes "categoryErrors fieldPath infos = []" and "(c, i) \<in> set infos" and "(d, j) \<in> set infos"
  shows "c = d"
proof (cases infos)
  case (Cons x rest)
  obtain first k where x: "x = (first, k)" by (cases x)
  have "e = first" if "(e, l) \<in> set infos" for e l
    using assms(1) that Cons x by (auto simp: categoryErrors_def split: if_splits)
  with assms(2,3) show ?thesis by blast
qed (use assms in simp)

lemma validateVirtualServerRoutes_categories:
  assumes "validateVirtualServerRoutes chk routes fieldPath names ns = []"
    and "r \<in> set routes" and "r' \<in> set routes" and "refersTo ns ref r" and "refersTo ns ref r'"
  shows "subrouteModifierCategory (route_Path r) = subrouteModifierCategory (route_Path r')"
proof -
  let ?infos = "infosOf (vsrCategoriesOf ns routes) ref"
  have infos: "?infos = map (\<lambda>(i, r). (subrouteModifierCategory (route_Path r), i))
      (filter (\<lambda>(i, r). refersTo ns ref r) (enumerate 0 routes))"
    by (simp add: vsrCategoriesOf_def infosOf_fold)
  have mem: "\<exists>i. (subrouteModifierCategory (route_Path r), i) \<in> set ?infos"
    if r: "r \<in> set routes" "refersTo ns ref r" for r
  proof -
    obtain i where "i < length routes" "routes ! i = r"
      using r(1) by (auto simp: in_set_conv_nth)
    then have "(i, r) \<in> set (enumerate 0 routes)"
      by (auto simp: in_set_enumerate_eq)
    with r(2) show ?thesis
      unfolding infos by force
  qed
  obtain i j where ij: "(subrouteModifierCategory (route_Path r), i) \<in> set ?infos"
    "(subrouteModifierCategory (route_Path r'), j) \<in> set ?infos"
    using mem [of r] mem [of r'] assms by blast
  then have "(ref, ?infos) \<in> set (vsrCategoriesOf ns routes)"
    by (intro infosOf_mem) auto
  then have "categoryErrors fieldPath ?infos = []"
    using assms(1) by (auto simp: validateVirtualServerRoutes_def)
  with ij show ?thesis
    using categoryErrors_Nil by blast
qed

lemma validateRoute_fieldCount:
  assumes "validateRoute chk r fieldPath names forbidden ns = []"
  shows "fieldCount r forbidden = 1"
proof -
  have "(if fieldCount r forbidden \<noteq> 1 then [FieldError ErrInvalid fieldPath] else []) = []"
    using assms unfolding validateRoute_def append_is_Nil_conv by blast
  then show ?thesis
    by (metis list.distinct(1))
qed

text \<open>
  C10. The routes of an accepted VirtualServer: their normalized paths are pairwise different, every
  route says in exactly one way where its requests go (an action, splits, a VirtualServerRoute or
  a selector), and routes that name the same VirtualServerRoute use the same kind of path.
\<close>

theorem vs_routes_accepted:
  assumes "validateVirtualServerRoutes chk routes fieldPath names ns = []"
  shows "distinct (normPaths routes) \<and> (\<forall>r \<in> set routes. fieldCount r False = 1) \<and>
    (\<forall>r \<in> set routes. \<forall>r' \<in> set routes. \<forall>ref. refersTo ns ref r \<and> refersTo ns ref r' \<longrightarrow>
       subrouteModifierCategory (route_Path r) = subrouteModifierCategory (route_Path r'))"
proof -
  have list: "validateRouteList chk fieldPath names False ns 0 [] routes = []"
    using assms by (simp add: validateVirtualServerRoutes_def)
  have "\<forall>(i, r) \<in> set (enumerate 0 routes). fieldCount r False = 1"
    using list validateRoute_fieldCount unfolding validateRouteList_Nil by blast
  then have "\<forall>r \<in> set routes. fieldCount r False = 1"
    unfolding enumerate_ball .
  moreover have "distinct (normPaths routes)"
    using list unfolding validateRouteList_Nil by simp
  ultimately show ?thesis
    using validateVirtualServerRoutes_categories [OF assms] by blast
qed

text \<open>Checks of single fields that accept everything, for the examples.\<close>

definition noChecks :: routeChecks where
  "noChecks = \<lparr>rk_path = \<lambda>_ _. [], rk_policies = \<lambda>_ _ _. [], rk_action = \<lambda>_ _ _ _. [], rk_splits = \<lambda>_ _ _ _. [],
     rk_match = \<lambda>_ _ _ _. [], rk_labels = \<lambda>_ _. [], rk_errorPage = \<lambda>_ _. [], rk_routeField = \<lambda>_ _. [],
     rk_addHeaderInherit = \<lambda>_ _. [], rk_dos = \<lambda>_ _. [], rk_host = \<lambda>_ _. [],
     rk_upstreams = \<lambda>us _. ([], map up_Name us)\<rparr>"

theorem vs_routes_accepted_witness:
  "distinct [NormalizePath ''/tea'', NormalizePath ''/milk''] \<and>
   subrouteModifierCategory ''/tea'' = subrouteModifierCategory ''/milk''"
proof -
  let ?tea = "emptyRoute\<lparr>route_Path := ''/tea'', route_Route := ''a/drinks''\<rparr>"
  let ?milk = "emptyRoute\<lparr>route_Path := ''/milk'', route_Route := ''drinks''\<rparr>"
  let ?routes = "[?tea, ?milk]"
  have acc: "validateVirtualServerRoutes noChecks ?routes [Child ''routes''] [] ''a'' = []"
    by (simp add: validateVirtualServerRoutes_def validateRoute_def noChecks_def emptyRoute_def fieldCount_def
        NormalizePath_def pathModifiers_def hasPrefix_def vsrCategoriesOf_def addCategory_def Let_def
        gput_def gget_def qualifyRef_def HasNamespace_def categoryErrors_def subrouteModifierCategory_def)
  have "refersTo ''a'' ''a/drinks'' ?tea" "refersTo ''a'' ''a/drinks'' ?milk"
    by (simp_all add: refersTo_def qualifyRef_def HasNamespace_def)
  then have "subrouteModifierCategory (route_Path ?tea) = subrouteModifierCategory (route_Path ?milk)"
    and "distinct (normPaths ?routes)"
    using vs_routes_accepted [OF acc] by (meson list.set_intros)+
  then show ?thesis
    by simp
qed

end
