(* ===== verification/VS_Routes.thy ===== *)
theory VS_Routes
  imports Route_Validation
begin

text \<open>
  The VirtualServerRoutes of a VirtualServer: \<^verbatim>\<open>buildVirtualServerRoutes\<close> of
  \<^verbatim>\<open>internal/k8s/configuration.go\<close> and the functions it calls. The store of VirtualServerRoutes is
  the Go map of the controller; \<^verbatim>\<open>validateVSRSelectors\<close> ranges over it without sorting, so the
  result is a function of the list.

  Parameters: the checks of single fields (\<^verbatim>\<open>routeChecks\<close>), the text of a list of errors, and the
  label selectors of the Kubernetes libraries (\<^verbatim>\<open>LabelSelectorAsSelector\<close>), whose result is an error
  text or the printed selector with its \<^verbatim>\<open>Matches\<close> method.
\<close>

record vsrEnv =
  env_checks :: routeChecks
  env_errorText :: "fieldError list \<Rightarrow> string"
  env_selector :: "(string, string) gomap \<Rightarrow> string + (string \<times> ((string, string) gomap \<Rightarrow> bool))"
  env_selectorText :: "(string, string) gomap \<Rightarrow> string"

type_synonym vsrStore = "(string, VirtualServerRoute) gomap"

abbreviation vsrKey :: "VirtualServerRoute \<Rightarrow> string" where
  "vsrKey vsr \<equiv> getResourceKey (vsr_ObjectMeta vsr)"

text \<open>The error of \<^verbatim>\<open>ValidateVirtualServerRouteForVirtualServer\<close>: nil for no errors.\<close>

definition vsrError :: "vsrEnv \<Rightarrow> VirtualServerRoute \<Rightarrow> string \<Rightarrow> string list \<Rightarrow> string option" where
  "vsrError env vsr vsHost paths =
     (let errs = ValidateVirtualServerRouteForVirtualServer (env_checks env) vsr vsHost paths
      in if errs = [] then None else Some (env_errorText env errs))"

definition missingWarning :: "string \<Rightarrow> string" where
  "missingWarning key = ''VirtualServerRoute '' @ key @ '' doesn't exist or invalid''"

definition invalidWarning :: "string \<Rightarrow> string \<Rightarrow> string" where
  "invalidWarning key err = ''VirtualServerRoute '' @ key @ '' is invalid: '' @ err"

definition duplicateWarning :: "string \<Rightarrow> string \<Rightarrow> string \<Rightarrow> string" where
  "duplicateWarning vsNamespace vsName nsName =
     ''VS '' @ vsNamespace @ ''/'' @ vsName @ '' has duplicate VirtualServerRoutes '' @ nsName"

section \<open>Named routes and selectors\<close>

definition validateVSRs ::
  "vsrEnv \<Rightarrow> vsrStore \<Rightarrow> Route \<Rightarrow> string \<Rightarrow> string \<Rightarrow> VirtualServerRoute list \<times> string list" where
  "validateVSRs env store r vsHost vsNamespace =
     (let key = qualifyRef vsNamespace (route_Route r)
      in case gget store key of
           None \<Rightarrow> ([], [missingWarning key])
         | Some vsr \<Rightarrow>
             (case vsrError env vsr vsHost [route_Path r] of
                Some err \<Rightarrow> ([], [invalidWarning key err])
              | None \<Rightarrow> ([vsr], [])))"

text \<open>One iteration of the loop over the store.\<close>

definition selectVSR ::
  "vsrEnv \<Rightarrow> ((string, string) gomap \<Rightarrow> bool) \<Rightarrow> Route \<Rightarrow> string \<Rightarrow> string \<times> VirtualServerRoute
    \<Rightarrow> VirtualServerRoute list \<times> string list \<times> string list
    \<Rightarrow> VirtualServerRoute list \<times> string list \<times> string list" where
  "selectVSR env matches r vsHost entry st =
     (case entry of (key, vsr) \<Rightarrow> case st of (vsrs, keys, warnings) \<Rightarrow>
        if matches (Labels (vsr_ObjectMeta vsr)) then
          (case vsrError env vsr vsHost [route_Path r] of
             Some err \<Rightarrow> (vsrs, keys, warnings @ [invalidWarning key err])
           | None \<Rightarrow> (vsrs @ [vsr], keys @ [key], warnings))
        else (vsrs, keys, warnings))"

definition validateVSRSelectors ::
  "vsrEnv \<Rightarrow> vsrStore \<Rightarrow> (string, string) gomap \<Rightarrow> Route \<Rightarrow> string
    \<Rightarrow> VirtualServerRoute list \<times> (string, string list) gomap \<times> string list" where
  "validateVSRSelectors env store matchLabels r vsHost =
     (case env_selector env matchLabels of
        Inl err \<Rightarrow> ([], [], [''VirtualServerRoute LabelSelector '' @ env_selectorText env matchLabels @ '' is invalid: '' @ err])
      | Inr (selectorStr, matches) \<Rightarrow>
          (let (vsrs, keys, warnings) = fold (selectVSR env matches r vsHost) store ([], [], [])
           in (vsrs, [(selectorStr, sort keys)], warnings)))"

section \<open>Collecting\<close>

record regexVSREntry =
  rve_vsr :: VirtualServerRoute
  rve_paths :: "string list"
  rve_firstSeenIdx :: nat

text \<open>
  \<^verbatim>\<open>vsrCollection\<close>, and with it the two local maps of \<^verbatim>\<open>classifyAndCollectVSRs\<close>, which record the
  normalized paths seen per VirtualServerRoute and the names of the collected ones.
\<close>

record vsrCollection =
  col_vsrs :: "VirtualServerRoute list"
  col_regexEntries :: "(string, regexVSREntry) gomap"
  col_vsrSelectors :: "(string, string list) gomap"
  col_warnings :: "string list"

record collectState = vsrCollection +
  cs_regexSeenPaths :: "(string, string list) gomap"
  cs_seenVSRs :: "string list"

definition collectRegexNamedRoute ::
  "vsrStore \<Rightarrow> VirtualServer \<Rightarrow> string \<Rightarrow> string \<Rightarrow> nat \<Rightarrow> collectState \<Rightarrow> collectState" where
  "collectRegexNamedRoute store vs routeName path routeIdx col =
     (let normPath = NormalizePath path;
          key = qualifyRef (Namespace (vs_ObjectMeta vs)) routeName
      in case gget store key of
           None \<Rightarrow> col\<lparr>col_warnings := col_warnings col @ [missingWarning key]\<rparr>
         | Some vsr \<Rightarrow>
             (case gget (col_regexEntries col) key of
                Some entry \<Rightarrow>
                  (let seen = (case gget (cs_regexSeenPaths col) key of None \<Rightarrow> [] | Some l \<Rightarrow> l)
                   in if normPath \<in> set seen then col
                      else col\<lparr>cs_regexSeenPaths := gput (cs_regexSeenPaths col) key (seen @ [normPath]),
                               col_regexEntries := gput (col_regexEntries col) key
                                 (entry\<lparr>rve_paths := rve_paths entry @ [path]\<rparr>)\<rparr>)
              | None \<Rightarrow>
                  col\<lparr>col_regexEntries := gput (col_regexEntries col) key
                        \<lparr>rve_vsr = vsr, rve_paths = [path], rve_firstSeenIdx = routeIdx\<rparr>,
                      cs_regexSeenPaths := gput (cs_regexSeenPaths col) key [normPath]\<rparr>))"

text \<open>The loop both eager collectors end with: add what has not been seen.\<close>

definition addUnseen :: "VirtualServer \<Rightarrow> VirtualServerRoute \<Rightarrow> collectState \<Rightarrow> collectState" where
  "addUnseen vs vsr col =
     (let nsName = vsrKey vsr
      in if nsName \<in> set (cs_seenVSRs col)
         then col\<lparr>col_warnings := col_warnings col @
                [duplicateWarning (Namespace (vs_ObjectMeta vs)) (Name (vs_ObjectMeta vs)) nsName]\<rparr>
         else col\<lparr>cs_seenVSRs := nsName # cs_seenVSRs col, col_vsrs := col_vsrs col @ [vsr]\<rparr>)"

definition collectNonRegexNamedRoute ::
  "vsrEnv \<Rightarrow> vsrStore \<Rightarrow> VirtualServer \<Rightarrow> Route \<Rightarrow> collectState \<Rightarrow> collectState" where
  "collectNonRegexNamedRoute env store vs r col =
     (let (validVsrs, vsrWarnings) = validateVSRs env store r (vs_Host vs) (Namespace (vs_ObjectMeta vs))
      in fold (addUnseen vs) validVsrs (col\<lparr>col_warnings := col_warnings col @ vsrWarnings\<rparr>))"

definition collectSelectorRoute ::
  "vsrEnv \<Rightarrow> vsrStore \<Rightarrow> VirtualServer \<Rightarrow> (string, string) gomap \<Rightarrow> Route \<Rightarrow> collectState \<Rightarrow> collectState" where
  "collectSelectorRoute env store vs matchLabels r col =
     (let (validVsrs, selectors, vsrWarnings) = validateVSRSelectors env store matchLabels r (vs_Host vs)
      in fold (addUnseen vs) validVsrs
           (col\<lparr>col_warnings := col_warnings col @ vsrWarnings,
                col_vsrSelectors := fold (\<lambda>(k, v) m. gput m k v) selectors (col_vsrSelectors col)\<rparr>))"

definition collectRoute :: "vsrEnv \<Rightarrow> vsrStore \<Rightarrow> VirtualServer \<Rightarrow> nat \<times> Route \<Rightarrow> collectState \<Rightarrow> collectState" where
  "collectRoute env store vs ir col =
     (case ir of (i, r) \<Rightarrow>
        if route_Route r \<noteq> [] \<and> hasPrefix (route_Path r) ''~'' then
          collectRegexNamedRoute store vs (route_Route r) (route_Path r) i col
        else if route_Route r \<noteq> [] then collectNonRegexNamedRoute env store vs r col
        else (case route_RouteSelector r of
                Some matchLabels \<Rightarrow> collectSelectorRoute env store vs matchLabels r col
              | None \<Rightarrow> col))"

definition emptyCollection :: collectState where
  "emptyCollection = \<lparr>col_vsrs = [], col_regexEntries = [], col_vsrSelectors = [], col_warnings = [],
     cs_regexSeenPaths = [], cs_seenVSRs = []\<rparr>"

definition classifyAndCollectVSRs :: "vsrEnv \<Rightarrow> vsrStore \<Rightarrow> VirtualServer \<Rightarrow> collectState" where
  "classifyAndCollectVSRs env store vs =
     fold (collectRoute env store vs) (enumerate 0 (vss_Routes (vs_Spec vs))) emptyCollection"

section \<open>Regular expressions, duplicates and conflicts\<close>

text \<open>The first-seen indices are pairwise different, so any sorting algorithm gives this order.\<close>

definition validateAndBuildRegexVSRs ::
  "vsrEnv \<Rightarrow> (string, regexVSREntry) gomap \<Rightarrow> string \<Rightarrow> VirtualServerRoute list \<times> string list" where
  "validateAndBuildRegexVSRs env entries vsHost =
     fold (\<lambda>(key, entry) (vsrs, warnings).
        case vsrError env (rve_vsr entry) vsHost (rve_paths entry) of
          Some err \<Rightarrow> (vsrs, warnings @ [invalidWarning key err])
        | None \<Rightarrow> (vsrs @ [rve_vsr entry], warnings))
      (sort_key (\<lambda>(key, entry). rve_firstSeenIdx entry) entries) ([], [])"

fun deduplicateLoop :: "string \<Rightarrow> string \<Rightarrow> string list \<Rightarrow> VirtualServerRoute list
    \<Rightarrow> VirtualServerRoute list \<times> string list" where
  "deduplicateLoop vsNamespace vsName seen [] = ([], [])"
| "deduplicateLoop vsNamespace vsName seen (vsr # vsrs) =
     (if vsrKey vsr \<in> set seen then
        (let (result, warnings) = deduplicateLoop vsNamespace vsName seen vsrs
         in (result, duplicateWarning vsNamespace vsName (vsrKey vsr) # warnings))
      else
        (let (result, warnings) = deduplicateLoop vsNamespace vsName (vsrKey vsr # seen) vsrs
         in (vsr # result, warnings)))"

definition deduplicateVSRSlice ::
  "VirtualServerRoute list \<Rightarrow> string \<Rightarrow> string \<Rightarrow> VirtualServerRoute list \<times> string list" where
  "deduplicateVSRSlice vsrs vsNamespace vsName = deduplicateLoop vsNamespace vsName [] vsrs"

record conflictState =
  cf_paths :: "(string, string) gomap"
  cf_warnings :: "string list"
  cf_vsrsToRemove :: "string list"

abbreviation vsrKindKey :: "VirtualServerRoute \<Rightarrow> string" where
  "vsrKindKey vsr \<equiv> getResourceKeyWithKind virtualServerRouteKind (vsr_ObjectMeta vsr)"

definition claimSubroute :: "VirtualServerRoute \<Rightarrow> Route \<Rightarrow> conflictState \<Rightarrow> conflictState" where
  "claimSubroute vsr subroute st =
     (let normPath = NormalizePath (route_Path subroute)
      in case gget (cf_paths st) normPath of
           Some path \<Rightarrow>
             (let subRoutes = (if vsrKey vsr = path then path else vsrKey vsr @ '' and '' @ path)
              in st\<lparr>cf_warnings := cf_warnings st @
                      [''path '' @ route_Path subroute @ '' has conflicting subroutes on '' @ subRoutes],
                    cf_vsrsToRemove := cf_vsrsToRemove st @ [vsrKindKey vsr]\<rparr>)
         | None \<Rightarrow> st\<lparr>cf_paths := gput (cf_paths st) normPath (vsrKey vsr)\<rparr>)"

definition claimSubroutes :: "VirtualServerRoute list \<Rightarrow> conflictState \<Rightarrow> conflictState" where
  "claimSubroutes vsrs st = fold (\<lambda>vsr. fold (claimSubroute vsr) (vsr_Subroutes vsr)) vsrs st"

definition removeFromVSRSlice :: "VirtualServerRoute list \<Rightarrow> nat \<Rightarrow> VirtualServerRoute list" where
  "removeFromVSRSlice s i = take i s @ drop (i + 1) s"

text \<open>The removal of the first VirtualServerRoute with the given key.\<close>

definition removeVSR :: "string \<Rightarrow> VirtualServerRoute list \<Rightarrow> VirtualServerRoute list" where
  "removeVSR vsrToRemove vsrs =
     (case find (\<lambda>i. vsrKindKey (vsrs ! i) = vsrToRemove) [0 ..< length vsrs] of
        None \<Rightarrow> vsrs
      | Some i \<Rightarrow> removeFromVSRSlice vsrs i)"

definition validateDuplicateVSRPaths :: "VirtualServerRoute list \<Rightarrow> VirtualServerRoute list \<times> string list" where
  "validateDuplicateVSRPaths vsrs =
     (let st = claimSubroutes vsrs \<lparr>cf_paths = [], cf_warnings = [], cf_vsrsToRemove = []\<rparr>
      in (fold removeVSR (cf_vsrsToRemove st) vsrs, cf_warnings st))"

definition syncVSRSelectors :: "(string, string list) gomap \<Rightarrow> VirtualServerRoute list \<Rightarrow> (string, string list) gomap" where
  "syncVSRSelectors vsrSelectors vsrs =
     (let finalKeys = map vsrKey vsrs
      in map (\<lambda>(sel, keys). (sel, filter (\<lambda>k. k \<in> set finalKeys) keys)) vsrSelectors)"

definition buildVirtualServerRoutes ::
  "vsrEnv \<Rightarrow> vsrStore \<Rightarrow> VirtualServer
    \<Rightarrow> VirtualServerRoute list \<times> (string, string list) gomap \<times> string list" where
  "buildVirtualServerRoutes env store vs =
     (let collected = classifyAndCollectVSRs env store vs;
          (regexVsrs, regexWarnings) = validateAndBuildRegexVSRs env (col_regexEntries collected) (vs_Host vs);
          (vsrs, dupWarnings) = deduplicateVSRSlice (col_vsrs collected @ regexVsrs)
             (Namespace (vs_ObjectMeta vs)) (Name (vs_ObjectMeta vs));
          (finalVsrs, pathWarnings) = validateDuplicateVSRPaths vsrs
      in (finalVsrs, syncVSRSelectors (col_vsrSelectors collected) finalVsrs,
          col_warnings collected @ regexWarnings @ dupWarnings @ pathWarnings))"

section \<open>Conflicting subroutes are removed\<close>

lemma vsrKindKey_eq: "vsrKindKey v = vsrKindKey w \<longleftrightarrow> vsrKey v = vsrKey w"
  by (simp add: getResourceKeyWithKind_def getResourceKey_def)

text \<open>The subroutes in the order in which the loop claims their paths.\<close>

definition claimPairs :: "VirtualServerRoute list \<Rightarrow> (VirtualServerRoute \<times> Route) list" where
  "claimPairs vsrs = concat (map (\<lambda>v. map (Pair v) (vsr_Subroutes v)) vsrs)"

abbreviation pairPath :: "VirtualServerRoute \<times> Route \<Rightarrow> string" where
  "pairPath c \<equiv> NormalizePath (route_Path (snd c))"

lemma claimSubroutes_pairs: "claimSubroutes vsrs st = fold (\<lambda>(v, s). claimSubroute v s) (claimPairs vsrs) st"
proof (induction vsrs arbitrary: st)
  case (Cons v vsrs)
  then show ?case
    by (simp add: claimSubroutes_def claimPairs_def fold_map comp_def)
qed (simp add: claimSubroutes_def claimPairs_def)

lemma claimSubroute_old:
  assumes "NormalizePath (route_Path s) \<in> set (gkeys (cf_paths st))"
  shows "cf_paths (claimSubroute v s st) = cf_paths st"
    and "cf_vsrsToRemove (claimSubroute v s st) = cf_vsrsToRemove st @ [vsrKindKey v]"
  using assms by (auto simp: claimSubroute_def gkeys_gget Let_def)

lemma claimSubroute_new:
  assumes "NormalizePath (route_Path s) \<notin> set (gkeys (cf_paths st))"
  shows "gkeys (cf_paths (claimSubroute v s st)) = gkeys (cf_paths st) @ [NormalizePath (route_Path s)]"
    and "cf_vsrsToRemove (claimSubroute v s st) = cf_vsrsToRemove st"
proof -
  have "gget (cf_paths st) (NormalizePath (route_Path s)) = None"
    using assms by (simp add: gkeys_gget)
  then show "gkeys (cf_paths (claimSubroute v s st)) = gkeys (cf_paths st) @ [NormalizePath (route_Path s)]"
    and "cf_vsrsToRemove (claimSubroute v s st) = cf_vsrsToRemove st"
    by (simp_all add: claimSubroute_def Let_def gkeys_gput_new)
qed

lemma claims_grow: "set (cf_vsrsToRemove st) \<subseteq> set (cf_vsrsToRemove (fold (\<lambda>(v, s). claimSubroute v s) pairs st))"
proof (induction pairs arbitrary: st)
  case (Cons c pairs)
  obtain v s where c: "c = (v, s)" by (cases c)
  have "set (cf_vsrsToRemove st) \<subseteq> set (cf_vsrsToRemove (claimSubroute v s st))"
    by (cases "NormalizePath (route_Path s) \<in> set (gkeys (cf_paths st))")
      (auto simp: claimSubroute_old claimSubroute_new)
  with Cons [of "claimSubroute v s st"] c show ?case by auto
qed simp

text \<open>The claims of the VirtualServerRoutes that stay are pairwise different.\<close>

lemma kept_claims_distinct:
  fixes pairs st
  defines "R \<equiv> set (cf_vsrsToRemove (fold (\<lambda>(v, s). claimSubroute v s) pairs st))"
  shows "distinct (map pairPath (filter (\<lambda>(v, s). vsrKindKey v \<notin> R) pairs)) \<and>
    set (map pairPath (filter (\<lambda>(v, s). vsrKindKey v \<notin> R) pairs)) \<inter> set (gkeys (cf_paths st)) = {}"
  unfolding R_def
proof (induction pairs arbitrary: st)
  case (Cons c pairs)
  obtain v s where c: "c = (v, s)" by (cases c)
  let ?n = "NormalizePath (route_Path s)"
  let ?st = "claimSubroute v s st"
  note IH = Cons [of ?st]
  show ?case
  proof (cases "?n \<in> set (gkeys (cf_paths st))")
    case True
    then have "vsrKindKey v \<in> set (cf_vsrsToRemove (fold (\<lambda>(v, s). claimSubroute v s) pairs ?st))"
      using claims_grow [of ?st pairs] by (auto simp: claimSubroute_old)
    with IH True c show ?thesis
      by (simp add: claimSubroute_old)
  next
    case False
    with IH c show ?thesis
      by (auto simp: claimSubroute_new)
  qed
qed simp

text \<open>A removed VirtualServerRoute has a subroute whose path was claimed before.\<close>

lemma removed_has_conflict:
  assumes "key \<in> set (cf_vsrsToRemove (fold (\<lambda>(v, s). claimSubroute v s) pairs st))"
    and "key \<notin> set (cf_vsrsToRemove st)"
  shows "\<exists>xs v s ys. pairs = xs @ (v, s) # ys \<and> vsrKindKey v = key \<and>
    NormalizePath (route_Path s) \<in> set (gkeys (cf_paths st)) \<union> pairPath ` set xs"
  using assms
proof (induction pairs arbitrary: st)
  case (Cons c pairs)
  obtain v s where c: "c = (v, s)" by (cases c)
  let ?n = "NormalizePath (route_Path s)"
  let ?st = "claimSubroute v s st"
  show ?case
  proof (cases "?n \<in> set (gkeys (cf_paths st)) \<and> vsrKindKey v = key")
    case True
    then show ?thesis
      using c by (intro exI [of _ "[]"]) auto
  next
    case False
    have keys: "set (gkeys (cf_paths ?st)) = insert ?n (set (gkeys (cf_paths st)))"
      by (cases "?n \<in> set (gkeys (cf_paths st))") (auto simp: claimSubroute_old claimSubroute_new)
    have "key \<notin> set (cf_vsrsToRemove ?st)"
      using False Cons.prems(2)
      by (cases "?n \<in> set (gkeys (cf_paths st))") (auto simp: claimSubroute_old claimSubroute_new)
    then obtain xs w t ys where "pairs = xs @ (w, t) # ys" "vsrKindKey w = key"
      "NormalizePath (route_Path t) \<in> set (gkeys (cf_paths ?st)) \<union> pairPath ` set xs"
      using Cons.IH [of ?st] Cons.prems(1) unfolding c fold_simps prod.case comp_apply by blast
    then show ?thesis
      using c keys by (intro exI [of _ "c # xs"]) auto
  qed
qed simp

lemma find_upt_Suc: "find P [Suc 0 ..< Suc n] = map_option Suc (find (\<lambda>i. P (Suc i)) [0 ..< n])"
proof -
  have "find P (map Suc xs) = map_option Suc (find (\<lambda>i. P (Suc i)) xs)" for xs
    by (induction xs) auto
  then show ?thesis
    unfolding map_Suc_upt [symmetric] by simp
qed

lemma removeVSR_simps [simp]:
  "removeVSR k [] = []"
  "removeVSR k (v # vsrs) = (if vsrKindKey v = k then vsrs else v # removeVSR k vsrs)"
proof -
  show "removeVSR k [] = []"
    by (simp add: removeVSR_def)
  have "[0 ..< length (v # vsrs)] = 0 # [Suc 0 ..< Suc (length vsrs)]"
    by (simp add: upt_conv_Cons del: upt_Suc)
  then show "removeVSR k (v # vsrs) = (if vsrKindKey v = k then vsrs else v # removeVSR k vsrs)"
    unfolding removeVSR_def
    by (simp add: find_upt_Suc removeFromVSRSlice_def split: option.splits del: upt_Suc)
qed

lemma removeVSR_filter:
  "distinct (map vsrKey vsrs) \<Longrightarrow> removeVSR k vsrs = filter (\<lambda>v. vsrKindKey v \<noteq> k) vsrs"
proof (induction vsrs)
  case (Cons v vsrs)
  have "filter (\<lambda>w. vsrKindKey w \<noteq> vsrKindKey v) vsrs = vsrs"
    using Cons.prems by (auto simp: filter_id_conv vsrKindKey_eq image_iff)
  with Cons show ?case
    by auto
qed simp

lemma fold_removeVSR:
  "distinct (map vsrKey vsrs) \<Longrightarrow> fold removeVSR ks vsrs = filter (\<lambda>v. vsrKindKey v \<notin> set ks) vsrs"
proof (induction ks arbitrary: vsrs)
  case (Cons k ks)
  then show ?case
    by (simp add: removeVSR_filter distinct_map_filter conj_commute)
qed simp

section \<open>Which VirtualServerRoutes are admitted\<close>

text \<open>The store files every VirtualServerRoute under its own key.\<close>

definition keyedStore :: "vsrStore \<Rightarrow> bool" where
  "keyedStore store = (gwf store \<and> (\<forall>k v. gget store k = Some v \<longrightarrow> vsrKey v = k))"

definition stored :: "vsrStore \<Rightarrow> VirtualServerRoute \<Rightarrow> bool" where
  "stored store v = (gget store (vsrKey v) = Some v)"

lemma stored_unique: "stored store v \<Longrightarrow> stored store w \<Longrightarrow> vsrKey v = vsrKey w \<Longrightarrow> v = w"
  by (simp add: stored_def)

lemma keyedStore_mem: "keyedStore store \<Longrightarrow> (k, v) \<in> set store \<longleftrightarrow> k = vsrKey v \<and> stored store v"
  unfolding keyedStore_def stored_def by (metis gget_iff)

lemma keyedStore_get: "keyedStore store \<Longrightarrow> gget store k = Some v \<longleftrightarrow> k = vsrKey v \<and> stored store v"
  unfolding keyedStore_def stored_def by metis

definition selectorMatches :: "vsrEnv \<Rightarrow> Route \<Rightarrow> VirtualServerRoute \<Rightarrow> bool" where
  "selectorMatches env r v =
     (case route_RouteSelector r of
        None \<Rightarrow> False
      | Some matchLabels \<Rightarrow>
          (case env_selector env matchLabels of
             Inl err \<Rightarrow> False
           | Inr (text, matches) \<Rightarrow> matches (Labels (vsr_ObjectMeta v))))"

text \<open>A route with a plain path that names the VirtualServerRoute, or that selects it.\<close>

definition eagerRoute :: "vsrEnv \<Rightarrow> VirtualServer \<Rightarrow> Route \<Rightarrow> VirtualServerRoute \<Rightarrow> bool" where
  "eagerRoute env vs r v =
     (vsrError env v (vs_Host vs) [route_Path r] = None \<and>
      (if route_Route r \<noteq> []
       then \<not> hasPrefix (route_Path r) ''~'' \<and> refersTo (Namespace (vs_ObjectMeta vs)) (vsrKey v) r
       else selectorMatches env r v))"

definition regexRoutes :: "VirtualServer \<Rightarrow> string \<Rightarrow> Route list \<Rightarrow> Route list" where
  "regexRoutes vs key routes =
     filter (\<lambda>r. hasPrefix (route_Path r) ''~'' \<and> refersTo (Namespace (vs_ObjectMeta vs)) key r) routes"

fun dedupPaths :: "string list \<Rightarrow> string list \<Rightarrow> string list" where
  "dedupPaths seen [] = []"
| "dedupPaths seen (p # ps) =
     (if NormalizePath p \<in> set seen then dedupPaths seen ps else p # dedupPaths (NormalizePath p # seen) ps)"

text \<open>The regular expressions with which the routes refer to a VirtualServerRoute, each once.\<close>

definition regexPaths :: "VirtualServer \<Rightarrow> string \<Rightarrow> Route list \<Rightarrow> string list" where
  "regexPaths vs key routes = dedupPaths [] (map route_Path (regexRoutes vs key routes))"

definition admitted :: "vsrEnv \<Rightarrow> VirtualServer \<Rightarrow> VirtualServerRoute \<Rightarrow> bool" where
  "admitted env vs v =
     (list_ex (\<lambda>r. eagerRoute env vs r v) (vss_Routes (vs_Spec vs)) \<or>
      regexPaths vs (vsrKey v) (vss_Routes (vs_Spec vs)) \<noteq> [] \<and>
      vsrError env v (vs_Host vs) (regexPaths vs (vsrKey v) (vss_Routes (vs_Spec vs))) = None)"

lemma dedupPaths_snoc:
  "dedupPaths seen (ps @ [p]) =
   dedupPaths seen ps @ (if NormalizePath p \<in> set seen \<union> NormalizePath ` set (dedupPaths seen ps) then [] else [p])"
  by (induction seen ps rule: dedupPaths.induct) auto

lemma regexPaths_snoc:
  "regexPaths vs key (rs @ [r]) =
   regexPaths vs key rs @
     (if hasPrefix (route_Path r) ''~'' \<and> refersTo (Namespace (vs_ObjectMeta vs)) key r \<and>
         NormalizePath (route_Path r) \<notin> NormalizePath ` set (regexPaths vs key rs) then [route_Path r] else [])"
  by (simp add: regexPaths_def regexRoutes_def dedupPaths_snoc)

section \<open>The invariant of the collection\<close>

text \<open>After the routes \<^verbatim>\<open>rs\<close>: what the eager part and the entries hold.\<close>

definition eagerInv :: "vsrEnv \<Rightarrow> vsrStore \<Rightarrow> VirtualServer \<Rightarrow> Route list \<Rightarrow> collectState \<Rightarrow> bool" where
  "eagerInv env store vs rs col =
     (distinct (map vsrKey (col_vsrs col)) \<and> set (cs_seenVSRs col) = vsrKey ` set (col_vsrs col) \<and>
      set (col_vsrs col) = {v. stored store v \<and> (\<exists>r \<in> set rs. eagerRoute env vs r v)})"

definition regexInv :: "vsrStore \<Rightarrow> VirtualServer \<Rightarrow> Route list \<Rightarrow> collectState \<Rightarrow> bool" where
  "regexInv store vs rs col =
     (gwf (col_regexEntries col) \<and>
      (\<forall>key. case gget (col_regexEntries col) key of
         None \<Rightarrow> regexPaths vs key rs = [] \<or> gget store key = None
       | Some e \<Rightarrow> gget store key = Some (rve_vsr e) \<and> rve_paths e = regexPaths vs key rs \<and> rve_paths e \<noteq> [] \<and>
           gget (cs_regexSeenPaths col) key = Some (map NormalizePath (rve_paths e))))"

lemma regexInvD:
  "regexInv store vs rs col \<Longrightarrow>
   case gget (col_regexEntries col) key of
     None \<Rightarrow> regexPaths vs key rs = [] \<or> gget store key = None
   | Some e \<Rightarrow> gget store key = Some (rve_vsr e) \<and> rve_paths e = regexPaths vs key rs \<and> rve_paths e \<noteq> [] \<and>
       gget (cs_regexSeenPaths col) key = Some (map NormalizePath (rve_paths e))"
  by (simp add: regexInv_def)

lemma fold_addUnseen:
  assumes "\<forall>v \<in> set vsrs. stored store v" and "\<forall>v \<in> set (col_vsrs col). stored store v"
    and "distinct (map vsrKey (col_vsrs col))" and "set (cs_seenVSRs col) = vsrKey ` set (col_vsrs col)"
  shows "let col' = fold (addUnseen vs) vsrs col in
    distinct (map vsrKey (col_vsrs col')) \<and> set (cs_seenVSRs col') = vsrKey ` set (col_vsrs col') \<and>
    set (col_vsrs col') = set (col_vsrs col) \<union> set vsrs \<and>
    col_regexEntries col' = col_regexEntries col \<and> cs_regexSeenPaths col' = cs_regexSeenPaths col \<and>
    col_vsrSelectors col' = col_vsrSelectors col"
  using assms
proof (induction vsrs arbitrary: col)
  case (Cons v vsrs)
  let ?col = "addUnseen vs v col"
  have "distinct (map vsrKey (col_vsrs ?col)) \<and> set (cs_seenVSRs ?col) = vsrKey ` set (col_vsrs ?col) \<and>
      set (col_vsrs ?col) = insert v (set (col_vsrs col)) \<and>
      col_regexEntries ?col = col_regexEntries col \<and> cs_regexSeenPaths ?col = cs_regexSeenPaths col \<and>
      col_vsrSelectors ?col = col_vsrSelectors col"
  proof (cases "vsrKey v \<in> set (cs_seenVSRs col)")
    case True
    then have "v \<in> set (col_vsrs col)"
      using Cons.prems stored_unique [of store] by auto
    with True Cons.prems show ?thesis
      by (auto simp: addUnseen_def Let_def)
  next
    case False
    with Cons.prems show ?thesis
      by (auto simp: addUnseen_def Let_def)
  qed
  with Cons.IH [of ?col] Cons.prems show ?case
    by (simp add: Let_def)
qed simp

lemma validateVSRs_set:
  assumes "keyedStore store" and "validateVSRs env store r vsHost ns = (vsrs, ws)"
  shows "set vsrs = {v. stored store v \<and> vsrKey v = qualifyRef ns (route_Route r) \<and>
    vsrError env v vsHost [route_Path r] = None}"
proof (cases "gget store (qualifyRef ns (route_Route r))")
  case None
  then have "\<not> (stored store v \<and> vsrKey v = qualifyRef ns (route_Route r))" for v
    by (auto simp: stored_def)
  with None assms(2) show ?thesis
    by (auto simp: validateVSRs_def)
next
  case (Some w)
  then have w: "vsrKey w = qualifyRef ns (route_Route r)" "stored store w"
    using keyedStore_get [OF assms(1)] by auto
  then have "stored store v \<and> vsrKey v = qualifyRef ns (route_Route r) \<and>
      vsrError env v vsHost [route_Path r] = None \<longleftrightarrow> v = w \<and> vsrError env v vsHost [route_Path r] = None" for v
    using stored_unique [of store v w] by metis
  moreover have "set vsrs = {v. v = w \<and> vsrError env v vsHost [route_Path r] = None}"
    using Some assms(2) by (cases "vsrError env w vsHost [route_Path r]") (auto simp: validateVSRs_def)
  ultimately show ?thesis
    by simp
qed

text \<open>The entries of the store that a selector route takes.\<close>

definition selected :: "vsrEnv \<Rightarrow> ((string, string) gomap \<Rightarrow> bool) \<Rightarrow> Route \<Rightarrow> string \<Rightarrow> vsrStore \<Rightarrow> vsrStore" where
  "selected env matches r vsHost store =
     filter (\<lambda>(k, v). matches (Labels (vsr_ObjectMeta v)) \<and> vsrError env v vsHost [route_Path r] = None) store"

lemma fold_selectVSR:
  "\<exists>ws'. fold (selectVSR env matches r vsHost) store (vsrs, keys, ws) =
     (vsrs @ map snd (selected env matches r vsHost store), keys @ map fst (selected env matches r vsHost store), ws')"
proof (induction store arbitrary: vsrs keys ws)
  case (Cons e store)
  obtain k v where e: "e = (k, v)" by (cases e)
  show ?case
  proof (cases "matches (Labels (vsr_ObjectMeta v)) \<and> vsrError env v vsHost [route_Path r] = None")
    case True
    with Cons [of "vsrs @ [v]" "keys @ [k]" ws] e show ?thesis
      by (simp add: selectVSR_def selected_def)
  next
    case False
    have "\<exists>ws'. selectVSR env matches r vsHost e (vsrs, keys, ws) = (vsrs, keys, ws')"
      using False e by (auto simp: selectVSR_def split: option.splits)
    then obtain ws1 where "selectVSR env matches r vsHost e (vsrs, keys, ws) = (vsrs, keys, ws1)" ..
    with Cons [of vsrs keys ws1] False e show ?thesis
      by (auto simp: selected_def)
  qed
qed (simp add: selected_def)

lemma validateVSRSelectors_Inr:
  assumes "env_selector env matchLabels = Inr (selectorStr, matches)"
  shows "\<exists>ws. validateVSRSelectors env store matchLabels r vsHost =
    (map snd (selected env matches r vsHost store),
     [(selectorStr, sort (map fst (selected env matches r vsHost store)))], ws)"
proof -
  obtain ws where "fold (selectVSR env matches r vsHost) store ([], [], []) =
      (map snd (selected env matches r vsHost store), map fst (selected env matches r vsHost store), ws)"
    using fold_selectVSR [of env matches r vsHost store "[]" "[]" "[]"] by auto
  with assms show ?thesis
    by (simp add: validateVSRSelectors_def)
qed

lemma selected_set:
  "keyedStore store \<Longrightarrow> set (map snd (selected env matches r vsHost store)) =
     {v. stored store v \<and> matches (Labels (vsr_ObjectMeta v)) \<and> vsrError env v vsHost [route_Path r] = None}"
  by (auto simp: selected_def keyedStore_mem image_iff)

lemma validateVSRSelectors_set:
  assumes "keyedStore store" and "route_RouteSelector r = Some matchLabels"
    and "validateVSRSelectors env store matchLabels r vsHost = (vsrs, sels, ws)"
  shows "set vsrs = {v. stored store v \<and> selectorMatches env r v \<and> vsrError env v vsHost [route_Path r] = None}"
proof (cases "env_selector env matchLabels")
  case (Inl err)
  with assms show ?thesis
    by (auto simp: validateVSRSelectors_def selectorMatches_def)
next
  case (Inr sm)
  obtain t matches where sm: "sm = (t, matches)" by (cases sm)
  have "vsrs = map snd (selected env matches r vsHost store)"
    using validateVSRSelectors_Inr [OF Inr [unfolded sm], of store r vsHost] assms(3) by auto
  with selected_set [OF assms(1), of env matches r vsHost] show ?thesis
    using assms(2) Inr sm by (simp add: selectorMatches_def)
qed

lemma eagerInv_add:
  assumes "eagerInv env store vs rs col" and "\<forall>v. v \<in> set vsrs \<longleftrightarrow> stored store v \<and> eagerRoute env vs r v"
    and "col_vsrs col' = col_vsrs col" and "cs_seenVSRs col' = cs_seenVSRs col"
  shows "eagerInv env store vs (rs @ [r]) (fold (addUnseen vs) vsrs col')"
proof -
  have "\<forall>v \<in> set vsrs. stored store v" "\<forall>v \<in> set (col_vsrs col'). stored store v"
    "distinct (map vsrKey (col_vsrs col'))" "set (cs_seenVSRs col') = vsrKey ` set (col_vsrs col')"
    using assms by (auto simp: eagerInv_def)
  from fold_addUnseen [OF this, of vs] show ?thesis
    using assms by (auto simp: eagerInv_def Let_def)
qed

lemma eagerInv_same:
  assumes "eagerInv env store vs rs col" and "\<forall>v. \<not> eagerRoute env vs r v \<or> \<not> stored store v"
    and "col_vsrs col' = col_vsrs col" and "cs_seenVSRs col' = cs_seenVSRs col"
  shows "eagerInv env store vs (rs @ [r]) col'"
  using eagerInv_add [of env store vs rs col "[]" r col'] assms by auto

lemma collectRoute_eagerInv:
  assumes store: "keyedStore store" and inv: "eagerInv env store vs rs col"
  shows "eagerInv env store vs (rs @ [r]) (collectRoute env store vs (i, r) col)"
proof -
  let ?ns = "Namespace (vs_ObjectMeta vs)"
  consider (regex) "route_Route r \<noteq> []" "hasPrefix (route_Path r) ''~''"
    | (named) "route_Route r \<noteq> []" "\<not> hasPrefix (route_Path r) ''~''"
    | (sel) ml where "route_Route r = []" "route_RouteSelector r = Some ml"
    | (none) "route_Route r = []" "route_RouteSelector r = None"
    by (cases "route_RouteSelector r") auto
  then show ?thesis
  proof cases
    case regex
    then have "col_vsrs (collectRoute env store vs (i, r) col) = col_vsrs col"
      and "cs_seenVSRs (collectRoute env store vs (i, r) col) = cs_seenVSRs col"
      by (simp_all add: collectRoute_def collectRegexNamedRoute_def Let_def split: option.splits)
    with regex show ?thesis
      by (intro eagerInv_same [OF inv]) (auto simp: eagerRoute_def)
  next
    case named
    obtain vsrs ws where res: "validateVSRs env store r (vs_Host vs) ?ns = (vsrs, ws)"
      by (cases "validateVSRs env store r (vs_Host vs) ?ns")
    have vsrs: "\<forall>v. v \<in> set vsrs \<longleftrightarrow> stored store v \<and> eagerRoute env vs r v"
      unfolding validateVSRs_set [OF store res] using named by (auto simp: eagerRoute_def refersTo_def)
    have "collectRoute env store vs (i, r) col = fold (addUnseen vs) vsrs (col\<lparr>col_warnings := col_warnings col @ ws\<rparr>)"
      using named res by (simp add: collectRoute_def collectNonRegexNamedRoute_def)
    then show ?thesis
      using eagerInv_add [OF inv vsrs] by simp
  next
    case sel
    obtain vsrs ss ws where res: "validateVSRSelectors env store ml r (vs_Host vs) = (vsrs, ss, ws)"
      by (cases "validateVSRSelectors env store ml r (vs_Host vs)")
    have vsrs: "\<forall>v. v \<in> set vsrs \<longleftrightarrow> stored store v \<and> eagerRoute env vs r v"
      unfolding validateVSRSelectors_set [OF store sel(2) res] using sel by (auto simp: eagerRoute_def)
    have "collectRoute env store vs (i, r) col = fold (addUnseen vs) vsrs
        (col\<lparr>col_warnings := col_warnings col @ ws,
             col_vsrSelectors := fold (\<lambda>(k, v) m. gput m k v) ss (col_vsrSelectors col)\<rparr>)"
      using sel res by (simp add: collectRoute_def collectSelectorRoute_def)
    then show ?thesis
      using eagerInv_add [OF inv vsrs] by simp
  next
    case none
    then show ?thesis
      by (intro eagerInv_same [OF inv]) (auto simp: eagerRoute_def selectorMatches_def collectRoute_def)
  qed
qed

lemma regexInv_keep:
  assumes "regexInv store vs rs col"
    and "\<forall>key. regexPaths vs key (rs @ [r]) = regexPaths vs key rs \<or> gget store key = None"
    and "col_regexEntries col' = col_regexEntries col" and "cs_regexSeenPaths col' = cs_regexSeenPaths col"
  shows "regexInv store vs (rs @ [r]) col'"
  unfolding regexInv_def
proof (intro conjI allI)
  show "gwf (col_regexEntries col')"
    using assms by (simp add: regexInv_def)
  fix key
  show "case gget (col_regexEntries col') key of
      None \<Rightarrow> regexPaths vs key (rs @ [r]) = [] \<or> gget store key = None
    | Some e \<Rightarrow> gget store key = Some (rve_vsr e) \<and> rve_paths e = regexPaths vs key (rs @ [r]) \<and> rve_paths e \<noteq> [] \<and>
        gget (cs_regexSeenPaths col') key = Some (map NormalizePath (rve_paths e))"
    using assms(1) spec [OF assms(2), of key] assms(3,4)
    by (auto simp: regexInv_def split: option.splits dest: spec [of _ key])
qed

lemma regexPaths_other:
  "\<not> (hasPrefix (route_Path r) ''~'' \<and> refersTo (Namespace (vs_ObjectMeta vs)) key r) \<Longrightarrow>
   regexPaths vs key (rs @ [r]) = regexPaths vs key rs"
  by (auto simp: regexPaths_snoc)

lemma regexInv_put:
  assumes inv: "regexInv store vs rs col" and key: "gget store key = Some (rve_vsr e)"
    and e: "rve_paths e = regexPaths vs key (rs @ [r])" "rve_paths e \<noteq> []"
    and other: "\<And>k. k \<noteq> key \<Longrightarrow> regexPaths vs k (rs @ [r]) = regexPaths vs k rs"
    and col': "col_regexEntries col' = gput (col_regexEntries col) key e"
      "cs_regexSeenPaths col' = gput (cs_regexSeenPaths col) key (map NormalizePath (rve_paths e))"
  shows "regexInv store vs (rs @ [r]) col'"
  unfolding regexInv_def
proof (intro conjI allI)
  show "gwf (col_regexEntries col')"
    using inv col' by (simp add: regexInv_def)
  fix k
  show "case gget (col_regexEntries col') k of
      None \<Rightarrow> regexPaths vs k (rs @ [r]) = [] \<or> gget store k = None
    | Some e \<Rightarrow> gget store k = Some (rve_vsr e) \<and> rve_paths e = regexPaths vs k (rs @ [r]) \<and> rve_paths e \<noteq> [] \<and>
        gget (cs_regexSeenPaths col') k = Some (map NormalizePath (rve_paths e))"
    using inv key e other [of k] col'
    by (cases "k = key") (auto simp: regexInv_def split: option.splits dest: spec [of _ k])
qed

lemma collectRegexNamedRoute_regexInv:
  assumes inv: "regexInv store vs rs col" and r: "route_Route r \<noteq> []" "hasPrefix (route_Path r) ''~''"
  shows "regexInv store vs (rs @ [r]) (collectRegexNamedRoute store vs (route_Route r) (route_Path r) i col)"
proof -
  let ?key = "qualifyRef (Namespace (vs_ObjectMeta vs)) (route_Route r)"
  let ?n = "NormalizePath (route_Path r)"
  have other: "regexPaths vs k (rs @ [r]) = regexPaths vs k rs" if "k \<noteq> ?key" for k
    using that by (intro regexPaths_other) (auto simp: refersTo_def)
  have paths: "regexPaths vs ?key (rs @ [r]) = regexPaths vs ?key rs @
      (if ?n \<in> NormalizePath ` set (regexPaths vs ?key rs) then [] else [route_Path r])"
    using r by (simp add: regexPaths_snoc refersTo_def)
  show ?thesis
  proof (cases "gget store ?key")
    case None
    then have "\<forall>k. regexPaths vs k (rs @ [r]) = regexPaths vs k rs \<or> gget store k = None"
      using other by metis
    then show ?thesis
      by (rule regexInv_keep [OF inv]) (use None in \<open>simp_all add: collectRegexNamedRoute_def Let_def\<close>)
  next
    case (Some vsr)
    show ?thesis
    proof (cases "gget (col_regexEntries col) ?key")
      case None
      with inv Some have nil: "regexPaths vs ?key rs = []"
        by (auto simp: regexInv_def split: option.splits dest: spec [of _ ?key])
      show ?thesis
        by (rule regexInv_put [OF inv, of ?key "\<lparr>rve_vsr = vsr, rve_paths = [route_Path r], rve_firstSeenIdx = i\<rparr>"])
          (use Some None nil paths other in \<open>simp_all add: collectRegexNamedRoute_def Let_def\<close>)
    next
      case e: (Some e)
      with inv have ok: "gget store ?key = Some (rve_vsr e)" "rve_paths e = regexPaths vs ?key rs"
        "rve_paths e \<noteq> []" "gget (cs_regexSeenPaths col) ?key = Some (map NormalizePath (rve_paths e))"
        by (auto simp: regexInv_def split: option.splits dest: spec [of _ ?key])
      show ?thesis
      proof (cases "?n \<in> NormalizePath ` set (regexPaths vs ?key rs)")
        case True
        have "\<forall>k. regexPaths vs k (rs @ [r]) = regexPaths vs k rs \<or> gget store k = None"
          using True paths other by (metis append_Nil2)
        then show ?thesis
          by (rule regexInv_keep [OF inv])
            (use True e ok Some in \<open>simp_all add: collectRegexNamedRoute_def Let_def\<close>)
      next
        case False
        show ?thesis
          by (rule regexInv_put [OF inv, of ?key "e\<lparr>rve_paths := rve_paths e @ [route_Path r]\<rparr>"])
            (use False e ok Some paths other in \<open>simp_all add: collectRegexNamedRoute_def Let_def\<close>)
      qed
    qed
  qed
qed

lemma fold_addUnseen_regex [simp]:
  "col_regexEntries (fold (addUnseen vs) vsrs col) = col_regexEntries col"
  "cs_regexSeenPaths (fold (addUnseen vs) vsrs col) = cs_regexSeenPaths col"
  "col_vsrSelectors (fold (addUnseen vs) vsrs col) = col_vsrSelectors col"
  by (induction vsrs arbitrary: col) (simp_all add: addUnseen_def Let_def)

lemma collectRoute_regexInv:
  assumes inv: "regexInv store vs rs col"
  shows "regexInv store vs (rs @ [r]) (collectRoute env store vs (i, r) col)"
proof (cases "route_Route r \<noteq> [] \<and> hasPrefix (route_Path r) ''~''")
  case True
  then show ?thesis
    using collectRegexNamedRoute_regexInv [OF inv] by (simp add: collectRoute_def)
next
  case False
  have "\<forall>key. regexPaths vs key (rs @ [r]) = regexPaths vs key rs \<or> gget store key = None"
    using False by (auto simp: regexPaths_snoc refersTo_def)
  then show ?thesis
    by (rule regexInv_keep [OF inv])
      (use False in \<open>auto simp: collectRoute_def collectNonRegexNamedRoute_def collectSelectorRoute_def
         split: prod.splits option.splits\<close>)
qed

lemma classify_inv:
  assumes "keyedStore store"
  shows "eagerInv env store vs (vss_Routes (vs_Spec vs)) (classifyAndCollectVSRs env store vs) \<and>
    regexInv store vs (vss_Routes (vs_Spec vs)) (classifyAndCollectVSRs env store vs)"
proof -
  have "eagerInv env store vs (map snd irs) (fold (collectRoute env store vs) irs emptyCollection) \<and>
      regexInv store vs (map snd irs) (fold (collectRoute env store vs) irs emptyCollection)" for irs
  proof (induction irs rule: rev_induct)
    case Nil
    then show ?case
      by (simp add: eagerInv_def regexInv_def emptyCollection_def regexPaths_def regexRoutes_def)
  next
    case (snoc ir irs)
    obtain i r where "ir = (i, r)" by (cases ir)
    with snoc show ?case
      by (simp add: collectRoute_eagerInv [OF assms] collectRoute_regexInv)
  qed
  from this [of "enumerate 0 (vss_Routes (vs_Spec vs))"] show ?thesis
    by (simp add: classifyAndCollectVSRs_def)
qed

section \<open>The result\<close>

lemma deduplicateLoop_spec:
  "\<forall>v \<in> set vsrs. stored store v \<Longrightarrow>
   distinct (map vsrKey (fst (deduplicateLoop ns name seen vsrs))) \<and>
   set (fst (deduplicateLoop ns name seen vsrs)) = {v \<in> set vsrs. vsrKey v \<notin> set seen}"
proof (induction vsrs arbitrary: seen)
  case (Cons v vsrs)
  show ?case
  proof (cases "vsrKey v \<in> set seen")
    case True
    with Cons show ?thesis
      by (auto simp: Let_def case_prod_beta)
  next
    case False
    have "w = v" if "w \<in> set vsrs" "vsrKey w = vsrKey v" for w
      using that Cons.prems stored_unique [of store w v] by auto
    then show ?thesis
      using False Cons.IH [of "vsrKey v # seen"] Cons.prems
      by (auto simp: Let_def case_prod_beta)
  qed
qed simp

lemma validateAndBuildRegexVSRs_set:
  "set (fst (validateAndBuildRegexVSRs env entries vsHost)) =
   {v. \<exists>(k, e) \<in> set entries. v = rve_vsr e \<and> vsrError env (rve_vsr e) vsHost (rve_paths e) = None}"
proof -
  let ?f = "\<lambda>(key, entry) (vsrs, warnings).
        case vsrError env (rve_vsr entry) vsHost (rve_paths entry) of
          Some err \<Rightarrow> (vsrs, warnings @ [invalidWarning key err])
        | None \<Rightarrow> (vsrs @ [rve_vsr entry], warnings)"
  have "set (fst (fold ?f es (vsrs, ws))) = set vsrs \<union>
      {v. \<exists>(k, e) \<in> set es. v = rve_vsr e \<and> vsrError env (rve_vsr e) vsHost (rve_paths e) = None}" for es vsrs ws
  proof (induction es arbitrary: vsrs ws)
    case (Cons x es)
    obtain k e where "x = (k, e)" by (cases x)
    with Cons show ?case
      by (cases "vsrError env (rve_vsr e) vsHost (rve_paths e)") auto
  qed simp
  from this [of "sort_key (\<lambda>(key, entry). rve_firstSeenIdx entry) entries" "[]" "[]"] show ?thesis
    by (simp add: validateAndBuildRegexVSRs_def)
qed

lemma regexEntries_set:
  assumes store: "keyedStore store" and inv: "regexInv store vs rs col"
  shows "{v. \<exists>(k, e) \<in> set (col_regexEntries col). v = rve_vsr e \<and> vsrError env (rve_vsr e) vsHost (rve_paths e) = None} =
    {v. stored store v \<and> regexPaths vs (vsrKey v) rs \<noteq> [] \<and> vsrError env v vsHost (regexPaths vs (vsrKey v) rs) = None}"
    (is "?L = ?R")
proof (intro equalityI subsetI)
  fix v
  assume "v \<in> ?L"
  then obtain k e where e: "(k, e) \<in> set (col_regexEntries col)" "v = rve_vsr e" "vsrError env (rve_vsr e) vsHost (rve_paths e) = None"
    by auto
  then have "gget (col_regexEntries col) k = Some e"
    using inv by (auto simp: regexInv_def gget_memI)
  with inv have "gget store k = Some v" "rve_paths e = regexPaths vs k rs" "rve_paths e \<noteq> []"
    using e by (auto simp: regexInv_def split: option.splits dest: spec [of _ k])
  moreover from this have "k = vsrKey v" "stored store v"
    using keyedStore_get [OF store] by auto
  ultimately show "v \<in> ?R"
    using e by auto
next
  fix v
  assume v: "v \<in> ?R"
  then have "gget store (vsrKey v) = Some v"
    by (simp add: stored_def)
  moreover have "case gget (col_regexEntries col) (vsrKey v) of
      None \<Rightarrow> regexPaths vs (vsrKey v) rs = [] \<or> gget store (vsrKey v) = None
    | Some e \<Rightarrow> gget store (vsrKey v) = Some (rve_vsr e) \<and> rve_paths e = regexPaths vs (vsrKey v) rs"
    using regexInvD [OF inv, of "vsrKey v"] by (auto split: option.splits)
  ultimately obtain e where "gget (col_regexEntries col) (vsrKey v) = Some e" "v = rve_vsr e"
    "rve_paths e = regexPaths vs (vsrKey v) rs"
    using v by (cases "gget (col_regexEntries col) (vsrKey v)") auto
  with v show "v \<in> ?L"
    by (auto dest!: gget_memD)
qed

text \<open>The VirtualServerRoutes that are left after duplicates are dropped, before conflicts are.\<close>

definition collectedVSRs :: "vsrEnv \<Rightarrow> vsrStore \<Rightarrow> VirtualServer \<Rightarrow> VirtualServerRoute list" where
  "collectedVSRs env store vs =
     (let collected = classifyAndCollectVSRs env store vs
      in fst (deduplicateVSRSlice (col_vsrs collected @
           fst (validateAndBuildRegexVSRs env (col_regexEntries collected) (vs_Host vs)))
           (Namespace (vs_ObjectMeta vs)) (Name (vs_ObjectMeta vs))))"

lemma collectedVSRs_spec:
  assumes "keyedStore store"
  shows "distinct (map vsrKey (collectedVSRs env store vs))"
    and "set (collectedVSRs env store vs) = {v. stored store v \<and> admitted env vs v}"
proof -
  let ?col = "classifyAndCollectVSRs env store vs"
  let ?rx = "fst (validateAndBuildRegexVSRs env (col_regexEntries ?col) (vs_Host vs))"
  have inv: "eagerInv env store vs (vss_Routes (vs_Spec vs)) ?col" "regexInv store vs (vss_Routes (vs_Spec vs)) ?col"
    using classify_inv [OF assms, of env vs] by auto
  have "set (col_vsrs ?col @ ?rx) = {v. stored store v \<and> admitted env vs v}"
    using inv(1) regexEntries_set [OF assms inv(2), of env "vs_Host vs"]
    unfolding set_append validateAndBuildRegexVSRs_set eagerInv_def admitted_def list_ex_iff by auto
  moreover from this have "\<forall>v \<in> set (col_vsrs ?col @ ?rx). stored store v"
    by blast
  ultimately show "distinct (map vsrKey (collectedVSRs env store vs))"
    and "set (collectedVSRs env store vs) = {v. stored store v \<and> admitted env vs v}"
    using deduplicateLoop_spec [of "col_vsrs ?col @ ?rx" store "Namespace (vs_ObjectMeta vs)" "Name (vs_ObjectMeta vs)" "[]"]
    unfolding collectedVSRs_def deduplicateVSRSlice_def Let_def by auto
qed

lemma buildVirtualServerRoutes_collected:
  "fst (buildVirtualServerRoutes env store vs) = fst (validateDuplicateVSRPaths (collectedVSRs env store vs))"
  by (simp add: buildVirtualServerRoutes_def collectedVSRs_def Let_def case_prod_beta)

lemma kept_pairs:
  "map pairPath (filter (\<lambda>(v, s). vsrKindKey v \<notin> R) (claimPairs vsrs)) =
   concat (map (\<lambda>v. normPaths (vsr_Subroutes v)) (filter (\<lambda>v. vsrKindKey v \<notin> R) vsrs))"
  by (induction vsrs) (auto simp: claimPairs_def filter_map comp_def)

definition removedKeys :: "VirtualServerRoute list \<Rightarrow> string list" where
  "removedKeys vsrs =
     cf_vsrsToRemove (claimSubroutes vsrs \<lparr>cf_paths = [], cf_warnings = [], cf_vsrsToRemove = []\<rparr>)"

lemma validateDuplicateVSRPaths_filter:
  "distinct (map vsrKey vsrs) \<Longrightarrow>
   fst (validateDuplicateVSRPaths vsrs) = filter (\<lambda>v. vsrKindKey v \<notin> set (removedKeys vsrs)) vsrs"
  by (simp add: validateDuplicateVSRPaths_def removedKeys_def Let_def fold_removeVSR)

lemma validateDuplicateVSRPaths_distinct:
  assumes "distinct (map vsrKey vsrs)"
  shows "distinct (concat (map (\<lambda>v. normPaths (vsr_Subroutes v)) (fst (validateDuplicateVSRPaths vsrs))))"
  using kept_claims_distinct [of "claimPairs vsrs" "\<lparr>cf_paths = [], cf_warnings = [], cf_vsrsToRemove = []\<rparr>"]
  unfolding validateDuplicateVSRPaths_filter [OF assms] removedKeys_def claimSubroutes_pairs kept_pairs by simp

text \<open>
  C11. The VirtualServerRoutes of a VirtualServer. When the store files every VirtualServerRoute
  under its own key, the result lists no VirtualServerRoute twice, no two subroutes of the listed
  VirtualServerRoutes have the same normalized path (so the generated locations do not clash), and
  every listed VirtualServerRoute is the stored one and is accepted for a route that names or
  selects it, or for the regular expressions of all the routes that name it.
\<close>

theorem vs_routes_conflict_free:
  assumes "keyedStore store" and "buildVirtualServerRoutes env store vs = (vsrs, sels, warnings)"
  shows "distinct (map vsrKey vsrs) \<and>
    distinct (concat (map (\<lambda>v. normPaths (vsr_Subroutes v)) vsrs)) \<and>
    (\<forall>v \<in> set vsrs. gget store (vsrKey v) = Some v \<and> admitted env vs v)"
proof -
  let ?c = "collectedVSRs env store vs"
  have "vsrs = fst (validateDuplicateVSRPaths ?c)"
    using buildVirtualServerRoutes_collected [of env store vs] assms(2) by simp
  moreover from this have "vsrs = filter (\<lambda>v. vsrKindKey v \<notin> set (removedKeys ?c)) ?c"
    by (simp add: validateDuplicateVSRPaths_filter [OF collectedVSRs_spec(1) [OF assms(1)]])
  moreover from this have "distinct (map vsrKey vsrs)" "set vsrs \<subseteq> set ?c"
    using collectedVSRs_spec(1) [OF assms(1)] by (auto simp: distinct_map_filter)
  ultimately show ?thesis
    using validateDuplicateVSRPaths_distinct [OF collectedVSRs_spec(1) [OF assms(1)]]
      collectedVSRs_spec(2) [OF assms(1)]
    by (auto simp: stored_def)
qed

lemma admitted_distinct: "admitted env vs v \<Longrightarrow> distinct (normPaths (vsr_Subroutes v))"
  using accepted_paths_distinct [of "env_checks env" v]
  by (auto simp: admitted_def eagerRoute_def vsrError_def Let_def list_ex_iff split: if_splits)

lemma claimPairs_split:
  assumes "claimPairs vsrs = xs @ (v, s) # ys" and "(w, t) \<in> set xs" and "NormalizePath (route_Path s) = NormalizePath (route_Path t)"
    and "distinct (map vsrKey vsrs)" and "\<forall>v \<in> set vsrs. distinct (normPaths (vsr_Subroutes v))"
  shows "w \<noteq> v"
  using assms
proof (induction vsrs arbitrary: xs)
  case Nil
  then show ?case by (simp add: claimPairs_def)
next
  case (Cons u vsrs)
  let ?us = "map (Pair u) (vsr_Subroutes u)"
  have eq: "?us @ claimPairs vsrs = xs @ (v, s) # ys"
    using Cons.prems(1) by (simp add: claimPairs_def)
  have later: "x \<in> set vsrs \<and> x \<noteq> u" if "(x, z) \<in> set (claimPairs vsrs)" for x z
    using that Cons.prems(4) by (auto simp: claimPairs_def)
  show ?case
  proof (cases "length xs < length ?us")
    case True
    then obtain zs where us: "?us = xs @ (v, s) # zs"
      using eq by (auto simp: append_eq_append_conv2 append_eq_Cons_conv)
    then have "map pairPath ?us = map pairPath xs @ NormalizePath (route_Path s) # map pairPath zs"
      by simp
    moreover have "distinct (map pairPath ?us)"
      using Cons.prems(5) by (simp add: comp_def)
    ultimately have "NormalizePath (route_Path s) \<notin> set (map pairPath xs)"
      by simp
    with Cons.prems(2,3) show ?thesis
      by force
  next
    case False
    then have "take (length ?us) xs = ?us"
      using arg_cong [OF eq, of "take (length ?us)"] by simp
    then obtain xs' where xs: "xs = ?us @ xs'"
      by (metis append_take_drop_id)
    with eq have rest: "claimPairs vsrs = xs' @ (v, s) # ys"
      by simp
    have "(v, s) \<in> set (claimPairs vsrs)"
      using rest by simp
    then have "v \<noteq> u"
      using later by blast
    consider "w = u" | "(w, t) \<in> set xs'"
      using Cons.prems(2) xs by auto
    then show ?thesis
      using \<open>v \<noteq> u\<close> Cons.IH [OF rest] Cons.prems by cases auto
  qed
qed

text \<open>
  C12. A VirtualServerRoute is left out only for a conflict: one that is stored and accepted for the
  routes of the VirtualServer and still not in the result has a subroute whose normalized path is
  also the path of a subroute of another stored and accepted VirtualServerRoute.
\<close>

theorem vsr_dropped_only_on_conflict:
  assumes "keyedStore store" and "buildVirtualServerRoutes env store vs = (vsrs, sels, warnings)"
    and "gget store (vsrKey v) = Some v" and "admitted env vs v" and "v \<notin> set vsrs"
  shows "\<exists>w s t. w \<noteq> v \<and> gget store (vsrKey w) = Some w \<and> admitted env vs w \<and>
    s \<in> set (vsr_Subroutes v) \<and> t \<in> set (vsr_Subroutes w) \<and>
    NormalizePath (route_Path s) = NormalizePath (route_Path t)"
proof -
  let ?c = "collectedVSRs env store vs"
  note c = collectedVSRs_spec [OF assms(1), of env vs]
  have "vsrs = filter (\<lambda>v. vsrKindKey v \<notin> set (removedKeys ?c)) ?c"
    using buildVirtualServerRoutes_collected [of env store vs] assms(2)
    by (simp add: validateDuplicateVSRPaths_filter [OF c(1)])
  moreover have v: "v \<in> set ?c"
    using c(2) assms(3,4) by (simp add: stored_def)
  ultimately have "vsrKindKey v \<in> set (removedKeys ?c)"
    using assms(5) by simp
  then have "\<exists>xs v' s ys. claimPairs ?c = xs @ (v', s) # ys \<and> vsrKindKey v' = vsrKindKey v \<and>
      NormalizePath (route_Path s) \<in> pairPath ` set xs"
    using removed_has_conflict [of "vsrKindKey v" "claimPairs ?c" "\<lparr>cf_paths = [], cf_warnings = [], cf_vsrsToRemove = []\<rparr>"]
    by (simp add: removedKeys_def claimSubroutes_pairs gkeys_def)
  then obtain xs v' s ys where split: "claimPairs ?c = xs @ (v', s) # ys" "vsrKindKey v' = vsrKindKey v"
    "NormalizePath (route_Path s) \<in> pairPath ` set xs"
    by blast
  have pairs: "x \<in> set ?c \<and> z \<in> set (vsr_Subroutes x)" if "(x, z) \<in> set (claimPairs ?c)" for x z
    using that by (auto simp: claimPairs_def)
  have "v' \<in> set ?c" "s \<in> set (vsr_Subroutes v')"
    using pairs [of v' s] split(1) by auto
  then have "v' = v"
    using split(2) c v stored_unique [of store v' v] by (auto simp: vsrKindKey_eq)
  obtain w t where w: "(w, t) \<in> set xs" "NormalizePath (route_Path s) = NormalizePath (route_Path t)"
    using split(3) by auto
  have "\<forall>v \<in> set ?c. distinct (normPaths (vsr_Subroutes v))"
    using c(2) admitted_distinct by blast
  then have "w \<noteq> v"
    using claimPairs_split [OF split(1) w c(1)] \<open>v' = v\<close> by blast
  moreover have "w \<in> set ?c" "t \<in> set (vsr_Subroutes w)"
    using pairs [of w t] split(1) w(1) by auto
  ultimately show ?thesis
    using c(2) w(2) \<open>s \<in> set (vsr_Subroutes v')\<close> \<open>v' = v\<close> by (auto simp: stored_def)
qed

section \<open>The selectors\<close>

text \<open>The entry that a route writes into the selectors, under the text of its selector.\<close>

definition selectorText :: "vsrEnv \<Rightarrow> Route \<Rightarrow> string option" where
  "selectorText env r =
     (if route_Route r \<noteq> [] then None
      else case route_RouteSelector r of
        None \<Rightarrow> None
      | Some matchLabels \<Rightarrow> (case env_selector env matchLabels of Inl _ \<Rightarrow> None | Inr (t, _) \<Rightarrow> Some t))"

lemma collectRoute_selectors_other:
  assumes "selectorText env r \<noteq> Some t"
  shows "gget (col_vsrSelectors (collectRoute env store vs (i, r) col)) t = gget (col_vsrSelectors col) t"
proof (cases "route_Route r \<noteq> [] \<or> route_RouteSelector r = None")
  case True
  then show ?thesis
    by (auto simp: collectRoute_def collectRegexNamedRoute_def collectNonRegexNamedRoute_def Let_def
        split: option.splits prod.splits)
next
  case False
  then obtain ml where ml: "route_Route r = []" "route_RouteSelector r = Some ml" by auto
  show ?thesis
  proof (cases "env_selector env ml")
    case (Inl err)
    with ml show ?thesis
      by (simp add: collectRoute_def collectSelectorRoute_def validateVSRSelectors_def)
  next
    case (Inr sm)
    obtain t' matches where sm: "sm = (t', matches)" by (cases sm)
    with Inr ml assms have "t' \<noteq> t"
      by (simp add: selectorText_def)
    with validateVSRSelectors_Inr [OF Inr [unfolded sm], of store r "vs_Host vs"] ml show ?thesis
      by (auto simp: collectRoute_def collectSelectorRoute_def)
  qed
qed

lemma fold_collectRoute_selectors_other:
  "\<forall>(i, r) \<in> set irs. selectorText env r \<noteq> Some t \<Longrightarrow>
   gget (col_vsrSelectors (fold (collectRoute env store vs) irs col)) t = gget (col_vsrSelectors col) t"
proof (induction irs arbitrary: col)
  case (Cons ir irs)
  obtain i r where "ir = (i, r)" by (cases ir)
  with Cons show ?case
    by (simp add: collectRoute_selectors_other)
qed simp

lemma collectRoute_selectors_entry:
  assumes "keyedStore store" and "selectorText env r = Some t"
  shows "\<exists>keys. gget (col_vsrSelectors (collectRoute env store vs (i, r) col)) t = Some keys \<and>
    set keys = {vsrKey v | v. stored store v \<and> selectorMatches env r v \<and> vsrError env v (vs_Host vs) [route_Path r] = None}"
proof -
  obtain ml matches where r: "route_Route r = []" "route_RouteSelector r = Some ml"
    "env_selector env ml = Inr (t, matches)"
    using assms(2) by (auto simp: selectorText_def split: if_splits option.splits sum.splits prod.splits)
  let ?sel = "selected env matches r (vs_Host vs) store"
  have "gget (col_vsrSelectors (collectRoute env store vs (i, r) col)) t = Some (sort (map fst ?sel))"
    using validateVSRSelectors_Inr [OF r(3), of store r "vs_Host vs"] r
    by (auto simp: collectRoute_def collectSelectorRoute_def)
  moreover have "set (sort (map fst ?sel)) =
      {vsrKey v | v. stored store v \<and> matches (Labels (vsr_ObjectMeta v)) \<and> vsrError env v (vs_Host vs) [route_Path r] = None}"
    using keyedStore_mem [OF assms(1)] by (auto simp: selected_def image_iff)
  ultimately show ?thesis
    using r by (simp add: selectorMatches_def)
qed

lemma gget_syncVSRSelectors:
  "gget (syncVSRSelectors sels vsrs) t = map_option (filter (\<lambda>k. k \<in> vsrKey ` set vsrs)) (gget sels t)"
  by (simp add: syncVSRSelectors_def gget_def map_of_map comp_def)

text \<open>
  C13. The selectors after pruning. Let \<^verbatim>\<open>r\<close> be the last route of the VirtualServer whose selector
  prints as \<^verbatim>\<open>t\<close>. Then the entry of \<^verbatim>\<open>t\<close> exists, and its keys are those of the VirtualServerRoutes
  of the result that \<^verbatim>\<open>r\<close> selects and for whose path they are accepted.
\<close>

theorem vsr_selectors_synced:
  assumes "keyedStore store" and "buildVirtualServerRoutes env store vs = (vsrs, sels, warnings)"
    and "vss_Routes (vs_Spec vs) = rs @ r # rs'" and "selectorText env r = Some t"
    and "\<forall>r' \<in> set rs'. selectorText env r' \<noteq> Some t"
  shows "\<exists>keys. gget sels t = Some keys \<and> set keys =
    {vsrKey v | v. v \<in> set vsrs \<and> selectorMatches env r v \<and> vsrError env v (vs_Host vs) [route_Path r] = None}"
proof -
  let ?col = "classifyAndCollectVSRs env store vs"
  have sels: "sels = syncVSRSelectors (col_vsrSelectors ?col) vsrs"
    using assms(2) by (auto simp: buildVirtualServerRoutes_def Let_def case_prod_beta)
  have vsrs: "\<forall>v \<in> set vsrs. stored store v"
    using buildVirtualServerRoutes_collected [of env store vs] assms(2) collectedVSRs_spec [OF assms(1), of env vs]
    by (auto simp: validateDuplicateVSRPaths_filter)
  have later: "\<forall>(i, r') \<in> set (enumerate (Suc (length rs)) rs'). selectorText env r' \<noteq> Some t"
    using assms(5) by (auto simp: enumerate_eq_zip dest: set_zip_rightD)
  have "gget (col_vsrSelectors ?col) t = gget (col_vsrSelectors (collectRoute env store vs (length rs, r)
      (fold (collectRoute env store vs) (enumerate 0 rs) emptyCollection))) t"
    using fold_collectRoute_selectors_other [OF later]
    by (simp add: classifyAndCollectVSRs_def assms(3) enumerate_append_eq)
  then obtain keys where keys: "gget (col_vsrSelectors ?col) t = Some keys"
    "set keys = {vsrKey v | v. stored store v \<and> selectorMatches env r v \<and> vsrError env v (vs_Host vs) [route_Path r] = None}"
    using collectRoute_selectors_entry [OF assms(1,4)] by fastforce
  have "set (filter (\<lambda>k. k \<in> vsrKey ` set vsrs) keys) =
      {vsrKey v | v. v \<in> set vsrs \<and> selectorMatches env r v \<and> vsrError env v (vs_Host vs) [route_Path r] = None}"
    unfolding set_filter keys(2) using vsrs stored_unique [of store] by blast
  with keys(1) sels show ?thesis
    by (auto simp: gget_syncVSRSelectors)
qed

section \<open>Examples\<close>

text \<open>
  Two VirtualServerRoutes with the label \<^verbatim>\<open>app=x\<close>, one for \<^verbatim>\<open>/tea\<close> and one for \<^verbatim>\<open>/milk\<close>, and a
  VirtualServer that selects them with the same selector on both paths. The selector of the
  environment is the conjunction of the equalities of its labels.
\<close>

definition exampleEnv :: vsrEnv where
  "exampleEnv = \<lparr>env_checks = noChecks, env_errorText = \<lambda>_. ''invalid'',
     env_selector = \<lambda>ml. Inr (concat (map (\<lambda>(k, v). k @ ''='' @ v) ml), \<lambda>ls. list_all (\<lambda>(k, v). gget ls k = Some v) ml),
     env_selectorText = \<lambda>_. []\<rparr>"

definition passTea :: Action where
  "passTea = \<lparr>act_Pass = ''tea'', act_Redirect = None, act_Return = None, act_Proxy = None\<rparr>"

definition exampleVSR :: "string \<Rightarrow> string list \<Rightarrow> VirtualServerRoute" where
  "exampleVSR name paths = emptyVSR
     \<lparr>vsr_ObjectMeta := emptyMeta\<lparr>Namespace := ''a'', Name := name, Labels := [(''app'', ''x'')]\<rparr>,
      vsr_Spec := (vsr_Spec emptyVSR)\<lparr>vsrs_Host := ''h'', vsrs_Subroutes :=
        map (\<lambda>p. emptyRoute\<lparr>route_Path := p, route_Action := Some passTea\<rparr>) paths\<rparr>\<rparr>"

definition selectorVS :: "string list \<Rightarrow> VirtualServer" where
  "selectorVS paths = emptyVS
     \<lparr>vs_ObjectMeta := emptyMeta\<lparr>Namespace := ''a'', Name := ''vs''\<rparr>,
      vs_Spec := emptyVSSpec\<lparr>vss_Host := ''h'', vss_Routes :=
        map (\<lambda>p. emptyRoute\<lparr>route_Path := p, route_RouteSelector := Some [(''app'', ''x'')]\<rparr>) paths\<rparr>\<rparr>"

definition exampleStore :: vsrStore where
  "exampleStore = [(''a/tea'', exampleVSR ''tea'' [''/tea'']), (''a/milk'', exampleVSR ''milk'' [''/milk''])]"

definition clashStore :: vsrStore where
  "clashStore = [(''a/tea'', exampleVSR ''tea'' [''/tea'']), (''a/milk'', exampleVSR ''milk'' [''/tea'', ''/tea/milk''])]"

lemma example_stores: "keyedStore exampleStore" "keyedStore clashStore"
  by (auto simp: keyedStore_def exampleStore_def clashStore_def gwf_def gget_def getResourceKey_def exampleVSR_def
      split: if_splits)

lemma example_result:
  "buildVirtualServerRoutes exampleEnv exampleStore (selectorVS [''/tea'', ''/milk'']) =
   ([exampleVSR ''tea'' [''/tea''], exampleVSR ''milk'' [''/milk'']], [(''app=x'', [''a/milk''])],
    [''VirtualServerRoute a/milk is invalid: invalid'', ''VirtualServerRoute a/tea is invalid: invalid''])"
  by code_simp

text \<open>
  Two routes with the same selector: the entry of the first is overwritten, so the
  VirtualServerRoute \<^verbatim>\<open>a/tea\<close>, which the first route selects and which is in the result, is in no
  entry of the selectors.
\<close>

lemma selector_entry_overwritten:
  "exampleVSR ''tea'' [''/tea''] \<in> set (fst (buildVirtualServerRoutes exampleEnv exampleStore (selectorVS [''/tea'', ''/milk''])))"
  "eagerRoute exampleEnv (selectorVS [''/tea'', ''/milk'']) (emptyRoute\<lparr>route_Path := ''/tea'',
     route_RouteSelector := Some [(''app'', ''x'')]\<rparr>) (exampleVSR ''tea'' [''/tea''])"
  "fst (snd (buildVirtualServerRoutes exampleEnv exampleStore (selectorVS [''/tea'', ''/milk'']))) = [(''app=x'', [''a/milk''])]"
  by (simp add: example_result, code_simp, simp add: example_result)

theorem vs_routes_conflict_free_witness:
  "distinct (concat (map (\<lambda>v. normPaths (vsr_Subroutes v)) [exampleVSR ''tea'' [''/tea''], exampleVSR ''milk'' [''/milk'']]))"
  using vs_routes_conflict_free [OF example_stores(1) example_result] by blast

lemma clash_result:
  "buildVirtualServerRoutes exampleEnv clashStore (selectorVS [''/tea'']) =
   ([exampleVSR ''tea'' [''/tea'']], [(''app=x'', [''a/tea''])],
    [''path /tea has conflicting subroutes on a/milk and a/tea''])"
  by code_simp

text \<open>Which of two conflicting VirtualServerRoutes stays depends on the order of the map.\<close>

lemma conflict_depends_on_map_order:
  "gsame clashStore (rev clashStore)"
  "map vsrKey (fst (buildVirtualServerRoutes exampleEnv clashStore (selectorVS [''/tea'']))) = [''a/tea'']"
  "map vsrKey (fst (buildVirtualServerRoutes exampleEnv (rev clashStore) (selectorVS [''/tea'']))) = [''a/milk'']"
proof -
  show "gsame clashStore (rev clashStore)"
    by (auto simp: gsame_def gwf_def clashStore_def)
  show "map vsrKey (fst (buildVirtualServerRoutes exampleEnv clashStore (selectorVS [''/tea'']))) = [''a/tea'']"
    by code_simp
  show "map vsrKey (fst (buildVirtualServerRoutes exampleEnv (rev clashStore) (selectorVS [''/tea'']))) = [''a/milk'']"
    by code_simp
qed

theorem vsr_dropped_only_on_conflict_witness:
  "\<exists>w. w \<noteq> exampleVSR ''milk'' [''/tea'', ''/tea/milk''] \<and> admitted exampleEnv (selectorVS [''/tea'']) w"
proof -
  let ?v = "exampleVSR ''milk'' [''/tea'', ''/tea/milk'']"
  have "gget clashStore (vsrKey ?v) = Some ?v"
    by (simp add: clashStore_def gget_def getResourceKey_def exampleVSR_def)
  moreover have "admitted exampleEnv (selectorVS [''/tea'']) ?v"
    by code_simp
  moreover have "?v \<notin> set [exampleVSR ''tea'' [''/tea'']]"
    by (simp add: exampleVSR_def zero_defs)
  ultimately show ?thesis
    using vsr_dropped_only_on_conflict [OF example_stores(2) clash_result] by blast
qed

theorem vsr_selectors_synced_witness:
  "set [''a/tea''] = {vsrKey v | v. v \<in> set [exampleVSR ''tea'' [''/tea'']] \<and>
     selectorMatches exampleEnv (emptyRoute\<lparr>route_Path := ''/tea'', route_RouteSelector := Some [(''app'', ''x'')]\<rparr>) v \<and>
     vsrError exampleEnv v ''h'' [''/tea''] = None}"
proof -
  let ?r = "emptyRoute\<lparr>route_Path := ''/tea'', route_RouteSelector := Some [(''app'', ''x'')]\<rparr>"
  have "vss_Routes (vs_Spec (selectorVS [''/tea''])) = [] @ ?r # []"
    by (simp add: selectorVS_def)
  moreover have "selectorText exampleEnv ?r = Some ''app=x''"
    by code_simp
  ultimately show ?thesis
    using vsr_selectors_synced [OF example_stores(2) clash_result, of "[]" ?r "[]" "''app=x''"]
    by (simp add: selectorVS_def gget_def)
qed

end
