(* ===== verification/Claims.thy ===== *)
theory Claims
  imports Resources
begin

text \<open>
  The loop body shared by the construction of the hosts and of the listener hosts: a resource
  claims a slot, and the loser of a contested slot gets a warning. In the code the maps hold
  pointers to the resources, so a warning added through one map is seen through the other; here a
  pointer is the key of the resource in the store of the rebuild, and the holders are looked up in
  the store when the loops are done (\<^verbatim>\<open>resolve\<close>).

  The locale \<^verbatim>\<open>claimable\<close> is the contract of a resource type: adding a warning does not change
  the metadata that decides contests. It gives, for every sequence of claims, the holders (in
  terms of \<^verbatim>\<open>settle\<close>) and the warnings each resource ends up with (the claims it lost).
\<close>

section \<open>Claiming a slot\<close>

definition metaAt :: "('r \<Rightarrow> ObjectMeta) \<Rightarrow> (string, 'r) gomap \<Rightarrow> string \<Rightarrow> ObjectMeta" where
  "metaAt meta store k = (case gget store k of None \<Rightarrow> emptyMeta | Some r \<Rightarrow> meta r)"

definition warnAt :: "(string \<Rightarrow> 'r \<Rightarrow> 'r) \<Rightarrow> string \<Rightarrow> string \<Rightarrow> (string, 'r) gomap \<Rightarrow> (string, 'r) gomap" where
  "warnAt warn w k store = (case gget store k of None \<Rightarrow> store | Some r \<Rightarrow> gput store k (warn w r))"

definition claimSlot ::
  "('r \<Rightarrow> ObjectMeta) \<Rightarrow> (string \<Rightarrow> 'r \<Rightarrow> 'r) \<Rightarrow> ('s \<Rightarrow> string) \<Rightarrow> 's \<Rightarrow> string
    \<Rightarrow> ('s, string) gomap \<times> (string, 'r) gomap \<Rightarrow> ('s, string) gomap \<times> (string, 'r) gomap" where
  "claimSlot meta warn warning s key st =
     (case st of (holders, store) \<Rightarrow>
        case gget holders s of
          None \<Rightarrow> (gput holders s key, store)
        | Some holder \<Rightarrow>
            if \<not> chooseObjectMetaWinner (metaAt meta store holder) (metaAt meta store key)
            then (gput holders s key, warnAt warn (warning s) holder store)
            else (holders, warnAt warn (warning s) key store))"

text \<open>The map from slots to resources, once the store is final.\<close>

fun resolve :: "('s, string) gomap \<Rightarrow> (string, 'r) gomap \<Rightarrow> ('s, 'r) gomap" where
  "resolve [] store = []"
| "resolve ((s, k) # holders) store =
     (case gget store k of None \<Rightarrow> resolve holders store | Some r \<Rightarrow> (s, r) # resolve holders store)"

lemma gget_warnAt [simp]:
  "gget (warnAt warn w k store) j = (if j = k then map_option (warn w) (gget store j) else gget store j)"
  by (auto simp: warnAt_def split: option.splits)

lemma gwf_warnAt [simp]: "gwf store \<Longrightarrow> gwf (warnAt warn w k store)"
  by (auto simp: warnAt_def split: option.splits)

lemma gkeys_warnAt [simp]: "gkeys (warnAt warn w k store) = gkeys store"
  by (auto simp: warnAt_def gkeys_gput_old split: option.splits)

lemma gget_Cons: "gget ((k, v) # m) j = (if j = k then Some v else gget m j)"
  by (simp add: gget_def)

lemma gget_resolve:
  assumes "\<And>s k. gget holders s = Some k \<Longrightarrow> gget store k \<noteq> None" and "gwf holders"
  shows "gget (resolve holders store) s = Option.bind (gget holders s) (gget store)"
proof -
  have "gget store k \<noteq> None" if "(s, k) \<in> set holders" for s k
    using assms(1) [OF gget_memI [OF assms(2) that]] .
  then have all: "\<forall>(s, k) \<in> set holders. gget store k \<noteq> None"
    by blast
  have "gget (resolve hs store) s = Option.bind (gget hs s) (gget store)"
    if "\<forall>(s, k) \<in> set hs. gget store k \<noteq> None" for hs
    using that by (induction hs store rule: resolve.induct) (auto simp: gget_Cons)
  with all show ?thesis by blast
qed

lemma set_resolve: "(s, r) \<in> set (resolve holders store) \<longleftrightarrow> (\<exists>k. (s, k) \<in> set holders \<and> gget store k = Some r)"
  by (induction holders store rule: resolve.induct) (auto split: option.splits)

lemma fst_set_resolve: "fst ` set (resolve holders store) \<subseteq> fst ` set holders"
  by (force simp: set_resolve)

lemma gwf_resolve: "gwf holders \<Longrightarrow> gwf (resolve holders store)"
proof (induction holders)
  case (Cons h holders)
  obtain s k where h: "h = (s, k)" by (cases h)
  have "s \<notin> fst ` set (resolve holders store)"
    using fst_set_resolve [of holders store] Cons.prems h by (auto simp: gwf_def)
  with Cons h show ?case
    by (cases "gget store k") (simp_all add: gwf_def)
qed simp

section \<open>The lost claims of a key\<close>

text \<open>The slots a key lost, in the order of the losses.\<close>

definition lostBy :: "('k \<Rightarrow> 'k \<Rightarrow> bool) \<Rightarrow> ('s \<times> 'k) list \<Rightarrow> 'k \<Rightarrow> 's list" where
  "lostBy beats cs k = map fst (filter (\<lambda>(s, j). j = k) (lost beats Map.empty cs))"

lemma lost_snoc:
  "lost beats H (cs @ [(s, a)]) =
   lost beats H cs @ (case settle beats H cs s of None \<Rightarrow> [] | Some h \<Rightarrow> [(s, if beats h a then a else h)])"
  by (simp add: lost_append split: option.splits)

lemma lostBy_snoc:
  "lostBy beats (cs @ [(s, a)]) k = lostBy beats cs k @
     (case settle beats Map.empty cs s of
        None \<Rightarrow> []
      | Some h \<Rightarrow> if (if beats h a then a else h) = k then [s] else [])"
  by (auto simp: lostBy_def lost_snoc split: option.splits)

lemma lost_claimed: "(s, a) \<in> set (lost beats H cs) \<Longrightarrow> (s, a) \<in> set cs \<or> H s = Some a"
proof (induction cs arbitrary: H)
  case (Cons c cs)
  obtain t b where c: "c = (t, b)" by (cases c)
  have step: "(s, a) \<in> set (lost beats (settleStep beats H t b) cs) \<Longrightarrow> (s, a) \<in> set (c # cs) \<or> H s = Some a"
    using Cons.IH [of "settleStep beats H t b"] c
    by (cases "s = t") (auto split: option.splits if_splits)
  show ?case
    using Cons.prems step c by (auto split: option.splits if_splits)
qed simp

lemma lostBy_unclaimed: "k \<notin> snd ` set cs \<Longrightarrow> lostBy beats cs k = []"
  using lost_claimed [of _ k beats Map.empty cs] by (force simp: lostBy_def filter_empty_conv)

text \<open>Every claim is lost or holds its slot.\<close>

lemma count_lost:
  "count (mset (lost beats Map.empty cs)) (s, a) + (if settle beats Map.empty cs s = Some a then 1 else 0) =
   count (mset cs) (s, a)"
  using arg_cong [OF lost_conservation [of s cs Map.empty beats], of "\<lambda>m. count m (s, a)"]
  by (auto split: option.splits)

text \<open>A key that makes one claim is warned once, unless it holds the slot in the end.\<close>

lemma lostBy_single:
  assumes "distinct (map snd cs)" and "(s, k) \<in> set cs"
  shows "lostBy beats cs k = (if settle beats Map.empty cs s = Some k then [] else [s])"
proof -
  let ?L = "lost beats Map.empty cs"
  have once: "t = s" if "(t, k) \<in> set cs" for t
    using that assms inj_onD [of snd "set cs" "(t, k)" "(s, k)"] by (auto simp: distinct_map)
  have only: "(\<lambda>(t, j). j = k) c \<longleftrightarrow> (s, k) = c" if "c \<in> set ?L" for c
    using that lost_claimed [of "fst c" "snd c" beats Map.empty cs] once by (cases c) auto
  have "filter (\<lambda>(t, j). j = k) ?L = filter (\<lambda>c. (s, k) = c) ?L"
    using only by (intro filter_cong) auto
  moreover have "filter (\<lambda>c. (s, k) = c) ?L = replicate (length (filter (\<lambda>c. (s, k) = c) ?L)) (s, k)"
    by (intro replicate_length_same [symmetric]) auto
  moreover have "length (filter (\<lambda>c. (s, k) = c) ?L) = count (mset ?L) (s, k)"
    by (simp add: count_mset count_list_eq_length_filter)
  moreover have "count (mset cs) (s, k) = 1"
    using assms distinct_count_atmost_1 [of cs] by (auto simp: distinct_map)
  ultimately have "filter (\<lambda>(t, j). j = k) ?L = replicate (if settle beats Map.empty cs s = Some k then 0 else 1) (s, k)"
    using count_lost [of beats cs s k] by (auto split: if_splits)
  then show ?thesis
    by (simp add: lostBy_def)
qed

section \<open>The contract of a resource type\<close>

locale claimable =
  fixes meta :: "'r \<Rightarrow> ObjectMeta" and warn :: "string \<Rightarrow> 'r \<Rightarrow> 'r"
  assumes meta_warn: "meta (warn w r) = meta r"
begin

lemma meta_fold_warn: "meta (fold warn ws r) = meta r"
  by (induction ws arbitrary: r) (simp_all add: meta_warn)

text \<open>
  The invariant of the loops: \<^verbatim>\<open>base k\<close> is the resource as it was put into the store under
  \<^verbatim>\<open>k\<close>, and \<^verbatim>\<open>cs\<close> are the claims so far.
\<close>

abbreviation baseBeats :: "(string \<Rightarrow> 'r) \<Rightarrow> string \<Rightarrow> string \<Rightarrow> bool" where
  "baseBeats base \<equiv> (\<lambda>j k. chooseObjectMetaWinner (meta (base j)) (meta (base k)))"

definition claimInv ::
  "('s \<Rightarrow> string) \<Rightarrow> (string \<Rightarrow> 'r) \<Rightarrow> ('s \<times> string) list \<Rightarrow> ('s, string) gomap \<times> (string, 'r) gomap \<Rightarrow> bool" where
  "claimInv warning base cs st =
     (gwf (fst st) \<and> gwf (snd st) \<and> gget (fst st) = settle (baseBeats base) Map.empty cs \<and>
      (\<forall>(s, k) \<in> set cs. gget (snd st) k \<noteq> None) \<and>
      (\<forall>k r. gget (snd st) k = Some r \<longrightarrow> r = fold warn (map warning (lostBy (baseBeats base) cs k)) (base k)))"

lemma claimInvI:
  assumes "gwf holders" and "gwf store" and "gget holders = settle (baseBeats base) Map.empty cs"
    and "\<And>s k. (s, k) \<in> set cs \<Longrightarrow> gget store k \<noteq> None"
    and "\<And>k r. gget store k = Some r \<Longrightarrow> r = fold warn (map warning (lostBy (baseBeats base) cs k)) (base k)"
  shows "claimInv warning base cs (holders, store)"
  using assms unfolding claimInv_def by auto

lemma claimInvD:
  assumes "claimInv warning base cs (holders, store)"
  shows "gwf holders" and "gwf store" and "gget holders = settle (baseBeats base) Map.empty cs"
    and "(s, k) \<in> set cs \<Longrightarrow> gget store k \<noteq> None"
    and "gget store k = Some r \<Longrightarrow> r = fold warn (map warning (lostBy (baseBeats base) cs k)) (base k)"
  using assms unfolding claimInv_def by auto

lemma claimInv_empty [simp]: "claimInv warning base [] ([], [])"
  by (rule claimInvI) auto

lemma claimInv_register:
  assumes inv: "claimInv warning base cs (holders, store)" and "gget store key = None" and "base key = r"
  shows "claimInv warning base cs (holders, gput store key r)"
proof (rule claimInvI)
  have "key \<notin> snd ` set cs"
    using claimInvD(4) [OF inv] assms(2) by force
  note lost = lostBy_unclaimed [OF this]
  show "r' = fold warn (map warning (lostBy (baseBeats base) cs k)) (base k)" if "gget (gput store key r) k = Some r'" for k r'
    using that claimInvD(5) [OF inv, of k r'] lost assms(3) by (cases "k = key") auto
  show "gget (gput store key r) k \<noteq> None" if "(s, k) \<in> set cs" for s k
    using claimInvD(4) [OF inv that] by simp
qed (use claimInvD(1-3) [OF inv] in simp_all)

lemma claimInv_meta:
  assumes "claimInv warning base cs (holders, store)" and "gget store k \<noteq> None"
  shows "metaAt meta store k = meta (base k)"
proof -
  obtain r where "gget store k = Some r"
    using assms(2) by auto
  with claimInvD(5) [OF assms(1) this] show ?thesis
    by (simp add: metaAt_def meta_fold_warn)
qed

lemma claimInv_holder:
  assumes inv: "claimInv warning base cs (holders, store)" and "gget holders s = Some h"
  shows "gget store h \<noteq> None"
proof -
  have "(s, h) \<in> set cs"
    using assms(2) claimInvD(3) [OF inv] settle_claimed [of _ Map.empty cs s h] by auto
  then show ?thesis
    by (rule claimInvD(4) [OF inv])
qed

lemma claimInv_claim_free:
  assumes inv: "claimInv warning base cs (holders, store)" and key: "gget store key \<noteq> None"
    and free: "gget holders s = None"
  shows "claimInv warning base (cs @ [(s, key)]) (gput holders s key, store)"
proof (rule claimInvI)
  have free': "settle (baseBeats base) Map.empty cs s = None"
    using free claimInvD(3) [OF inv] by simp
  show "gget (gput holders s key) = settle (baseBeats base) Map.empty (cs @ [(s, key)])"
    using free' claimInvD(3) [OF inv] by (auto simp: settle_append settleStep_def fun_eq_iff)
  show "r = fold warn (map warning (lostBy (baseBeats base) (cs @ [(s, key)]) k)) (base k)" if "gget store k = Some r" for k r
    using claimInvD(5) [OF inv that] free' by (simp add: lostBy_snoc)
  show "gget store k \<noteq> None" if "(t, k) \<in> set (cs @ [(s, key)])" for t k
    using that key claimInvD(4) [OF inv] by auto
qed (use claimInvD(1,2) [OF inv] in simp_all)

lemma claimInv_claim_held:
  assumes inv: "claimInv warning base cs (holders, store)" and key: "gget store key \<noteq> None"
    and held: "gget holders s = Some h"
  shows "claimInv warning base (cs @ [(s, key)])
    (if baseBeats base h key then holders else gput holders s key,
     warnAt warn (warning s) (if baseBeats base h key then key else h) store)"
    (is "claimInv _ _ _ (?H, warnAt warn _ ?loser _)")
proof (rule claimInvI)
  have held': "settle (baseBeats base) Map.empty cs s = Some h"
    using held claimInvD(3) [OF inv] by simp
  show "gget ?H = settle (baseBeats base) Map.empty (cs @ [(s, key)])"
    using held' claimInvD(3) [OF inv] by (auto simp: settle_append settleStep_def fun_eq_iff)
  have lost: "lostBy (baseBeats base) (cs @ [(s, key)]) k =
      lostBy (baseBeats base) cs k @ (if ?loser = k then [s] else [])" for k
    using held' by (simp add: lostBy_snoc)
  show "r = fold warn (map warning (lostBy (baseBeats base) (cs @ [(s, key)]) k)) (base k)"
    if get: "gget (warnAt warn (warning s) ?loser store) k = Some r" for k r
  proof -
    obtain r' where r': "gget store k = Some r'" "r = (if ?loser = k then warn (warning s) r' else r')"
      using get by (cases "?loser = k") auto
    have "fold warn (map warning (lostBy (baseBeats base) (cs @ [(s, key)]) k)) (base k) =
        (if ?loser = k then warn (warning s) r' else r')"
      unfolding lost claimInvD(5) [OF inv r'(1)] by simp
    with r'(2) show ?thesis by simp
  qed
  show "gget (warnAt warn (warning s) ?loser store) k \<noteq> None" if "(t, k) \<in> set (cs @ [(s, key)])" for t k
    using that key claimInvD(4) [OF inv] by auto
qed (use claimInvD(1,2) [OF inv] in simp_all)

lemma claimInv_claim:
  assumes inv: "claimInv warning base cs (holders, store)" and key: "gget store key \<noteq> None"
  shows "claimInv warning base (cs @ [(s, key)]) (claimSlot meta warn warning s key (holders, store))"
proof (cases "gget holders s")
  case None
  then show ?thesis
    using claimInv_claim_free [OF inv key None] by (simp add: claimSlot_def)
next
  case (Some h)
  have "metaAt meta store h = meta (base h)" "metaAt meta store key = meta (base key)"
    using claimInv_meta [OF inv] claimInv_holder [OF inv Some] key by auto
  then have "claimSlot meta warn warning s key (holders, store) =
      (if baseBeats base h key then holders else gput holders s key,
       warnAt warn (warning s) (if baseBeats base h key then key else h) store)"
    using Some by (simp add: claimSlot_def)
  with claimInv_claim_held [OF inv key Some] show ?thesis
    by (simp only:)
qed

text \<open>Several slots claimed by one resource.\<close>

lemma claimInv_claims:
  assumes "claimInv warning base cs st" and "gget (snd st) key \<noteq> None"
  shows "claimInv warning base (cs @ map (\<lambda>s. (s, key)) ss) (fold (\<lambda>s. claimSlot meta warn warning s key) ss st)"
  using assms
proof (induction ss arbitrary: cs st)
  case (Cons s ss)
  obtain holders store where st: "st = (holders, store)" by (cases st)
  have "claimInv warning base (cs @ [(s, key)]) (claimSlot meta warn warning s key st)"
    using Cons.prems claimInv_claim st by simp
  moreover from this have "gget (snd (claimSlot meta warn warning s key st)) key \<noteq> None"
    by (auto simp: claimInv_def)
  ultimately have "claimInv warning base ((cs @ [(s, key)]) @ map (\<lambda>s. (s, key)) ss)
      (fold (\<lambda>s. claimSlot meta warn warning s key) ss (claimSlot meta warn warning s key st))"
    by (rule Cons.IH)
  then show ?case by simp
qed simp

text \<open>What the holders resolve to.\<close>

lemma claimInv_resolve:
  assumes "claimInv warning base cs (holders, store)"
  shows "gget (resolve holders store) s =
    Option.bind (settle (baseBeats base) Map.empty cs s) (gget store)"
  using gget_resolve [OF claimInv_holder [OF assms] claimInvD(1) [OF assms]] claimInvD(3) [OF assms] by simp

end

interpretation resourceClaims: claimable GetObjectMeta AddWarning
  by unfold_locales simp

end
