(* ===== verification/Global_Configuration.thy ===== *)
theory Global_Configuration
  imports Ingress_Validation
begin

text \<open>
  The validation of the listeners of a GlobalConfiguration
  (\<^verbatim>\<open>pkg/apis/configuration/validation/globalconfiguration.go\<close>), which does not reject the resource
  but keeps its valid listeners. Parameters are what the code takes from libraries: the DNS label
  check of a name, the messages of \<^verbatim>\<open>IsValidPortNum\<close> and whether a text parses as an IPv4 or IPv6
  address.
\<close>

record listenerChecks =
  lk_name :: "string \<Rightarrow> segment list \<Rightarrow> fieldError list"
  lk_portMessages :: "int \<Rightarrow> string list"
  lk_isIPv4 :: "string \<Rightarrow> bool"
  lk_isIPv6 :: "string \<Rightarrow> bool"
  lk_forbiddenPorts :: "(int, bool) gomap"

section \<open>One listener\<close>

definition allowedProtocols :: "(string, bool) gomap" where
  "allowedProtocols = [(''TCP'', True), (''UDP'', True), (''HTTP'', True)]"

definition TLSPassthroughListenerName :: string where
  "TLSPassthroughListenerName = ''tls-passthrough''"

definition TLSPassthroughListenerProtocol :: string where
  "TLSPassthroughListenerProtocol = ''TLS_PASSTHROUGH''"

definition validateGlobalConfigurationListenerName ::
  "listenerChecks \<Rightarrow> string \<Rightarrow> segment list \<Rightarrow> fieldError list" where
  "validateGlobalConfigurationListenerName chk name fieldPath =
     (if name = TLSPassthroughListenerName then [FieldError ErrForbidden fieldPath] else lk_name chk name fieldPath)"

definition validateListenerPort :: "listenerChecks \<Rightarrow> int \<Rightarrow> segment list \<Rightarrow> fieldError list" where
  "validateListenerPort chk port fieldPath =
     (if gget (lk_forbiddenPorts chk) port = Some True then [FieldError ErrForbidden fieldPath]
      else map (\<lambda>_. FieldError ErrInvalid fieldPath) (lk_portMessages chk port))"

definition validateListenerProtocol :: "string \<Rightarrow> segment list \<Rightarrow> fieldError list" where
  "validateListenerProtocol protocol fieldPath =
     (if gget allowedProtocols protocol = Some True then [] else [FieldError ErrInvalid fieldPath])"

definition validateListenerIPv4 :: "listenerChecks \<Rightarrow> string \<Rightarrow> segment list \<Rightarrow> fieldError list" where
  "validateListenerIPv4 chk ipv4 fieldPath =
     (if ipv4 = [] then [] else if lk_isIPv4 chk ipv4 then [] else [FieldError ErrInvalid fieldPath])"

definition validateListenerIPv6 :: "listenerChecks \<Rightarrow> string \<Rightarrow> segment list \<Rightarrow> fieldError list" where
  "validateListenerIPv6 chk ipv6 fieldPath =
     (if ipv6 = [] then [] else if lk_isIPv6 chk ipv6 then [] else [FieldError ErrInvalid fieldPath])"

definition validateListener :: "listenerChecks \<Rightarrow> Listener \<Rightarrow> segment list \<Rightarrow> fieldError list" where
  "validateListener chk l fieldPath =
     validateGlobalConfigurationListenerName chk (lst_Name l) (fieldPath @ [Child ''name'']) @
     validateListenerPort chk (lst_Port l) (fieldPath @ [Child ''port'']) @
     validateListenerProtocol (lst_Protocol l) (fieldPath @ [Child ''protocol'']) @
     validateListenerIPv4 chk (lst_IPv4 l) (fieldPath @ [Child ''ipv4'']) @
     validateListenerIPv6 chk (lst_IPv6 l) (fieldPath @ [Child ''ipv6''])"

section \<open>Addresses, ports and protocols\<close>

datatype ipType = ipv4 | ipv6

definition getIP :: "ipType \<Rightarrow> Listener \<Rightarrow> string" where
  "getIP t l =
     (if t = ipv4 then (if lst_IPv4 l = [] then ''0.0.0.0'' else lst_IPv4 l)
      else if lst_IPv6 l = [] then ''::'' else lst_IPv6 l)"

type_synonym combinations = "(string, (int, string list) gomap) gomap"

text \<open>Both functions create the inner map of an address before they read or write it.\<close>

definition portsOf :: "combinations \<Rightarrow> string \<Rightarrow> (int, string list) gomap" where
  "portsOf c ip = (case gget c ip of None \<Rightarrow> [] | Some m \<Rightarrow> m)"

definition protocolClash :: "string \<Rightarrow> string \<Rightarrow> bool" where
  "protocolClash protocol existing =
     (if protocol \<in> {''HTTP'', ''TCP''} then existing \<in> {''HTTP'', ''TCP''}
      else if protocol = ''UDP'' then existing = ''UDP''
      else False)"

definition checkIPPortProtocolConflicts ::
  "combinations \<Rightarrow> ipType \<Rightarrow> Listener \<Rightarrow> segment list \<Rightarrow> combinations \<times> fieldError option" where
  "checkIPPortProtocolConflicts c t l fieldPath =
     (let ip = getIP t l; c' = gput c ip (portsOf c ip)
      in (c', case gget (portsOf c' ip) (lst_Port l) of
                None \<Rightarrow> None
              | Some existingProtocols \<Rightarrow>
                  if list_ex (protocolClash (lst_Protocol l)) existingProtocols
                  then Some (FieldError ErrInvalid (fieldPath @ [Child ''protocol''])) else None))"

definition updatePortProtocolCombinations :: "combinations \<Rightarrow> ipType \<Rightarrow> Listener \<Rightarrow> combinations" where
  "updatePortProtocolCombinations c t l =
     (let ip = getIP t l; ports = portsOf c ip;
          protocols = (case gget ports (lst_Port l) of None \<Rightarrow> [] | Some ps \<Rightarrow> ps)
      in gput c ip (gput ports (lst_Port l) (protocols @ [lst_Protocol l])))"

section \<open>The valid listeners\<close>

record listenerState =
  lsn_names :: "string list"
  lsn_ipv4 :: combinations
  lsn_ipv6 :: combinations
  lsn_valid :: "Listener list"
  lsn_errs :: "fieldError list"

definition checkListener :: "listenerChecks \<Rightarrow> segment list \<Rightarrow> nat \<times> Listener \<Rightarrow> listenerState \<Rightarrow> listenerState" where
  "checkListener chk fieldPath il st =
     (case il of (i, l) \<Rightarrow>
        let idxPath = fieldPath @ [Index i]; listenerErrs = validateListener chk l idxPath
        in if listenerErrs \<noteq> [] then st\<lparr>lsn_errs := lsn_errs st @ listenerErrs\<rparr>
           else if lst_Name l \<in> set (lsn_names st) then
             st\<lparr>lsn_errs := lsn_errs st @ [FieldError ErrDuplicate (idxPath @ [Child ''name''])]\<rparr>
           else
             (let st1 = st\<lparr>lsn_names := lst_Name l # lsn_names st\<rparr>;
                  (c4, err4) = checkIPPortProtocolConflicts (lsn_ipv4 st1) ipv4 l fieldPath;
                  st2 = st1\<lparr>lsn_ipv4 := c4\<rparr>
              in case err4 of
                   Some e \<Rightarrow> st2\<lparr>lsn_errs := lsn_errs st2 @ [e],
                                  lsn_ipv4 := updatePortProtocolCombinations c4 ipv4 l\<rparr>
                 | None \<Rightarrow>
                     (let (c6, err6) = checkIPPortProtocolConflicts (lsn_ipv6 st2) ipv6 l fieldPath;
                          st3 = st2\<lparr>lsn_ipv6 := c6\<rparr>
                      in case err6 of
                           Some e \<Rightarrow> st3\<lparr>lsn_errs := lsn_errs st3 @ [e],
                                          lsn_ipv6 := updatePortProtocolCombinations c6 ipv6 l\<rparr>
                         | None \<Rightarrow>
                             st3\<lparr>lsn_ipv4 := updatePortProtocolCombinations c4 ipv4 l,
                                 lsn_ipv6 := updatePortProtocolCombinations c6 ipv6 l,
                                 lsn_valid := lsn_valid st3 @ [l]\<rparr>)))"

definition getValidListeners :: "listenerChecks \<Rightarrow> Listener list \<Rightarrow> segment list \<Rightarrow> Listener list \<times> fieldError list" where
  "getValidListeners chk listeners fieldPath =
     (let st = fold (checkListener chk fieldPath) (enumerate 0 listeners)
        \<lparr>lsn_names = [], lsn_ipv4 = [], lsn_ipv6 = [], lsn_valid = [], lsn_errs = []\<rparr>
      in (lsn_valid st, lsn_errs st))"

text \<open>The listeners of the resource are replaced by the valid ones; the errors are only reported.\<close>

definition validateGlobalConfigurationSpec ::
  "listenerChecks \<Rightarrow> GlobalConfigurationSpec \<Rightarrow> segment list \<Rightarrow> GlobalConfigurationSpec \<times> fieldError list" where
  "validateGlobalConfigurationSpec chk spec fieldPath =
     (let (validListeners, err) = getValidListeners chk (gcs_Listeners spec) (fieldPath @ [Child ''listeners''])
      in (spec\<lparr>gcs_Listeners := validListeners\<rparr>, err))"

definition ValidateGlobalConfiguration ::
  "listenerChecks \<Rightarrow> GlobalConfiguration \<Rightarrow> GlobalConfiguration \<times> fieldError list" where
  "ValidateGlobalConfiguration chk gc =
     (let (spec, errs) = validateGlobalConfigurationSpec chk (gc_Spec gc) [Child ''spec'']
      in (gc\<lparr>gc_Spec := spec\<rparr>, errs))"

section \<open>Accepted listeners do not conflict\<close>

text \<open>Two listeners that NGINX could not open both: same address, same port, same transport.\<close>

definition conflict :: "ipType \<Rightarrow> Listener \<Rightarrow> Listener \<Rightarrow> bool" where
  "conflict t l l' = (getIP t l = getIP t l' \<and> lst_Port l = lst_Port l' \<and> protocolClash (lst_Protocol l') (lst_Protocol l))"

definition compatible :: "Listener \<Rightarrow> Listener \<Rightarrow> bool" where
  "compatible l l' = (lst_Name l \<noteq> lst_Name l' \<and> \<not> conflict ipv4 l l' \<and> \<not> conflict ipv6 l l')"

lemma protocolClash_sym: "protocolClash p q \<longleftrightarrow> protocolClash q p"
  by (auto simp: protocolClash_def)

lemma compatible_sym: "compatible l l' \<longleftrightarrow> compatible l' l"
  using protocolClash_sym by (auto simp: compatible_def conflict_def)

text \<open>The protocols that the table has for an address and a port.\<close>

definition protocolsAt :: "combinations \<Rightarrow> string \<Rightarrow> int \<Rightarrow> string list" where
  "protocolsAt c ip port = (case gget (portsOf c ip) port of None \<Rightarrow> [] | Some ps \<Rightarrow> ps)"

lemma portsOf_gput: "portsOf (gput c ip m) ip' = (if ip' = ip then m else portsOf c ip')"
  by (simp add: portsOf_def)

lemma checkConflicts_fst [simp]: "protocolsAt (fst (checkIPPortProtocolConflicts c t l fp)) = protocolsAt c"
  by (intro ext) (simp add: checkIPPortProtocolConflicts_def Let_def protocolsAt_def portsOf_gput)

lemma checkConflicts_snd:
  "snd (checkIPPortProtocolConflicts c t l fp) = None \<longleftrightarrow>
   (\<forall>p \<in> set (protocolsAt c (getIP t l) (lst_Port l)). \<not> protocolClash (lst_Protocol l) p)"
  by (auto simp: checkIPPortProtocolConflicts_def Let_def protocolsAt_def portsOf_gput list_ex_iff split: option.splits)

lemma protocolsAt_update:
  "protocolsAt (updatePortProtocolCombinations c t l) ip port =
   protocolsAt c ip port @ (if ip = getIP t l \<and> port = lst_Port l then [lst_Protocol l] else [])"
  by (auto simp: updatePortProtocolCombinations_def Let_def protocolsAt_def portsOf_gput)

text \<open>The tables hold at least what the accepted listeners use.\<close>

definition covers :: "combinations \<Rightarrow> ipType \<Rightarrow> Listener \<Rightarrow> bool" where
  "covers c t l = (lst_Protocol l \<in> set (protocolsAt c (getIP t l) (lst_Port l)))"

lemma covers_update: "covers c t l \<Longrightarrow> covers (updatePortProtocolCombinations c t' l') t l"
  by (simp add: covers_def protocolsAt_update)

lemma covers_update_same: "covers (updatePortProtocolCombinations c t l) t l"
  by (simp add: covers_def protocolsAt_update)

lemma covers_check [simp]: "covers (fst (checkIPPortProtocolConflicts c t' l' fp)) t l = covers c t l"
  by (simp add: covers_def)

lemma covers_no_conflict:
  "snd (checkIPPortProtocolConflicts c t l' fp) = None \<Longrightarrow> covers c t l \<Longrightarrow> \<not> conflict t l l'"
  by (auto simp: checkConflicts_snd covers_def conflict_def)

text \<open>The five outcomes of one iteration.\<close>

lemma checkListener_invalid:
  "validateListener chk l (fieldPath @ [Index i]) \<noteq> [] \<Longrightarrow>
   checkListener chk fieldPath (i, l) st = st\<lparr>lsn_errs := lsn_errs st @ validateListener chk l (fieldPath @ [Index i])\<rparr>"
  by (simp add: checkListener_def Let_def)

lemma checkListener_duplicate:
  "validateListener chk l (fieldPath @ [Index i]) = [] \<Longrightarrow> lst_Name l \<in> set (lsn_names st) \<Longrightarrow>
   checkListener chk fieldPath (i, l) st =
     st\<lparr>lsn_errs := lsn_errs st @ [FieldError ErrDuplicate (fieldPath @ [Index i, Child ''name''])]\<rparr>"
  by (simp add: checkListener_def Let_def)

lemma checkListener_conflict4:
  assumes "validateListener chk l (fieldPath @ [Index i]) = []" and "lst_Name l \<notin> set (lsn_names st)"
    and "checkIPPortProtocolConflicts (lsn_ipv4 st) ipv4 l fieldPath = (c4, Some e)"
  shows "checkListener chk fieldPath (i, l) st =
     st\<lparr>lsn_names := lst_Name l # lsn_names st, lsn_errs := lsn_errs st @ [e],
        lsn_ipv4 := updatePortProtocolCombinations c4 ipv4 l\<rparr>"
  using assms by (simp add: checkListener_def Let_def)

lemma checkListener_conflict6:
  assumes "validateListener chk l (fieldPath @ [Index i]) = []" and "lst_Name l \<notin> set (lsn_names st)"
    and "checkIPPortProtocolConflicts (lsn_ipv4 st) ipv4 l fieldPath = (c4, None)"
    and "checkIPPortProtocolConflicts (lsn_ipv6 st) ipv6 l fieldPath = (c6, Some e)"
  shows "checkListener chk fieldPath (i, l) st =
     st\<lparr>lsn_names := lst_Name l # lsn_names st, lsn_errs := lsn_errs st @ [e], lsn_ipv4 := c4,
        lsn_ipv6 := updatePortProtocolCombinations c6 ipv6 l\<rparr>"
  using assms by (simp add: checkListener_def Let_def)

lemma checkListener_accept:
  assumes "validateListener chk l (fieldPath @ [Index i]) = []" and "lst_Name l \<notin> set (lsn_names st)"
    and "checkIPPortProtocolConflicts (lsn_ipv4 st) ipv4 l fieldPath = (c4, None)"
    and "checkIPPortProtocolConflicts (lsn_ipv6 st) ipv6 l fieldPath = (c6, None)"
  shows "checkListener chk fieldPath (i, l) st =
     st\<lparr>lsn_names := lst_Name l # lsn_names st, lsn_ipv4 := updatePortProtocolCombinations c4 ipv4 l,
        lsn_ipv6 := updatePortProtocolCombinations c6 ipv6 l, lsn_valid := lsn_valid st @ [l]\<rparr>"
  using assms by (simp add: checkListener_def Let_def)

lemma checkListener_cases [consumes 0, case_names invalid duplicate conflict4 conflict6 accept]:
  obtains "validateListener chk l (fieldPath @ [Index i]) \<noteq> []"
  | "validateListener chk l (fieldPath @ [Index i]) = []" "lst_Name l \<in> set (lsn_names st)"
  | c4 e where "validateListener chk l (fieldPath @ [Index i]) = []" "lst_Name l \<notin> set (lsn_names st)"
      "checkIPPortProtocolConflicts (lsn_ipv4 st) ipv4 l fieldPath = (c4, Some e)"
  | c4 c6 e where "validateListener chk l (fieldPath @ [Index i]) = []" "lst_Name l \<notin> set (lsn_names st)"
      "checkIPPortProtocolConflicts (lsn_ipv4 st) ipv4 l fieldPath = (c4, None)"
      "checkIPPortProtocolConflicts (lsn_ipv6 st) ipv6 l fieldPath = (c6, Some e)"
  | c4 c6 where "validateListener chk l (fieldPath @ [Index i]) = []" "lst_Name l \<notin> set (lsn_names st)"
      "checkIPPortProtocolConflicts (lsn_ipv4 st) ipv4 l fieldPath = (c4, None)"
      "checkIPPortProtocolConflicts (lsn_ipv6 st) ipv6 l fieldPath = (c6, None)"
  by (metis not_None_eq surj_pair)

text \<open>The invariant of the loop.\<close>

definition listenerInv :: "listenerState \<Rightarrow> bool" where
  "listenerInv st =
     (sorted_wrt compatible (lsn_valid st) \<and>
      (\<forall>l \<in> set (lsn_valid st). covers (lsn_ipv4 st) ipv4 l \<and> covers (lsn_ipv6 st) ipv6 l \<and>
         lst_Name l \<in> set (lsn_names st)))"

lemma covers_checked:
  "checkIPPortProtocolConflicts c t' l' fp = (c', e) \<Longrightarrow> covers c' t l = covers c t l"
  using covers_check [of c t' l' fp t l] by simp

lemma checkListener_inv:
  assumes "listenerInv st"
  shows "listenerInv (checkListener chk fieldPath (i, l) st)"
proof (cases rule: checkListener_cases [where chk = chk and l = l and fieldPath = fieldPath and i = i and st = st])
  case invalid
  with assms show ?thesis by (simp add: checkListener_invalid listenerInv_def)
next
  case duplicate
  with assms show ?thesis by (simp add: checkListener_duplicate listenerInv_def)
next
  case (conflict4 c4 e)
  with assms show ?thesis
    by (simp add: checkListener_conflict4 listenerInv_def covers_update covers_checked [OF conflict4(3)])
next
  case (conflict6 c4 c6 e)
  with assms show ?thesis
    by (simp add: checkListener_conflict6 listenerInv_def covers_update covers_checked [OF conflict6(3)]
        covers_checked [OF conflict6(4)])
next
  case (accept c4 c6)
  have "compatible l' l" if "l' \<in> set (lsn_valid st)" for l'
    using that assms accept(2) covers_no_conflict [of "lsn_ipv4 st" ipv4 l fieldPath l']
      covers_no_conflict [of "lsn_ipv6 st" ipv6 l fieldPath l'] accept(3,4)
    by (auto simp: compatible_def listenerInv_def)
  with assms accept show ?thesis
    by (simp add: checkListener_accept listenerInv_def sorted_wrt_append covers_update covers_update_same
        covers_checked [OF accept(3)] covers_checked [OF accept(4)])
qed

text \<open>What the loop keeps is a subsequence of its input, and each listener in it is valid.\<close>

lemma checkListener_valid:
  "\<exists>ls. lsn_valid (checkListener chk fieldPath (i, l) st) = lsn_valid st @ ls \<and>
    (ls = [] \<or> ls = [l] \<and> validateListener chk l (fieldPath @ [Index i]) = [])"
proof (cases rule: checkListener_cases [where chk = chk and l = l and fieldPath = fieldPath and i = i and st = st])
  case invalid
  then show ?thesis by (simp add: checkListener_invalid)
next
  case duplicate
  then show ?thesis by (simp add: checkListener_duplicate)
next
  case (conflict4 c4 e)
  then show ?thesis by (simp add: checkListener_conflict4)
next
  case (conflict6 c4 c6 e)
  then show ?thesis by (simp add: checkListener_conflict6)
next
  case (accept c4 c6)
  then show ?thesis by (simp add: checkListener_accept)
qed

definition validSomewhere :: "listenerChecks \<Rightarrow> segment list \<Rightarrow> Listener \<Rightarrow> bool" where
  "validSomewhere chk fieldPath l = (\<exists>i. validateListener chk l (fieldPath @ [Index i]) = [])"

lemma fold_checkListener:
  assumes "listenerInv st"
  shows "listenerInv (fold (checkListener chk fieldPath) ils st) \<and>
    (\<exists>ls. lsn_valid (fold (checkListener chk fieldPath) ils st) = lsn_valid st @ ls \<and> subseq ls (map snd ils) \<and>
       list_all (validSomewhere chk fieldPath) ls)"
  using assms
proof (induction ils arbitrary: st)
  case (Cons il ils)
  obtain i l where il: "il = (i, l)" by (cases il)
  let ?st = "checkListener chk fieldPath (i, l) st"
  obtain ls1 where ls1: "lsn_valid ?st = lsn_valid st @ ls1" "ls1 = [] \<or> ls1 = [l] \<and> validSomewhere chk fieldPath l"
    using checkListener_valid [of chk fieldPath i l st] by (auto simp: validSomewhere_def)
  have inv: "listenerInv ?st"
    using Cons.prems by (rule checkListener_inv)
  obtain ls where ls: "lsn_valid (fold (checkListener chk fieldPath) ils ?st) = lsn_valid ?st @ ls"
    "subseq ls (map snd ils)" "list_all (validSomewhere chk fieldPath) ls"
    using Cons.IH [OF inv] by blast
  have "subseq (ls1 @ ls) (map snd (il # ils))"
    using ls1(2) ls(2) il by auto
  then show ?case
    using Cons.IH [OF inv] ls ls1 il by auto
qed simp

text \<open>Compatible listeners are all kept: the tables then hold exactly what the listeners so far use.\<close>

definition tableOf :: "ipType \<Rightarrow> Listener list \<Rightarrow> combinations \<Rightarrow> bool" where
  "tableOf t ls c =
     (\<forall>ip port p. p \<in> set (protocolsAt c ip port) \<longleftrightarrow>
        (\<exists>l \<in> set ls. getIP t l = ip \<and> lst_Port l = port \<and> lst_Protocol l = p))"

lemma tableOf_check: "checkIPPortProtocolConflicts c t l fp = (c', e) \<Longrightarrow> tableOf t' ls c' = tableOf t' ls c"
  using checkConflicts_fst [of c t l fp] by (simp add: tableOf_def)

lemma tableOf_update: "tableOf t ls c \<Longrightarrow> tableOf t (ls @ [l]) (updatePortProtocolCombinations c t l)"
  by (auto simp: tableOf_def protocolsAt_update)

lemma tableOf_no_conflict:
  assumes "tableOf t ls c" and "\<forall>l' \<in> set ls. \<not> conflict t l' l"
  shows "snd (checkIPPortProtocolConflicts c t l fp) = None"
  using assms unfolding checkConflicts_snd tableOf_def conflict_def by metis

lemma fold_checkListener_all:
  assumes "list_all (\<lambda>(i, l). validateListener chk l (fieldPath @ [Index i]) = []) ils"
    and "sorted_wrt compatible (lsn_valid st @ map snd ils)"
    and "set (lsn_names st) = lst_Name ` set (lsn_valid st)"
    and "tableOf ipv4 (lsn_valid st) (lsn_ipv4 st)" and "tableOf ipv6 (lsn_valid st) (lsn_ipv6 st)"
  shows "lsn_valid (fold (checkListener chk fieldPath) ils st) = lsn_valid st @ map snd ils \<and>
    lsn_errs (fold (checkListener chk fieldPath) ils st) = lsn_errs st"
  using assms
proof (induction ils arbitrary: st)
  case (Cons il ils)
  obtain i l where il: "il = (i, l)" by (cases il)
  have before: "\<forall>l' \<in> set (lsn_valid st). compatible l' l"
    using Cons.prems(2) il by (auto simp: sorted_wrt_append)
  then have name: "lst_Name l \<notin> set (lsn_names st)"
    using Cons.prems(3) by (auto simp: compatible_def)
  obtain c4 where c4: "checkIPPortProtocolConflicts (lsn_ipv4 st) ipv4 l fieldPath = (c4, None)"
    using tableOf_no_conflict [OF Cons.prems(4), of l fieldPath] before
    by (cases "checkIPPortProtocolConflicts (lsn_ipv4 st) ipv4 l fieldPath") (auto simp: compatible_def)
  obtain c6 where c6: "checkIPPortProtocolConflicts (lsn_ipv6 st) ipv6 l fieldPath = (c6, None)"
    using tableOf_no_conflict [OF Cons.prems(5), of l fieldPath] before
    by (cases "checkIPPortProtocolConflicts (lsn_ipv6 st) ipv6 l fieldPath") (auto simp: compatible_def)
  let ?st = "st\<lparr>lsn_names := lst_Name l # lsn_names st, lsn_ipv4 := updatePortProtocolCombinations c4 ipv4 l,
        lsn_ipv6 := updatePortProtocolCombinations c6 ipv6 l, lsn_valid := lsn_valid st @ [l]\<rparr>"
  have step: "checkListener chk fieldPath il st = ?st"
    unfolding il using Cons.prems(1) il name c4 c6 by (intro checkListener_accept) auto
  have "lsn_valid (fold (checkListener chk fieldPath) ils ?st) = lsn_valid ?st @ map snd ils \<and>
      lsn_errs (fold (checkListener chk fieldPath) ils ?st) = lsn_errs ?st"
    by (rule Cons.IH)
      (use Cons.prems il in \<open>simp_all add: tableOf_update tableOf_check [OF c4] tableOf_check [OF c6]\<close>)
  with step il show ?case by simp
qed simp

text \<open>
  C14. The listeners that are kept from a GlobalConfiguration are a subsequence of its listeners,
  each valid by itself, with pairwise different names and no two that use the same IPv4 or IPv6
  address, port and transport protocol; and if all listeners are valid and pairwise compatible in
  this sense, all are kept and no error is reported.
\<close>

theorem valid_listeners_compatible:
  "subseq (fst (getValidListeners chk ls fieldPath)) ls \<and>
   list_all (validSomewhere chk fieldPath) (fst (getValidListeners chk ls fieldPath)) \<and>
   sorted_wrt compatible (fst (getValidListeners chk ls fieldPath)) \<and>
   (list_all (\<lambda>(i, l). validateListener chk l (fieldPath @ [Index i]) = []) (enumerate 0 ls) \<and>
    sorted_wrt compatible ls \<longrightarrow> getValidListeners chk ls fieldPath = (ls, []))"
proof -
  let ?st0 = "\<lparr>lsn_names = [], lsn_ipv4 = [], lsn_ipv6 = [], lsn_valid = [], lsn_errs = []\<rparr>"
  have "listenerInv ?st0"
    by (simp add: listenerInv_def)
  from fold_checkListener [OF this, of chk fieldPath "enumerate 0 ls"]
  have "subseq (fst (getValidListeners chk ls fieldPath)) ls"
    and "list_all (validSomewhere chk fieldPath) (fst (getValidListeners chk ls fieldPath))"
    and "sorted_wrt compatible (fst (getValidListeners chk ls fieldPath))"
    by (auto simp: getValidListeners_def Let_def listenerInv_def)
  moreover have "tableOf t [] []" for t
    by (simp add: tableOf_def protocolsAt_def portsOf_def)
  then have "getValidListeners chk ls fieldPath = (ls, [])"
    if "list_all (\<lambda>(i, l). validateListener chk l (fieldPath @ [Index i]) = []) (enumerate 0 ls)"
      "sorted_wrt compatible ls"
    using fold_checkListener_all [OF that(1), of ?st0] that(2)
    by (simp add: getValidListeners_def Let_def)
  ultimately show ?thesis by blast
qed

text \<open>Library checks for the examples: names are not restricted, ports are 1 to 65535.\<close>

definition plainListenerChecks :: listenerChecks where
  "plainListenerChecks = \<lparr>lk_name = \<lambda>_ _. [],
     lk_portMessages = \<lambda>p. if 1 \<le> p \<and> p \<le> 65535 then [] else [''must be between 1 and 65535, inclusive''],
     lk_isIPv4 = \<lambda>s. CHR ''.'' \<in> set s, lk_isIPv6 = \<lambda>s. CHR '':'' \<in> set s, lk_forbiddenPorts = [(80, True)]\<rparr>"

definition dnsListener :: "string \<Rightarrow> string \<Rightarrow> Listener" where
  "dnsListener name protocol = \<lparr>lst_Name = name, lst_Protocol = protocol, lst_Port = 5353,
     lst_IPv4 = [], lst_IPv6 = [], lst_Ssl = False\<rparr>"

theorem valid_listeners_compatible_witness:
  "getValidListeners plainListenerChecks [dnsListener ''a'' ''TCP'', dnsListener ''b'' ''UDP''] [Child ''listeners''] =
     ([dnsListener ''a'' ''TCP'', dnsListener ''b'' ''UDP''], [])"
proof -
  have "list_all (\<lambda>(i, l). validateListener plainListenerChecks l ([Child ''listeners''] @ [Index i]) = [])
      (enumerate 0 [dnsListener ''a'' ''TCP'', dnsListener ''b'' ''UDP''])"
    by code_simp
  moreover have "sorted_wrt compatible [dnsListener ''a'' ''TCP'', dnsListener ''b'' ''UDP'']"
    by code_simp
  ultimately show ?thesis
    using valid_listeners_compatible [of plainListenerChecks "[dnsListener ''a'' ''TCP'', dnsListener ''b'' ''UDP'']"
        "[Child ''listeners'']"] by blast
qed

end
