(* ===== verification/Listeners.thy ===== *)
theory Listeners
  imports Claims Global_Configuration
begin

text \<open>
  Listeners and the TransportServers on them (\<^verbatim>\<open>internal/k8s/configuration.go\<close>): the map of the
  listeners of the GlobalConfiguration, the ports of a VirtualServer, and
  \<^verbatim>\<open>buildListenerHostsAndTSConfigurations\<close>, in which TransportServers compete for a listener and a
  host. The loop ranges over the map of TransportServers without sorting: it is a function of the
  list, and the characterisation of its result does not mention the order.
\<close>

section \<open>The map of listeners\<close>

definition setGlobalConfigListenerMap :: "GlobalConfiguration option \<Rightarrow> (string, Listener) gomap" where
  "setGlobalConfigListenerMap gc =
     (case gc of
        None \<Rightarrow> []
      | Some g \<Rightarrow> fold (\<lambda>l m. gput m (lst_Name l) l) (gc_Listeners g) [])"

definition isListenerInCorrectBlock :: "(string, Listener) gomap \<Rightarrow> string \<Rightarrow> bool \<Rightarrow> bool" where
  "isListenerInCorrectBlock listenerMap listenerName expectedSsl =
     (case gget listenerMap listenerName of
        None \<Rightarrow> True
      | Some l \<Rightarrow> lst_Ssl l = expectedSsl)"

definition assignListener ::
  "(string, Listener) gomap \<Rightarrow> string \<Rightarrow> bool \<Rightarrow> int \<times> string \<times> string \<Rightarrow> int \<times> string \<times> string" where
  "assignListener listenerMap listenerName isSSL old =
     (case gget listenerMap listenerName of
        None \<Rightarrow> old
      | Some l \<Rightarrow>
          if lst_Protocol l = ''HTTP'' \<and> lst_Ssl l = isSSL then (lst_Port l, lst_IPv4 l, lst_IPv6 l) else old)"

definition buildListenersForVSConfiguration ::
  "GlobalConfiguration option \<Rightarrow> (string, Listener) gomap \<Rightarrow> VirtualServerConfiguration \<Rightarrow> VirtualServerConfiguration" where
  "buildListenersForVSConfiguration gc listenerMap vsc =
     (case vss_Listener (vs_Spec (vsc_VirtualServer vsc)) of
        None \<Rightarrow> vsc
      | Some l \<Rightarrow>
          if gc = None then vsc
          else
            (let (p, i4, i6) = assignListener listenerMap (vsl_HTTP l) False
                   (vsc_HTTPPort vsc, vsc_HTTPIPv4 vsc, vsc_HTTPIPv6 vsc);
                 (sp, s4, s6) = assignListener listenerMap (vsl_HTTPS l) True
                   (vsc_HTTPSPort vsc, vsc_HTTPSIPv4 vsc, vsc_HTTPSIPv6 vsc)
             in vsc\<lparr>vsc_HTTPPort := p, vsc_HTTPIPv4 := i4, vsc_HTTPIPv6 := i6,
                    vsc_HTTPSPort := sp, vsc_HTTPSIPv4 := s4, vsc_HTTPSIPv6 := s6\<rparr>))"

lemma gget_fold_names:
  "gget (fold (\<lambda>l m. gput m (lst_Name l) l) ls m) n =
     (case find (\<lambda>l. lst_Name l = n) (rev ls) of None \<Rightarrow> gget m n | Some l \<Rightarrow> Some l)"
  by (induction ls arbitrary: m rule: rev_induct) auto

text \<open>With distinct names, which validated listeners have, a lookup finds the listener of that name.\<close>

lemma listenerMap_lookup:
  assumes "distinct (map lst_Name (gc_Listeners g))"
  shows "gget (setGlobalConfigListenerMap (Some g)) n = Some l \<longleftrightarrow> l \<in> set (gc_Listeners g) \<and> lst_Name l = n"
proof -
  have "find (\<lambda>l. lst_Name l = n) (rev (gc_Listeners g)) = Some l \<longleftrightarrow> l \<in> set (gc_Listeners g) \<and> lst_Name l = n"
  proof
    assume "l \<in> set (gc_Listeners g) \<and> lst_Name l = n"
    then obtain l' where "find (\<lambda>l. lst_Name l = n) (rev (gc_Listeners g)) = Some l'"
      by (cases "find (\<lambda>l. lst_Name l = n) (rev (gc_Listeners g))") (auto simp: find_None_iff)
    moreover from find_SomeD [OF this] have "l' = l"
      using assms \<open>l \<in> set (gc_Listeners g) \<and> lst_Name l = n\<close> by (auto simp: distinct_map inj_on_def)
    ultimately show "find (\<lambda>l. lst_Name l = n) (rev (gc_Listeners g)) = Some l" by simp
  qed (use find_SomeD [of "\<lambda>l. lst_Name l = n" "rev (gc_Listeners g)" l] in auto)
  then show ?thesis
    by (auto simp: setGlobalConfigListenerMap_def gget_fold_names split: option.splits)
qed

section \<open>TransportServers on listeners\<close>

datatype listenerHostKey = ListenerHostKey (lhk_ListenerName: string) (lhk_Host: string)

text \<open>\<^verbatim>\<open>String\<close>, which the sorting of the keys uses.\<close>

definition lhkString :: "listenerHostKey \<Rightarrow> string" where
  "lhkString k = lhk_ListenerName k @ ''|'' @ lhk_Host k"

definition tscMeta :: "TransportServerConfiguration \<Rightarrow> ObjectMeta" where
  "tscMeta tsc = ts_ObjectMeta (tsc_TransportServer tsc)"

definition tscAddWarning :: "string \<Rightarrow> TransportServerConfiguration \<Rightarrow> TransportServerConfiguration" where
  "tscAddWarning w tsc = tsc\<lparr>tsc_Warnings := tsc_Warnings tsc @ [w]\<rparr>"

interpretation tscClaims: claimable tscMeta tscAddWarning
  by unfold_locales (simp add: tscMeta_def tscAddWarning_def)

definition listenerWarning :: "listenerHostKey \<Rightarrow> string" where
  "listenerWarning k = ''listener '' @ lhk_ListenerName k @ '' and host '' @ lhk_Host k @ '' are taken by another resource''"

type_synonym tsClaims = "(listenerHostKey, string) gomap \<times> (string, TransportServerConfiguration) gomap"

definition findListener :: "GlobalConfiguration option \<Rightarrow> TransportServer \<Rightarrow> Listener option" where
  "findListener gc ts =
     (case gc of
        None \<Rightarrow> None
      | Some g \<Rightarrow> find (\<lambda>l. tsl_Name (ts_Listener ts) = lst_Name l \<and> tsl_Protocol (ts_Listener ts) = lst_Protocol l)
          (gc_Listeners g))"

definition addTransportServer :: "GlobalConfiguration option \<Rightarrow> string \<times> TransportServer \<Rightarrow> tsClaims \<Rightarrow> tsClaims" where
  "addTransportServer gc entry st =
     (case entry of (key, ts) \<Rightarrow> case st of (holders, store) \<Rightarrow>
        if tsl_Protocol (ts_Listener ts) = TLSPassthroughListenerProtocol then st
        else
          (let tsc = NewTransportServerConfiguration ts
           in case findListener gc ts of
                None \<Rightarrow> (holders, gput store key tsc)
              | Some l \<Rightarrow>
                  claimSlot tscMeta tscAddWarning listenerWarning
                    (ListenerHostKey (lst_Name l) (ts_Host ts)) key
                    (holders, gput store key (tsc\<lparr>tsc_ListenerPort := lst_Port l, tsc_IPv4 := lst_IPv4 l,
                       tsc_IPv6 := lst_IPv6 l\<rparr>))))"

definition buildListenerHostsAndTSConfigurations ::
  "GlobalConfiguration option \<Rightarrow> (string, TransportServer) gomap
    \<Rightarrow> (listenerHostKey, TransportServerConfiguration) gomap \<times> (string, TransportServerConfiguration) gomap" where
  "buildListenerHostsAndTSConfigurations gc transportServers =
     (let (holders, store) = fold (addTransportServer gc) transportServers ([], [])
      in (resolve holders store, store))"

section \<open>Who holds a listener\<close>

text \<open>The configuration of a TransportServer before contests, and the slot it claims.\<close>

definition tscOf :: "GlobalConfiguration option \<Rightarrow> TransportServer \<Rightarrow> TransportServerConfiguration" where
  "tscOf gc ts =
     (case findListener gc ts of
        None \<Rightarrow> NewTransportServerConfiguration ts
      | Some l \<Rightarrow> (NewTransportServerConfiguration ts)\<lparr>tsc_ListenerPort := lst_Port l, tsc_IPv4 := lst_IPv4 l,
                     tsc_IPv6 := lst_IPv6 l\<rparr>)"

definition onListener :: "TransportServer \<Rightarrow> bool" where
  "onListener ts = (tsl_Protocol (ts_Listener ts) \<noteq> TLSPassthroughListenerProtocol)"

definition slotOf :: "GlobalConfiguration option \<Rightarrow> TransportServer \<Rightarrow> listenerHostKey option" where
  "slotOf gc ts =
     (if onListener ts then map_option (\<lambda>l. ListenerHostKey (lst_Name l) (ts_Host ts)) (findListener gc ts) else None)"

definition tsSlots :: "GlobalConfiguration option \<Rightarrow> string \<times> TransportServer \<Rightarrow> (listenerHostKey \<times> string) list" where
  "tsSlots gc e = (case slotOf gc (snd e) of None \<Rightarrow> [] | Some s \<Rightarrow> [(s, fst e)])"

lemma tscMeta_tscOf [simp]: "tscMeta (tscOf gc ts) = ts_ObjectMeta ts"
  by (auto simp: tscMeta_def tscOf_def NewTransportServerConfiguration_def split: option.splits)

lemma addTransportServer_eq:
  "addTransportServer gc (key, ts) (holders, store) =
     (if onListener ts then
        (case slotOf gc ts of
           None \<Rightarrow> (holders, gput store key (tscOf gc ts))
         | Some s \<Rightarrow> claimSlot tscMeta tscAddWarning listenerWarning s key (holders, gput store key (tscOf gc ts)))
      else (holders, store))"
  by (auto simp: addTransportServer_def onListener_def slotOf_def tscOf_def Let_def split: option.splits)

lemma snd_claimSlot_keys: "gkeys (snd (claimSlot meta warn w s key st)) = gkeys (snd st)"
  by (cases st) (auto simp: claimSlot_def split: option.splits)

lemma addTransportServer_inv:
  assumes inv: "tscClaims.claimInv listenerWarning base cs st" and new: "gget (snd st) key = None"
    and base: "base key = tscOf gc ts"
  shows "tscClaims.claimInv listenerWarning base (cs @ tsSlots gc (key, ts)) (addTransportServer gc (key, ts) st)"
    and "set (gkeys (snd (addTransportServer gc (key, ts) st))) =
      set (gkeys (snd st)) \<union> (if onListener ts then {key} else {})"
proof -
  obtain holders store where st: "st = (holders, store)" by (cases st)
  have reg: "tscClaims.claimInv listenerWarning base cs (holders, gput store key (tscOf gc ts))"
    using tscClaims.claimInv_register [of listenerWarning base cs holders store key] inv new base st by simp
  show "tscClaims.claimInv listenerWarning base (cs @ tsSlots gc (key, ts)) (addTransportServer gc (key, ts) st)"
  proof (cases "slotOf gc ts")
    case None
    with reg inv st show ?thesis
      by (simp add: addTransportServer_eq tsSlots_def)
  next
    case (Some s)
    then have "onListener ts"
      by (simp add: slotOf_def split: if_splits)
    with Some tscClaims.claimInv_claim [OF reg, of key s] st show ?thesis
      by (simp add: addTransportServer_eq tsSlots_def)
  qed
  show "set (gkeys (snd (addTransportServer gc (key, ts) st))) =
      set (gkeys (snd st)) \<union> (if onListener ts then {key} else {})"
    using st new by (auto simp: addTransportServer_eq snd_claimSlot_keys gkeys_gput_new split: option.splits)
qed

text \<open>The whole loop, over a map whose keys are all different.\<close>

definition baseTS :: "GlobalConfiguration option \<Rightarrow> (string, TransportServer) gomap \<Rightarrow> string \<Rightarrow> TransportServerConfiguration" where
  "baseTS gc tss k = tscOf gc (case gget tss k of None \<Rightarrow> emptyTS | Some ts \<Rightarrow> ts)"

lemma fold_addTransportServer:
  assumes "tscClaims.claimInv listenerWarning base cs st" and "distinct (map fst es)"
    and "\<forall>(k, ts) \<in> set es. gget (snd st) k = None \<and> base k = tscOf gc ts"
  shows "tscClaims.claimInv listenerWarning base (cs @ concat (map (tsSlots gc) es)) (fold (addTransportServer gc) es st) \<and>
    set (gkeys (snd (fold (addTransportServer gc) es st))) =
      set (gkeys (snd st)) \<union> {k. \<exists>ts. (k, ts) \<in> set es \<and> onListener ts}"
  using assms
proof (induction es arbitrary: cs st)
  case (Cons e es)
  obtain k ts where e: "e = (k, ts)" by (cases e)
  let ?st = "addTransportServer gc (k, ts) st"
  have inv: "tscClaims.claimInv listenerWarning base (cs @ tsSlots gc e) ?st"
    and keys: "set (gkeys (snd ?st)) = set (gkeys (snd st)) \<union> (if onListener ts then {k} else {})"
    using addTransportServer_inv [OF Cons.prems(1), of k gc ts] Cons.prems(3) e by auto
  have "gget (snd ?st) k' = None \<and> base k' = tscOf gc ts'" if "(k', ts') \<in> set es" for k' ts'
  proof -
    have "k' \<noteq> k" "k' \<notin> set (gkeys (snd st))"
      using that Cons.prems(2,3) e by (force, auto simp: gkeys_gget)
    then have "k' \<notin> set (gkeys (snd ?st))"
      unfolding keys by auto
    then show ?thesis
      using that Cons.prems(3) e by (auto simp: gkeys_gget)
  qed
  then have "\<forall>(k', ts') \<in> set es. gget (snd ?st) k' = None \<and> base k' = tscOf gc ts'"
    by blast
  from Cons.IH [OF inv _ this] Cons.prems(2) e keys show ?case
    by auto
qed simp

lemma set_tsSlots:
  "gwf tss \<Longrightarrow> (s, k) \<in> set (concat (map (tsSlots gc) tss)) \<longleftrightarrow> (\<exists>ts. gget tss k = Some ts \<and> slotOf gc ts = Some s)"
  by (force simp: tsSlots_def gget_iff split: option.splits)

lemma distinct_tsSlots: "gwf tss \<Longrightarrow> distinct (map snd (concat (map (tsSlots gc) tss)))"
proof (induction tss)
  case (Cons e tss)
  have "fst e \<notin> snd ` set (concat (map (tsSlots gc) tss))"
    using Cons.prems by (force simp: gwf_def tsSlots_def split: option.splits)
  with Cons show ?case
    by (auto simp: gwf_def tsSlots_def split: option.splits)
qed simp

definition uniqueTSUIDs :: "(string, TransportServer) gomap \<Rightarrow> bool" where
  "uniqueTSUIDs tss =
     (\<forall>(k, ts) \<in> set tss. \<forall>(k', ts') \<in> set tss. UID (ts_ObjectMeta ts) = UID (ts_ObjectMeta ts') \<longrightarrow> k = k')"

lemma baseTS_eq: "gget tss k = Some ts \<Longrightarrow> baseTS gc tss k = tscOf gc ts"
  by (simp add: baseTS_def)

lemma uniqueTSUIDs_inj:
  assumes "gwf tss" and "uniqueTSUIDs tss"
  shows "inj_on (\<lambda>k. metaRank (tscMeta (baseTS gc tss k))) {k. (s, k) \<in> set (concat (map (tsSlots gc) tss))}"
proof (rule inj_onI)
  fix j k
  assume "j \<in> {k. (s, k) \<in> set (concat (map (tsSlots gc) tss))}" "k \<in> {k. (s, k) \<in> set (concat (map (tsSlots gc) tss))}"
    and eq: "metaRank (tscMeta (baseTS gc tss j)) = metaRank (tscMeta (baseTS gc tss k))"
  then obtain ts ts' where ts: "gget tss j = Some ts" "gget tss k = Some ts'"
    unfolding mem_Collect_eq set_tsSlots [OF assms(1)] by blast
  then have "UID (ts_ObjectMeta ts) = UID (ts_ObjectMeta ts')"
    using metaRank_UID [OF eq] by (simp add: baseTS_eq)
  with assms(2) ts show "j = k"
    by (auto simp: uniqueTSUIDs_def dest!: gget_memD)
qed

text \<open>The specification: the TransportServer under \<^verbatim>\<open>k\<close> wins over all others that claim the slot.\<close>

definition holdsListener ::
  "GlobalConfiguration option \<Rightarrow> (string, TransportServer) gomap \<Rightarrow> listenerHostKey \<Rightarrow> string \<Rightarrow> bool" where
  "holdsListener gc tss s k =
     (case gget tss k of
        None \<Rightarrow> False
      | Some ts \<Rightarrow> slotOf gc ts = Some s \<and>
          list_all (\<lambda>(k', ts'). slotOf gc ts' = Some s \<and> k' \<noteq> k \<longrightarrow>
            chooseObjectMetaWinner (ts_ObjectMeta ts) (ts_ObjectMeta ts')) tss)"

lemma holdsListener_best:
  assumes "gwf tss"
  shows "holdsListener gc tss s k \<longleftrightarrow>
    bestClaimant (tscClaims.baseBeats (baseTS gc tss)) (concat (map (tsSlots gc) tss)) s k"
proof -
  have "(\<forall>(t, a) \<in> set (concat (map (tsSlots gc) tss)). t = s \<longrightarrow> P a) \<longleftrightarrow>
      (\<forall>(a, ts') \<in> set tss. slotOf gc ts' = Some s \<longrightarrow> P a)" for P
    by (auto simp: tsSlots_def split: option.splits)
  then have best: "bestClaimant (tscClaims.baseBeats (baseTS gc tss)) (concat (map (tsSlots gc) tss)) s k \<longleftrightarrow>
      (\<exists>ts. gget tss k = Some ts \<and> slotOf gc ts = Some s) \<and>
      (\<forall>(a, ts') \<in> set tss. slotOf gc ts' = Some s \<longrightarrow> a = k \<or> tscClaims.baseBeats (baseTS gc tss) k a)"
    unfolding bestClaimant_def set_tsSlots [OF assms] by simp
  have meta: "tscMeta (baseTS gc tss a) = ts_ObjectMeta ts'" if "(a, ts') \<in> set tss" for a ts'
    using that assms by (simp add: baseTS_eq gget_memI)
  show ?thesis
  proof (cases "gget tss k")
    case None
    then show ?thesis
      unfolding best by (simp add: holdsListener_def)
  next
    case (Some ts)
    then have "tscMeta (baseTS gc tss k) = ts_ObjectMeta ts"
      by (simp add: baseTS_eq)
    with Some meta show ?thesis
      unfolding best by (force simp: holdsListener_def list_all_iff)
  qed
qed

lemma settle_tsSlots:
  assumes "gwf tss" and "uniqueTSUIDs tss"
  shows "settle (tscClaims.baseBeats (baseTS gc tss)) Map.empty (concat (map (tsSlots gc) tss)) s = Some k \<longleftrightarrow>
    holdsListener gc tss s k"
  unfolding holdsListener_best [OF assms(1)]
  by (rule keyed.settle_best [OF uniqueTSUIDs_inj [OF assms]])

lemma lostBy_tsSlots:
  assumes "gwf tss" and "uniqueTSUIDs tss" and "gget tss k = Some ts"
  shows "lostBy (tscClaims.baseBeats (baseTS gc tss)) (concat (map (tsSlots gc) tss)) k =
    (case slotOf gc ts of None \<Rightarrow> [] | Some s \<Rightarrow> if holdsListener gc tss s k then [] else [s])"
    (is "lostBy ?b ?cs k = _")
proof (cases "slotOf gc ts")
  case None
  then have "k \<notin> snd ` set ?cs"
    using assms(3) set_tsSlots [OF assms(1), of _ k gc] by (auto simp del: set_concat)
  with None show ?thesis by (simp add: lostBy_unclaimed)
next
  case (Some s)
  then have "(s, k) \<in> set ?cs"
    unfolding set_tsSlots [OF assms(1)] using assms(3) by blast
  from lostBy_single [OF distinct_tsSlots [OF assms(1)] this, of ?b] Some settle_tsSlots [OF assms(1,2)] show ?thesis
    by simp
qed

lemma buildListenerHosts_inv:
  assumes "gwf tss" and "fold (addTransportServer gc) tss ([], []) = (holders, store)"
  shows "tscClaims.claimInv listenerWarning (baseTS gc tss) (concat (map (tsSlots gc) tss)) (holders, store)"
    and "set (gkeys store) = {k. \<exists>ts. (k, ts) \<in> set tss \<and> onListener ts}"
proof -
  have start: "tscClaims.claimInv listenerWarning (baseTS gc tss) [] ([], [])"
    by simp
  have "\<forall>(k, ts) \<in> set tss. gget (snd ([] :: (listenerHostKey, string) gomap, [] :: (string, TransportServerConfiguration) gomap)) k = None \<and>
      baseTS gc tss k = tscOf gc ts"
    using assms(1) by (auto simp: baseTS_eq gget_memI)
  from fold_addTransportServer [OF start _ this] assms
  show "tscClaims.claimInv listenerWarning (baseTS gc tss) (concat (map (tsSlots gc) tss)) (holders, store)"
    and "set (gkeys store) = {k. \<exists>ts. (k, ts) \<in> set tss \<and> onListener ts}"
    by (simp_all add: gwf_def gkeys_def)
qed

text \<open>The configuration a TransportServer ends up with.\<close>

definition tsConfigOf ::
  "GlobalConfiguration option \<Rightarrow> (string, TransportServer) gomap \<Rightarrow> string \<Rightarrow> TransportServerConfiguration option" where
  "tsConfigOf gc tss k =
     (case gget tss k of
        None \<Rightarrow> None
      | Some ts \<Rightarrow>
          if \<not> onListener ts then None
          else Some (case slotOf gc ts of
                       None \<Rightarrow> tscOf gc ts
                     | Some s \<Rightarrow> if holdsListener gc tss s k then tscOf gc ts
                                 else tscAddWarning (listenerWarning s) (tscOf gc ts)))"

lemma buildListenerHosts_configs:
  assumes "gwf tss" and "uniqueTSUIDs tss" and "fold (addTransportServer gc) tss ([], []) = (holders, store)"
  shows "gget store k = tsConfigOf gc tss k"
proof (cases "\<exists>ts. gget tss k = Some ts \<and> onListener ts")
  case True
  then obtain ts where ts: "gget tss k = Some ts" "onListener ts" by blast
  then have "k \<in> set (gkeys store)"
    unfolding buildListenerHosts_inv(2) [OF assms(1,3)] using gget_memD by fast
  then obtain r where r: "gget store k = Some r"
    by (auto simp: gkeys_gget)
  from tscClaims.claimInvD(5) [OF buildListenerHosts_inv(1) [OF assms(1,3)] r] ts r show ?thesis
    by (auto simp: baseTS_eq lostBy_tsSlots [OF assms(1,2)] tsConfigOf_def split: option.splits)
next
  case False
  then have "k \<notin> set (gkeys store)"
    unfolding buildListenerHosts_inv(2) [OF assms(1,3)] using assms(1) by (auto simp: gget_memI)
  with False show ?thesis
    by (auto simp: gkeys_gget tsConfigOf_def split: option.splits)
qed

text \<open>
  C15. The TransportServers on listeners. For a map of TransportServers with distinct keys and UIDs,
  a listener and host is held by a configuration exactly when it is the one of the
  TransportServer that claims the slot and wins over every other claimant; and every
  TransportServer that is not for TLS passthrough has a configuration, with the port and addresses of its
  listener, and with one warning exactly when it claims a slot that another one holds. The
  statement does not mention the order in which the map is visited.
\<close>

theorem listener_hosts_spec:
  assumes "gwf tss" and "uniqueTSUIDs tss"
    and "buildListenerHostsAndTSConfigurations gc tss = (listenerHosts, tsConfigs)"
  shows "(gget listenerHosts s = Some tsc \<longleftrightarrow>
      (\<exists>k ts. gget tss k = Some ts \<and> holdsListener gc tss s k \<and> tsc = tscOf gc ts)) \<and>
    gget tsConfigs k = tsConfigOf gc tss k"
proof -
  obtain holders store where fold: "fold (addTransportServer gc) tss ([], []) = (holders, store)"
    by (cases "fold (addTransportServer gc) tss ([], [])")
  have res: "listenerHosts = resolve holders store" "tsConfigs = store"
    using assms(3) fold by (auto simp: buildListenerHostsAndTSConfigurations_def)
  note configs = buildListenerHosts_configs [OF assms(1,2) fold]
  have held: "gget store k = Some (tscOf gc ts)" if "holdsListener gc tss s k" "gget tss k = Some ts" for k ts
  proof -
    have "slotOf gc ts = Some s"
      using that by (simp add: holdsListener_def)
    moreover from this have "onListener ts"
      by (simp add: slotOf_def split: if_splits)
    ultimately show ?thesis
      using that unfolding configs by (simp add: tsConfigOf_def)
  qed
  have "gget listenerHosts s =
      Option.bind (settle (tscClaims.baseBeats (baseTS gc tss)) Map.empty (concat (map (tsSlots gc) tss)) s) (gget store)"
    unfolding res by (rule tscClaims.claimInv_resolve [OF buildListenerHosts_inv(1) [OF assms(1) fold]])
  then have "gget listenerHosts s = Some tsc \<longleftrightarrow> (\<exists>k. holdsListener gc tss s k \<and> gget store k = Some tsc)"
    unfolding settle_tsSlots [OF assms(1,2), symmetric] by (simp add: bind_eq_Some_conv)
  moreover have "\<exists>ts. gget tss k = Some ts" if "holdsListener gc tss s k" for k
    using that by (auto simp: holdsListener_def split: option.splits)
  ultimately have "gget listenerHosts s = Some tsc \<longleftrightarrow>
      (\<exists>k ts. gget tss k = Some ts \<and> holdsListener gc tss s k \<and> tsc = tscOf gc ts)"
    using held by fastforce
  with configs res show ?thesis by simp
qed

text \<open>Two TransportServers on the DNS listener; the older one holds it, the other one is warned.\<close>

definition dnsConfiguration :: GlobalConfiguration where
  "dnsConfiguration = \<lparr>gc_ObjectMeta = emptyMeta, gc_Spec = \<lparr>gcs_Listeners = [dnsListener ''dns'' ''UDP'']\<rparr>\<rparr>"

definition dnsServer :: "string \<Rightarrow> int \<Rightarrow> TransportServer" where
  "dnsServer name created = emptyTS
     \<lparr>ts_ObjectMeta := emptyMeta\<lparr>Namespace := ''d'', Name := name, UID := name, CreationTimestamp := created\<rparr>,
      ts_Spec := (ts_Spec emptyTS)\<lparr>tss_Listener := \<lparr>tsl_Name = ''dns'', tsl_Protocol = ''UDP''\<rparr>\<rparr>\<rparr>"

definition dnsServers :: "(string, TransportServer) gomap" where
  "dnsServers = [(''d/new'', dnsServer ''new'' 7), (''d/old'', dnsServer ''old'' 3)]"

theorem listener_hosts_spec_witness:
  "gget (snd (buildListenerHostsAndTSConfigurations (Some dnsConfiguration) dnsServers)) ''d/new'' =
     Some (tscAddWarning ''listener dns and host  are taken by another resource'' (tscOf (Some dnsConfiguration) (dnsServer ''new'' 7)))"
proof -
  obtain lhs tscs where res: "buildListenerHostsAndTSConfigurations (Some dnsConfiguration) dnsServers = (lhs, tscs)"
    by (cases "buildListenerHostsAndTSConfigurations (Some dnsConfiguration) dnsServers")
  have "gwf dnsServers" "uniqueTSUIDs dnsServers"
    by (auto simp: gwf_def dnsServers_def uniqueTSUIDs_def dnsServer_def)
  from listener_hosts_spec [OF this res, of _ _ "''d/new''"] res
  have "gget (snd (buildListenerHostsAndTSConfigurations (Some dnsConfiguration) dnsServers)) ''d/new'' =
      tsConfigOf (Some dnsConfiguration) dnsServers ''d/new''"
    by simp
  also have "\<dots> = Some (tscAddWarning ''listener dns and host  are taken by another resource''
      (tscOf (Some dnsConfiguration) (dnsServer ''new'' 7)))"
    by code_simp
  finally show ?thesis .
qed

end
