(* ===== verification/Hosts.thy ===== *)
theory Hosts
  imports Minions VS_Routes Listeners
begin

text \<open>
  The state of the \<^verbatim>\<open>Configuration\<close> of \<^verbatim>\<open>internal/k8s/configuration.go\<close> and
  \<^verbatim>\<open>buildHostsAndResources\<close>: Ingresses, VirtualServers and TLS passthrough TransportServers
  compete for hosts. In the code \<^verbatim>\<open>newHosts\<close> and \<^verbatim>\<open>newResources\<close> share pointers; here
  \<^verbatim>\<open>newHosts\<close> holds the key of a resource in \<^verbatim>\<open>newResources\<close> until the rebuild is done.

  The validators that need no code of the \<^verbatim>\<open>Configuration\<close>, the check of the Ingress class and the
  label selectors of Kubernetes are the parameters of \<^verbatim>\<open>configEnv\<close>.
\<close>

section \<open>The state\<close>

text \<open>
  Of the flags only those are kept that the modelled operations read; the others go into the
  parameter for the annotation checks.
\<close>

record Configuration =
  cfg_hosts :: "(string, Resource) gomap"
  cfg_listenerHosts :: "(listenerHostKey, TransportServerConfiguration) gomap"
  cfg_listenerMap :: "(string, Listener) gomap"
  cfg_ingresses :: "(string, Ingress) gomap"
  cfg_virtualServers :: "(string, VirtualServer) gomap"
  cfg_virtualServerRoutes :: "(string, VirtualServerRoute) gomap"
  cfg_transportServers :: "(string, TransportServer) gomap"
  cfg_minionsByHost :: minionIndex
  cfg_globalConfiguration :: "GlobalConfiguration option"
  cfg_hostProblems :: "(string, ConfigurationProblem) gomap"
  cfg_listenerProblems :: "(string, ConfigurationProblem) gomap"
  cfg_policyServices :: "(string, string) gomap"
  cfg_isPlus :: bool
  cfg_isTLSPassthroughEnabled :: bool
  cfg_isCertManagerEnabled :: bool
  cfg_isDirectiveAutoadjustEnabled :: bool
  cfg_allowEmptyIngressHost :: bool
  cfg_startupComplete :: bool

text \<open>\<^verbatim>\<open>NewConfiguration\<close>: all maps are empty and startup is not complete.\<close>

definition NewConfiguration :: "bool \<Rightarrow> bool \<Rightarrow> bool \<Rightarrow> bool \<Rightarrow> bool \<Rightarrow> Configuration" where
  "NewConfiguration isPlus isTLSPassthroughEnabled isCertManagerEnabled isDirectiveAutoadjustEnabled allowEmptyIngressHost =
     \<lparr>cfg_hosts = [], cfg_listenerHosts = [], cfg_listenerMap = [], cfg_ingresses = [],
      cfg_virtualServers = [], cfg_virtualServerRoutes = [], cfg_transportServers = [],
      cfg_minionsByHost = [], cfg_globalConfiguration = None, cfg_hostProblems = [],
      cfg_listenerProblems = [], cfg_policyServices = [], cfg_isPlus = isPlus,
      cfg_isTLSPassthroughEnabled = isTLSPassthroughEnabled, cfg_isCertManagerEnabled = isCertManagerEnabled,
      cfg_isDirectiveAutoadjustEnabled = isDirectiveAutoadjustEnabled,
      cfg_allowEmptyIngressHost = allowEmptyIngressHost, cfg_startupComplete = False\<rparr>"

text \<open>The values of a map in the order of its sorted keys.\<close>

definition sortedValues :: "('k::linorder, 'v) gomap \<Rightarrow> 'v list" where
  "sortedValues m = List.map_filter (gget m) (sortedKeys m)"

section \<open>Challenge Ingresses\<close>

definition isChallengeIngressFor :: "Configuration \<Rightarrow> Ingress \<Rightarrow> bool" where
  "isChallengeIngressFor c ing =
     (if \<not> cfg_isCertManagerEnabled c then False
      else gget (Labels (ing_ObjectMeta ing)) ''acme.cert-manager.io/http01-solver'' = Some ''true'')"

definition isChallengeIngressOwnerVs :: "Configuration \<Rightarrow> string \<Rightarrow> bool" where
  "isChallengeIngressOwnerVs c host =
     list_ex (\<lambda>vs. host = vs_Host vs) (sortedValues (cfg_virtualServers c))"

text \<open>The outer option is a panic, the inner one the nil result.\<close>

definition convertIngressToVSR :: "Configuration \<Rightarrow> Ingress \<Rightarrow> VirtualServerRoute option option" where
  "convertIngressToVSR c ing =
     (case ing_Rules ing of
        [] \<Rightarrow> None
      | rule # _ \<Rightarrow>
          if \<not> isChallengeIngressOwnerVs c (rule_Host rule) then Some None
          else
            (case rule_HTTP rule of
               Some (p # _) \<Rightarrow>
                 (case be_Service (hip_Backend p) of
                    None \<Rightarrow> None
                  | Some svc \<Rightarrow>
                      Some (Some (emptyVSR
                        \<lparr>vsr_ObjectMeta := emptyMeta\<lparr>Namespace := Namespace (ing_ObjectMeta ing), Name := Name (ing_ObjectMeta ing)\<rparr>,
                         vsr_Spec := (vsr_Spec emptyVSR)
                           \<lparr>vsrs_Host := rule_Host rule,
                            vsrs_Upstreams := [emptyUpstream\<lparr>up_Name := ''challenge'', up_Service := isb_Name svc,
                               up_Port := word_of_int (isb_PortNumber svc)\<rparr>],
                            vsrs_Subroutes := [emptyRoute\<lparr>route_Path := hip_Path p,
                               route_Action := Some \<lparr>act_Pass = ''challenge'', act_Redirect = None, act_Return = None, act_Proxy = None\<rparr>\<rparr>]\<rparr>\<rparr>)))
             | _ \<Rightarrow> None))"

section \<open>Claiming hosts\<close>

definition hostWarning :: "string \<Rightarrow> string" where
  "hostWarning host = ''host '' @ host @ '' is taken by another resource''"

type_synonym hostClaims = "(string, string) gomap \<times> (string, Resource) gomap"

definition claimHost :: "string \<Rightarrow> string \<Rightarrow> hostClaims \<Rightarrow> hostClaims" where
  "claimHost host key = claimSlot GetObjectMeta AddWarning hostWarning host key"

text \<open>A new resource: it is stored and claims its hosts in turn.\<close>

definition register :: "Resource \<times> string list \<Rightarrow> hostClaims \<Rightarrow> hostClaims" where
  "register rh st =
     (case rh of (r, hosts) \<Rightarrow> case st of (holders, store) \<Rightarrow>
        fold (\<lambda>h. claimHost h (GetKeyWithKind r)) hosts (holders, gput store (GetKeyWithKind r) r))"

text \<open>What becomes of an Ingress in the first step.\<close>

datatype ingressBuild = SkipMinion | Challenge VirtualServerRoute | Build IngressConfiguration

definition buildIngress :: "Configuration \<Rightarrow> Ingress \<Rightarrow> ingressBuild option" where
  "buildIngress c ing =
     (if isMinion ing then Some SkipMinion
      else
        (case (if isChallengeIngressFor c ing then convertIngressToVSR c ing else Some None) of
           None \<Rightarrow> None
         | Some (Some vsr) \<Rightarrow> Some (Challenge vsr)
         | Some None \<Rightarrow>
             if isMaster ing then
               (case ing_Rules ing of
                  [] \<Rightarrow> None
                | r # _ \<Rightarrow>
                    map_option (\<lambda>(minions, childWarnings). Build (NewMasterIngressConfiguration ing minions childWarnings))
                      (buildMinionConfigs (cfg_ingresses c) (cfg_minionsByHost c) (rule_Host r)))
             else Some (Build (NewRegularIngressConfiguration ing))))"

fun addIngresses :: "Configuration \<Rightarrow> Ingress list \<Rightarrow> hostClaims \<times> VirtualServerRoute list
    \<Rightarrow> (hostClaims \<times> VirtualServerRoute list) option" where
  "addIngresses c [] st = Some st"
| "addIngresses c (ing # ings) (st, challenges) =
     (case buildIngress c ing of
        None \<Rightarrow> None
      | Some SkipMinion \<Rightarrow> addIngresses c ings (st, challenges)
      | Some (Challenge vsr) \<Rightarrow> addIngresses c ings (st, challenges @ [vsr])
      | Some (Build ic) \<Rightarrow>
          addIngresses c ings (register (IngressRes ic, map rule_Host (ing_Rules ing)) st, challenges))"

definition buildVirtualServer ::
  "vsrEnv \<Rightarrow> Configuration \<Rightarrow> VirtualServerRoute list \<Rightarrow> VirtualServer \<Rightarrow> VirtualServerConfiguration" where
  "buildVirtualServer env c challenges vs =
     (let (vsrs, vsrSelectors, warnings) = buildVirtualServerRoutes env (cfg_virtualServerRoutes c) vs
      in buildListenersForVSConfiguration (cfg_globalConfiguration c) (cfg_listenerMap c)
           (NewVirtualServerConfiguration vs (vsrs @ filter (\<lambda>vsr. vs_Host vs = vsr_Host vsr) challenges)
              vsrSelectors warnings))"

definition addVirtualServer ::
  "vsrEnv \<Rightarrow> Configuration \<Rightarrow> VirtualServerRoute list \<Rightarrow> VirtualServer \<Rightarrow> hostClaims \<Rightarrow> hostClaims" where
  "addVirtualServer env c challenges vs =
     register (VirtualServerRes (buildVirtualServer env c challenges vs), [vs_Host vs])"

definition passthrough :: "TransportServer \<Rightarrow> bool" where
  "passthrough ts =
     (\<not> (tsl_Name (ts_Listener ts) \<noteq> TLSPassthroughListenerName \<and>
         tsl_Protocol (ts_Listener ts) \<noteq> TLSPassthroughListenerProtocol))"

definition addPassthrough :: "TransportServer \<Rightarrow> hostClaims \<Rightarrow> hostClaims" where
  "addPassthrough ts st =
     (if \<not> passthrough ts then st
      else register (TransportServerRes (NewTransportServerConfiguration ts), [ts_Host ts]) st)"

definition buildHostsAndResources :: "vsrEnv \<Rightarrow> Configuration \<Rightarrow> hostClaims option" where
  "buildHostsAndResources env c =
     (case addIngresses c (sortedValues (cfg_ingresses c)) (([], []), []) of
        None \<Rightarrow> None
      | Some (st1, challenges) \<Rightarrow>
          (let st2 = fold (addVirtualServer env c challenges) (sortedValues (cfg_virtualServers c)) st1
           in Some (if cfg_isTLSPassthroughEnabled c
                    then fold addPassthrough (sortedValues (cfg_transportServers c)) st2
                    else st2)))"

section \<open>Well-formed states\<close>

text \<open>The stores of objects: every object is under the key of its metadata.\<close>

definition keyedBy :: "('v \<Rightarrow> ObjectMeta) \<Rightarrow> (string, 'v) gomap \<Rightarrow> bool" where
  "keyedBy meta store = (gwf store \<and> list_all (\<lambda>(k, v). getResourceKey (meta v) = k) store)"

definition keyedStores :: "Configuration \<Rightarrow> bool" where
  "keyedStores c =
     (keyedBy ing_ObjectMeta (cfg_ingresses c) \<and> keyedBy vs_ObjectMeta (cfg_virtualServers c) \<and>
      keyedBy vsr_ObjectMeta (cfg_virtualServerRoutes c) \<and> keyedBy ts_ObjectMeta (cfg_transportServers c))"

text \<open>The Ingresses have passed validation, and the index of minions is the one of the stored Ingresses.\<close>

definition ingressesOk :: "Configuration \<Rightarrow> bool" where
  "ingressesOk c =
     ((\<forall>k ing. gget (cfg_ingresses c) k = Some ing \<longrightarrow> okIngress ing) \<and>
      indexInv (cfg_ingresses c) (cfg_minionsByHost c))"

definition configUIDs :: "Configuration \<Rightarrow> string list" where
  "configUIDs c =
     map (\<lambda>(k, ing). UID (ing_ObjectMeta ing)) (cfg_ingresses c) @
     map (\<lambda>(k, vs). UID (vs_ObjectMeta vs)) (cfg_virtualServers c) @
     map (\<lambda>(k, ts). UID (ts_ObjectMeta ts)) (cfg_transportServers c)"

lemma keyedBy_iff:
  "keyedBy meta store \<longleftrightarrow> gwf store \<and> (\<forall>k v. gget store k = Some v \<longrightarrow> getResourceKey (meta v) = k)"
  unfolding keyedBy_def list_all_iff using gget_iff [of store] by fastforce

lemma keyedByD: "keyedBy meta store \<Longrightarrow> gget store k = Some v \<Longrightarrow> getResourceKey (meta v) = k"
  by (simp add: keyedBy_iff)

lemma keyedBy_gput: "keyedBy meta store \<Longrightarrow> getResourceKey (meta v) = k \<Longrightarrow> keyedBy meta (gput store k v)"
  by (simp add: keyedBy_iff)

lemma keyedBy_gdel: "keyedBy meta store \<Longrightarrow> keyedBy meta (gdel store k)"
  by (simp add: keyedBy_iff)

lemma keyedBy_Nil [simp]: "keyedBy meta []"
  by (simp add: keyedBy_iff)

lemma set_mapFilter: "v \<in> set (List.map_filter f xs) \<longleftrightarrow> (\<exists>x \<in> set xs. f x = Some v)"
  by (induction xs) (auto simp: map_filter_simps split: option.splits)

lemma set_sortedValues: "v \<in> set (sortedValues m) \<longleftrightarrow> (\<exists>k. gget m k = Some v)"
  by (auto simp: sortedValues_def set_mapFilter gkeys_gget)

lemma keys_sortedValues:
  assumes "keyedBy meta m"
  shows "map (\<lambda>v. getResourceKey (meta v)) (sortedValues m) = sortedKeys m"
proof -
  have "map (\<lambda>v. getResourceKey (meta v)) (List.map_filter (gget m) ks) = ks" if "set ks \<subseteq> set (gkeys m)" for ks
    using that
  proof (induction ks)
    case (Cons k ks)
    then obtain v where "gget m k = Some v"
      by (auto simp: gkeys_gget)
    with Cons keyedByD [OF assms] show ?case
      by (simp add: map_filter_simps)
  qed (simp add: map_filter_simps)
  then show ?thesis
    by (simp add: sortedValues_def)
qed

section \<open>The registrations of a rebuild\<close>

text \<open>The hosts a resource claims.\<close>

fun hostsOf :: "Resource \<Rightarrow> string list" where
  "hostsOf (IngressRes ic) = map rule_Host (ing_Rules (ic_Ingress ic))"
| "hostsOf (VirtualServerRes vsc) = [vs_Host (vsc_VirtualServer vsc)]"
| "hostsOf (TransportServerRes tsc) = [ts_Host (tsc_TransportServer tsc)]"

fun ingressResources :: "Configuration \<Rightarrow> Ingress list \<Rightarrow> (Resource list \<times> VirtualServerRoute list) option" where
  "ingressResources c [] = Some ([], [])"
| "ingressResources c (ing # ings) =
     (case buildIngress c ing of
        None \<Rightarrow> None
      | Some SkipMinion \<Rightarrow> ingressResources c ings
      | Some (Challenge vsr) \<Rightarrow> map_option (\<lambda>(rs, vsrs). (rs, vsr # vsrs)) (ingressResources c ings)
      | Some (Build ic) \<Rightarrow> map_option (\<lambda>(rs, vsrs). (IngressRes ic # rs, vsrs)) (ingressResources c ings))"

text \<open>All resources of a rebuild as they are created, in the order of their creation.\<close>

definition createdResources :: "vsrEnv \<Rightarrow> Configuration \<Rightarrow> Resource list option" where
  "createdResources env c =
     map_option (\<lambda>(rs, challenges).
       rs @ map (\<lambda>vs. VirtualServerRes (buildVirtualServer env c challenges vs)) (sortedValues (cfg_virtualServers c)) @
       (if cfg_isTLSPassthroughEnabled c
        then map (\<lambda>ts. TransportServerRes (NewTransportServerConfiguration ts))
               (filter passthrough (sortedValues (cfg_transportServers c)))
        else []))
     (ingressResources c (sortedValues (cfg_ingresses c)))"

abbreviation registerAll :: "Resource list \<Rightarrow> hostClaims \<Rightarrow> hostClaims" where
  "registerAll rs \<equiv> fold (\<lambda>r. register (r, hostsOf r)) rs"

lemma vsc_VirtualServer_build [simp]: "vsc_VirtualServer (buildVirtualServer env c challenges vs) = vs"
  by (simp add: buildVirtualServer_def buildListenersForVSConfiguration_def NewVirtualServerConfiguration_def
      Let_def split: prod.splits option.splits)

lemma buildIngress_Ingress: "buildIngress c ing = Some (Build ic) \<Longrightarrow> ic_Ingress ic = ing"
  by (auto simp: buildIngress_def NewRegularIngressConfiguration_def NewMasterIngressConfiguration_def
      split: if_splits option.splits list.splits)

lemma addIngresses_created:
  "addIngresses c ings (st, challenges) =
     map_option (\<lambda>(rs, vsrs). (registerAll rs st, challenges @ vsrs)) (ingressResources c ings)"
proof (induction ings arbitrary: st challenges)
  case (Cons ing ings)
  then show ?case
    using buildIngress_Ingress [of c ing]
    by (cases "ingressResources c ings") (auto split: option.splits ingressBuild.splits)
qed simp

lemma fold_addPassthrough:
  "fold addPassthrough tss st =
   registerAll (map (\<lambda>ts. TransportServerRes (NewTransportServerConfiguration ts)) (filter passthrough tss)) st"
  by (induction tss arbitrary: st)
    (auto simp: addPassthrough_def NewTransportServerConfiguration_def)

lemma buildHostsAndResources_created:
  "buildHostsAndResources env c = map_option (\<lambda>rs. registerAll rs ([], [])) (createdResources env c)"
  by (auto simp: buildHostsAndResources_def createdResources_def addIngresses_created fold_addPassthrough
      addVirtualServer_def [abs_def] fold_map comp_def Let_def split: option.splits)

section \<open>Who holds a host\<close>

definition hostClaimsOf :: "Resource list \<Rightarrow> (string \<times> string) list" where
  "hostClaimsOf rs = concat (map (\<lambda>r. map (\<lambda>h. (h, GetKeyWithKind r)) (hostsOf r)) rs)"

definition baseResource :: "Resource list \<Rightarrow> string \<Rightarrow> Resource" where
  "baseResource rs k =
     (case map_of (map (\<lambda>r. (GetKeyWithKind r, r)) rs) k of
        None \<Rightarrow> IngressRes (NewRegularIngressConfiguration emptyIngress)
      | Some r \<Rightarrow> r)"

lemma baseResource_eq:
  assumes "distinct (map GetKeyWithKind rs)" and "r \<in> set rs"
  shows "baseResource rs (GetKeyWithKind r) = r"
proof -
  have "map_of (map (\<lambda>r. (GetKeyWithKind r, r)) rs) (GetKeyWithKind r) = Some r"
    using assms by (intro map_of_is_SomeI) (auto simp: comp_def)
  then show ?thesis
    by (simp add: baseResource_def)
qed

lemma set_hostClaimsOf:
  "(h, k) \<in> set (hostClaimsOf rs) \<longleftrightarrow> (\<exists>r \<in> set rs. GetKeyWithKind r = k \<and> h \<in> set (hostsOf r))"
  by (auto simp: hostClaimsOf_def)

lemma snd_claims_keys:
  "gkeys (snd (fold (\<lambda>s. claimSlot meta warn w s key) ss st)) = gkeys (snd st)"
  by (induction ss arbitrary: st) (simp_all add: snd_claimSlot_keys)

lemma register_inv:
  assumes inv: "resourceClaims.claimInv hostWarning base cs st" and new: "gget (snd st) (GetKeyWithKind r) = None"
    and base: "base (GetKeyWithKind r) = r"
  shows "resourceClaims.claimInv hostWarning base (cs @ map (\<lambda>h. (h, GetKeyWithKind r)) hs) (register (r, hs) st)"
    and "gkeys (snd (register (r, hs) st)) = gkeys (snd st) @ [GetKeyWithKind r]"
proof -
  obtain holders store where st: "st = (holders, store)" by (cases st)
  have reg: "resourceClaims.claimInv hostWarning base cs (holders, gput store (GetKeyWithKind r) r)"
    using resourceClaims.claimInv_register [of hostWarning base cs holders store "GetKeyWithKind r" r] inv new base st
    by simp
  from resourceClaims.claimInv_claims [OF reg, of "GetKeyWithKind r" hs]
  show "resourceClaims.claimInv hostWarning base (cs @ map (\<lambda>h. (h, GetKeyWithKind r)) hs) (register (r, hs) st)"
    by (simp add: register_def st claimHost_def)
  show "gkeys (snd (register (r, hs) st)) = gkeys (snd st) @ [GetKeyWithKind r]"
    using new by (simp add: register_def st claimHost_def snd_claims_keys gkeys_gput_new)
qed

lemma registerAll_inv:
  assumes "resourceClaims.claimInv hostWarning base cs st"
    and "distinct (gkeys (snd st) @ map GetKeyWithKind rs)"
    and "\<forall>r \<in> set rs. base (GetKeyWithKind r) = r"
  shows "resourceClaims.claimInv hostWarning base (cs @ hostClaimsOf rs) (registerAll rs st) \<and>
    gkeys (snd (registerAll rs st)) = gkeys (snd st) @ map GetKeyWithKind rs"
  using assms
proof (induction rs arbitrary: cs st)
  case Nil
  then show ?case
    by (simp add: hostClaimsOf_def)
next
  case (Cons r rs)
  have new: "gget (snd st) (GetKeyWithKind r) = None"
    using Cons.prems(2) gkeys_gget [of "GetKeyWithKind r" "snd st"] by (cases "gget (snd st) (GetKeyWithKind r)") auto
  have base: "base (GetKeyWithKind r) = r"
    using Cons.prems(3) by simp
  note step = register_inv [OF Cons.prems(1) new base, of "hostsOf r"]
  have "distinct (gkeys (snd (register (r, hostsOf r) st)) @ map GetKeyWithKind rs)"
    unfolding step(2) using Cons.prems(2) by auto
  from Cons.IH [OF step(1) this] Cons.prems(3) step(2) show ?case
    by (simp add: hostClaimsOf_def)
qed

text \<open>The keys of the created resources: one for each stored object, whatever its kind.\<close>

text \<open>The Ingresses from which a resource is built, a challenge or a minion.\<close>

lemma ingressResources_Cons:
  assumes "ingressResources c (ing # ings) = Some (rs, vsrs)"
  obtains ic rs' where "buildIngress c ing = Some (Build ic)" "ingressResources c ings = Some (rs', vsrs)"
      "rs = IngressRes ic # rs'"
    | vsrs' where "\<nexists>ic. buildIngress c ing = Some (Build ic)" "ingressResources c ings = Some (rs, vsrs')"
  using assms by (auto split: option.splits ingressBuild.splits)

lemma ingressResources_mem:
  assumes "ingressResources c ings = Some (rs, vsrs)" and "r \<in> set rs"
  shows "\<exists>ic. r = IngressRes ic \<and> ic_Ingress ic \<in> set ings \<and> buildIngress c (ic_Ingress ic) = Some (Build ic)"
  using assms
proof (induction ings arbitrary: rs vsrs)
  case (Cons ing ings)
  from Cons.prems(1) show ?case
  proof (cases rule: ingressResources_Cons)
    case (1 ic rs')
    with Cons.IH [OF 1(2)] Cons.prems(2) buildIngress_Ingress [OF 1(1)] show ?thesis
      by auto
  next
    case (2 vsrs')
    with Cons.IH [OF 2(2)] Cons.prems(2) show ?thesis
      by auto
  qed
qed simp

lemma ingressResources_keys:
  assumes "ingressResources c ings = Some (rs, vsrs)"
    and "distinct (map (\<lambda>ing. getResourceKey (ing_ObjectMeta ing)) ings)"
  shows "distinct (map GetKeyWithKind rs)"
  using assms
proof (induction ings arbitrary: rs vsrs)
  case (Cons ing ings)
  from Cons.prems(1) show ?case
  proof (cases rule: ingressResources_Cons)
    case (1 ic rs')
    have "GetKeyWithKind (IngressRes ic) \<noteq> GetKeyWithKind r" if r: "r \<in> set rs'" for r
    proof -
      obtain ic' where "r = IngressRes ic'" "ic_Ingress ic' \<in> set ings"
        using ingressResources_mem [OF 1(2) r] by blast
      with Cons.prems(2) buildIngress_Ingress [OF 1(1)] show ?thesis
        by (force simp: image_iff)
    qed
    then have "GetKeyWithKind (IngressRes ic) \<notin> GetKeyWithKind ` set rs'"
      by blast
    with Cons.IH [OF 1(2)] Cons.prems(2) 1(3) show ?thesis
      by (simp del: GetKeyWithKind.simps)
  next
    case (2 vsrs')
    with Cons.IH [OF 2(2)] Cons.prems(2) show ?thesis by simp
  qed
qed simp

lemma createdResources_parts:
  assumes "createdResources env c = Some rs"
  obtains rs1 challenges where "ingressResources c (sortedValues (cfg_ingresses c)) = Some (rs1, challenges)"
    "rs = rs1 @ map (\<lambda>vs. VirtualServerRes (buildVirtualServer env c challenges vs)) (sortedValues (cfg_virtualServers c)) @
       (if cfg_isTLSPassthroughEnabled c
        then map (\<lambda>ts. TransportServerRes (NewTransportServerConfiguration ts))
               (filter passthrough (sortedValues (cfg_transportServers c)))
        else [])"
  using assms by (auto simp: createdResources_def)

text \<open>Where a created resource comes from.\<close>

fun comesFrom :: "Configuration \<Rightarrow> Resource \<Rightarrow> bool" where
  "comesFrom c (IngressRes ic) =
     (\<exists>k. gget (cfg_ingresses c) k = Some (ic_Ingress ic) \<and> buildIngress c (ic_Ingress ic) = Some (Build ic))"
| "comesFrom c (VirtualServerRes vsc) = (\<exists>k. gget (cfg_virtualServers c) k = Some (vsc_VirtualServer vsc))"
| "comesFrom c (TransportServerRes tsc) =
     (cfg_isTLSPassthroughEnabled c \<and> tsc = NewTransportServerConfiguration (tsc_TransportServer tsc) \<and>
      passthrough (tsc_TransportServer tsc) \<and>
      (\<exists>k. gget (cfg_transportServers c) k = Some (tsc_TransportServer tsc)))"

lemma createdResources_comesFrom:
  assumes "createdResources env c = Some rs" and "r \<in> set rs"
  shows "comesFrom c r"
proof -
  obtain rs1 challenges where i: "ingressResources c (sortedValues (cfg_ingresses c)) = Some (rs1, challenges)"
    and rs: "rs = rs1 @ map (\<lambda>vs. VirtualServerRes (buildVirtualServer env c challenges vs)) (sortedValues (cfg_virtualServers c)) @
       (if cfg_isTLSPassthroughEnabled c
        then map (\<lambda>ts. TransportServerRes (NewTransportServerConfiguration ts))
               (filter passthrough (sortedValues (cfg_transportServers c)))
        else [])"
    using createdResources_parts [OF assms(1)] .
  show ?thesis
  proof (cases "r \<in> set rs1")
    case True
    from ingressResources_mem [OF i True] show ?thesis
      by (auto simp: set_sortedValues)
  next
    case False
    with assms(2) show ?thesis
      unfolding rs by (auto simp: set_sortedValues NewTransportServerConfiguration_def split: if_splits)
  qed
qed

lemma distinct_kind_keys:
  assumes "keyedBy meta m"
  shows "distinct (map (\<lambda>v. kind @ ''/'' @ getResourceKey (meta v)) (sortedValues m))"
proof -
  have "distinct (map (\<lambda>v. getResourceKey (meta v)) (sortedValues m))"
    unfolding keys_sortedValues [OF assms] using assms by (simp add: keyedBy_def)
  then show ?thesis
    by (auto simp: distinct_map inj_on_def)
qed

lemma createdResources_keys:
  assumes "keyedStores c" and "createdResources env c = Some rs"
  shows "distinct (map GetKeyWithKind rs)"
proof -
  obtain rs1 challenges where i: "ingressResources c (sortedValues (cfg_ingresses c)) = Some (rs1, challenges)"
    and rs: "rs = rs1 @ map (\<lambda>vs. VirtualServerRes (buildVirtualServer env c challenges vs)) (sortedValues (cfg_virtualServers c)) @
       (if cfg_isTLSPassthroughEnabled c
        then map (\<lambda>ts. TransportServerRes (NewTransportServerConfiguration ts))
               (filter passthrough (sortedValues (cfg_transportServers c)))
        else [])"
    using createdResources_parts [OF assms(2)] .
  have keyed: "keyedBy ing_ObjectMeta (cfg_ingresses c)" "keyedBy vs_ObjectMeta (cfg_virtualServers c)"
    "keyedBy ts_ObjectMeta (cfg_transportServers c)"
    using assms(1) by (auto simp: keyedStores_def)
  have "distinct (map (\<lambda>ing. getResourceKey (ing_ObjectMeta ing)) (sortedValues (cfg_ingresses c)))"
    unfolding keys_sortedValues [OF keyed(1)] using keyed(1) by (simp add: keyedBy_def)
  then have "distinct (map GetKeyWithKind rs1)"
    by (rule ingressResources_keys [OF i])
  moreover have "\<exists>ic. r = IngressRes ic" if "r \<in> set rs1" for r
    using ingressResources_mem [OF i that] by blast
  then have "\<exists>s. GetKeyWithKind r = ingressKind @ s" if "r \<in> set rs1" for r
    using that by fastforce
  moreover have "distinct (map (\<lambda>ts. transportServerKind @ ''/'' @ getResourceKey (ts_ObjectMeta ts))
      (filter passthrough (sortedValues (cfg_transportServers c))))"
    using distinct_kind_keys [OF keyed(3)] by (simp add: distinct_map_filter)
  ultimately show ?thesis
    unfolding rs using distinct_kind_keys [OF keyed(2), of virtualServerKind]
    by (fastforce simp: comp_def NewTransportServerConfiguration_def)
qed

text \<open>The result of a rebuild in terms of the created resources.\<close>

lemma buildHosts_inv:
  assumes "keyedStores c" and "buildHostsAndResources env c = Some (holders, store)"
  obtains rs where "createdResources env c = Some rs" "distinct (map GetKeyWithKind rs)"
    "resourceClaims.claimInv hostWarning (baseResource rs) (hostClaimsOf rs) (holders, store)"
    "gkeys store = map GetKeyWithKind rs"
proof -
  obtain rs where rs: "createdResources env c = Some rs" "registerAll rs ([], []) = (holders, store)"
    using assms(2) by (auto simp: buildHostsAndResources_created)
  have d: "distinct (map GetKeyWithKind rs)"
    by (rule createdResources_keys [OF assms(1) rs(1)])
  have start: "resourceClaims.claimInv hostWarning (baseResource rs) [] ([], [])"
    by simp
  have "distinct (gkeys (snd ([] :: (string, string) gomap, [] :: (string, Resource) gomap)) @ map GetKeyWithKind rs)"
    using d by simp
  from registerAll_inv [OF start this] baseResource_eq [OF d] rs(2)
  have "resourceClaims.claimInv hostWarning (baseResource rs) (hostClaimsOf rs) (holders, store)"
    "gkeys store = map GetKeyWithKind rs"
    by auto
  with rs(1) d that show thesis by blast
qed

text \<open>Kubernetes gives every object its own UID, so no two created resources tie.\<close>

lemma uid_of_created:
  assumes "comesFrom c r"
  shows "UID (GetObjectMeta r) \<in> (case r of
      IngressRes ic \<Rightarrow> (\<lambda>(k, ing). UID (ing_ObjectMeta ing)) ` set (cfg_ingresses c)
    | VirtualServerRes vsc \<Rightarrow> (\<lambda>(k, vs). UID (vs_ObjectMeta vs)) ` set (cfg_virtualServers c)
    | TransportServerRes tsc \<Rightarrow> (\<lambda>(k, ts). UID (ts_ObjectMeta ts)) ` set (cfg_transportServers c))"
  using assms by (cases r) (force dest: gget_memD)+

lemma distinct_map_gget:
  assumes "distinct (map (\<lambda>(k, v). f v) m)" and "gget m k = Some v" and "gget m k' = Some v'" and "f v = f v'"
  shows "v = v'"
  using assms by (auto simp: distinct_map inj_on_def dest!: gget_memD)

lemma created_unique:
  assumes uids: "distinct (configUIDs c)" and r: "comesFrom c r" "comesFrom c r'"
    and eq: "UID (GetObjectMeta r) = UID (GetObjectMeta r')"
  shows "GetKeyWithKind r = GetKeyWithKind r'"
proof -
  have d: "distinct (map (\<lambda>(k, ing). UID (ing_ObjectMeta ing)) (cfg_ingresses c))"
    "distinct (map (\<lambda>(k, vs). UID (vs_ObjectMeta vs)) (cfg_virtualServers c))"
    "distinct (map (\<lambda>(k, ts). UID (ts_ObjectMeta ts)) (cfg_transportServers c))"
    using uids by (auto simp: configUIDs_def)
  define I where "I = (\<lambda>(k, ing). UID (ing_ObjectMeta ing)) ` set (cfg_ingresses c)"
  define V where "V = (\<lambda>(k, vs). UID (vs_ObjectMeta vs)) ` set (cfg_virtualServers c)"
  define T where "T = (\<lambda>(k, ts). UID (ts_ObjectMeta ts)) ` set (cfg_transportServers c)"
  have apart: "I \<inter> V = {}" "I \<inter> T = {}" "V \<inter> T = {}"
    using uids unfolding I_def V_def T_def
    by (simp_all only: configUIDs_def distinct_append set_append set_map Int_Un_distrib Un_empty)
  note u = uid_of_created [OF r(1), folded I_def V_def T_def] uid_of_created [OF r(2), folded I_def V_def T_def]
  show ?thesis
  proof (cases r)
    case (IngressRes ic)
    then obtain ic' where r': "r' = IngressRes ic'"
      using u eq apart by (cases r') auto
    have "ic_Ingress ic = ic_Ingress ic'"
      using r eq IngressRes r' by (auto intro: distinct_map_gget [OF d(1)])
    with IngressRes r' show ?thesis
      by simp
  next
    case (VirtualServerRes vsc)
    then obtain vsc' where r': "r' = VirtualServerRes vsc'"
      using u eq apart by (cases r') auto
    have "vsc_VirtualServer vsc = vsc_VirtualServer vsc'"
      using r eq VirtualServerRes r' by (auto intro: distinct_map_gget [OF d(2)])
    with VirtualServerRes r' show ?thesis
      by simp
  next
    case (TransportServerRes tsc)
    then obtain tsc' where r': "r' = TransportServerRes tsc'"
      using u eq apart by (cases r') auto
    have "tsc_TransportServer tsc = tsc_TransportServer tsc'"
      using r eq TransportServerRes r' by (auto intro: distinct_map_gget [OF d(3)])
    with TransportServerRes r' show ?thesis
      by simp
  qed
qed

text \<open>Every claim is made once, so a resource is warned once for every host it does not get.\<close>

lemma distinct_hostClaimsOf:
  "distinct (map GetKeyWithKind rs) \<Longrightarrow> \<forall>r \<in> set rs. distinct (hostsOf r) \<Longrightarrow> distinct (hostClaimsOf rs)"
proof (induction rs)
  case (Cons r rs)
  have "(h, GetKeyWithKind r) \<notin> set (hostClaimsOf rs)" for h
    using Cons.prems(1) unfolding set_hostClaimsOf by (metis distinct.simps(2) imageI list.simps(9) set_map)
  then have "set (map (\<lambda>h. (h, GetKeyWithKind r)) (hostsOf r)) \<inter> set (hostClaimsOf rs) = {}"
    by auto
  with Cons show ?case
    by (auto simp: hostClaimsOf_def distinct_map inj_on_def)
qed (simp add: hostClaimsOf_def)

lemma count_distinct: "distinct xs \<Longrightarrow> count (mset xs) x = (if x \<in> set xs then 1 else 0)"
  using distinct_count_atmost_1 [of xs] by auto

lemma lostBy_distinct:
  assumes "distinct cs"
  shows "distinct (lostBy beats cs k)"
    and "set (lostBy beats cs k) = {s. (s, k) \<in> set cs \<and> settle beats Map.empty cs s \<noteq> Some k}"
proof -
  let ?L = "lost beats Map.empty cs"
  have c: "count (mset ?L) (s, a) = (if (s, a) \<in> set cs \<and> settle beats Map.empty cs s \<noteq> Some a then 1 else 0)" for s a
  proof -
    have "settle beats Map.empty cs s = Some a \<Longrightarrow> (s, a) \<in> set cs"
      using settle_claimed [of beats Map.empty cs s a] by simp
    with count_lost [of beats cs s a] count_distinct [OF assms, of "(s, a)"] show ?thesis
      by (auto split: if_splits)
  qed
  have "count (mset ?L) x = (if x \<in> set ?L then 1 else 0)" for x
    using c [of "fst x" "snd x"] count_mset_0_iff [of ?L x] by (auto split: if_splits)
  then have "distinct ?L"
    by (simp add: distinct_count_atmost_1)
  then show "distinct (lostBy beats cs k)"
    by (auto simp: lostBy_def distinct_map inj_on_def)
  have "(s, a) \<in> set ?L \<longleftrightarrow> (s, a) \<in> set cs \<and> settle beats Map.empty cs s \<noteq> Some a" for s a
    using c [of s a] count_mset_0_iff [of ?L "(s, a)"] by (auto split: if_splits)
  then show "set (lostBy beats cs k) = {s. (s, k) \<in> set cs \<and> settle beats Map.empty cs s \<noteq> Some k}"
    by (force simp: lostBy_def)
qed

lemma AddWarnings_simps [simp]:
  "GetKeyWithKind (fold AddWarning ws r) = GetKeyWithKind r"
  "GetObjectMeta (fold AddWarning ws r) = GetObjectMeta r"
  "hostsOf (fold AddWarning ws r) = hostsOf r"
proof -
  have "hostsOf (AddWarning w r) = hostsOf r" for w r
    by (cases r) simp_all
  then show "GetKeyWithKind (fold AddWarning ws r) = GetKeyWithKind r"
    "GetObjectMeta (fold AddWarning ws r) = GetObjectMeta r" "hostsOf (fold AddWarning ws r) = hostsOf r"
    by (induction ws arbitrary: r) simp_all
qed

text \<open>On accepted Ingresses the rebuild does not panic.\<close>

lemma okIngress_okMinion: "okIngress ing \<Longrightarrow> isMinion ing \<Longrightarrow> okMinion ing"
  by (auto simp: okIngress_def okMinion_def)

lemma convertIngressToVSR_no_panic:
  "okIngress ing \<Longrightarrow> isChallengeIngressFor c ing \<Longrightarrow> convertIngressToVSR c ing \<noteq> None"
  by (auto simp: okIngress_def isChallengeIngressFor_def isChallengeIngress_def convertIngressToVSR_def split: if_splits)

lemma buildIngress_no_panic:
  assumes "ingressesOk c" and "gget (cfg_ingresses c) k = Some ing"
  shows "buildIngress c ing \<noteq> None"
proof -
  have ok: "okIngress ing"
    using assms by (auto simp: ingressesOk_def)
  have "buildMinionConfigs (cfg_ingresses c) (cfg_minionsByHost c) h \<noteq> None" for h
    using assms(1) by (intro buildMinionConfigs_no_panic) (auto simp: ingressesOk_def okIngress_okMinion)
  moreover have "ing_Rules ing \<noteq> []"
    using ok by (simp add: okIngress_def)
  ultimately show ?thesis
    using convertIngressToVSR_no_panic [OF ok, of c]
    by (auto simp: buildIngress_def split: option.splits list.splits)
qed

lemma ingressResources_no_panic:
  "\<forall>ing \<in> set ings. buildIngress c ing \<noteq> None \<Longrightarrow> ingressResources c ings \<noteq> None"
  by (induction ings) (auto split: option.splits ingressBuild.splits)

lemma buildHostsAndResources_no_panic:
  assumes "ingressesOk c"
  shows "\<exists>holders store. buildHostsAndResources env c = Some (holders, store)"
proof -
  have "ingressResources c (sortedValues (cfg_ingresses c)) \<noteq> None"
    using buildIngress_no_panic [OF assms] by (intro ingressResources_no_panic) (auto simp: set_sortedValues)
  then have "createdResources env c \<noteq> None"
    by (auto simp: createdResources_def)
  then show ?thesis
    by (auto simp: buildHostsAndResources_created)
qed

lemma created_hosts_distinct:
  assumes "ingressesOk c" and "comesFrom c r"
  shows "distinct (hostsOf r)"
  using assms by (cases r) (auto simp: ingressesOk_def okIngress_def)

text \<open>
  The relation between \<^verbatim>\<open>newHosts\<close> and \<^verbatim>\<open>newResources\<close> that the rest of a rebuild relies on: a
  resource is stored under its key, a holder is stored and claims the host, and every host a stored
  resource claims has a holder.
\<close>

definition builtHosts :: "hostClaims \<Rightarrow> bool" where
  "builtHosts st =
     (gwf (fst st) \<and> gwf (snd st) \<and>
      (\<forall>k r. gget (snd st) k = Some r \<longrightarrow> GetKeyWithKind r = k \<and> (\<forall>h \<in> set (hostsOf r). gget (fst st) h \<noteq> None)) \<and>
      (\<forall>h k. gget (fst st) h = Some k \<longrightarrow> (\<exists>r. gget (snd st) k = Some r \<and> h \<in> set (hostsOf r))))"

text \<open>A stored resource is a created one with the warnings for the hosts it lost.\<close>

lemma built_resource:
  assumes inv: "resourceClaims.claimInv hostWarning (baseResource rs) (hostClaimsOf rs) (holders, store)"
    and d: "distinct (map GetKeyWithKind rs)" and keys: "gkeys store = map GetKeyWithKind rs"
    and "gget store k = Some r"
  shows "\<exists>b \<in> set rs. GetKeyWithKind b = k \<and>
    r = fold AddWarning (map hostWarning
      (lostBy (resourceClaims.baseBeats (baseResource rs)) (hostClaimsOf rs) k)) b"
proof -
  have "k \<in> set (gkeys store)"
    using assms(4) by (auto simp: gkeys_gget)
  then obtain b where b: "b \<in> set rs" "GetKeyWithKind b = k"
    unfolding keys by auto
  then have base: "baseResource rs k = b"
    using baseResource_eq [OF d b(1)] by simp
  from resourceClaims.claimInvD(5) [OF inv assms(4)]
  have "r = fold AddWarning (map hostWarning
      (lostBy (resourceClaims.baseBeats (baseResource rs)) (hostClaimsOf rs) k)) b"
    unfolding base .
  with b show ?thesis
    by (intro bexI [of _ b] conjI)
qed

lemma built_resourceE:
  assumes "resourceClaims.claimInv hostWarning (baseResource rs) (hostClaimsOf rs) (holders, store)"
    and "distinct (map GetKeyWithKind rs)" and "gkeys store = map GetKeyWithKind rs"
    and "gget store k = Some r"
  obtains b where "b \<in> set rs" "GetKeyWithKind b = k" "GetKeyWithKind r = k" "hostsOf r = hostsOf b"
    "GetObjectMeta r = GetObjectMeta b"
  using built_resource [OF assms] by (elim bexE conjE) (simp only: AddWarnings_simps)

lemma buildHosts_builtHosts:
  assumes "keyedStores c" and "buildHostsAndResources env c = Some (holders, store)"
  shows "builtHosts (holders, store)"
proof -
  obtain rs where d: "distinct (map GetKeyWithKind rs)"
    and inv: "resourceClaims.claimInv hostWarning (baseResource rs) (hostClaimsOf rs) (holders, store)"
    and keys: "gkeys store = map GetKeyWithKind rs"
    using buildHosts_inv [OF assms] .
  note get = resourceClaims.claimInvD(3) [OF inv]
  have stored: "GetKeyWithKind r = k \<and> (\<forall>h \<in> set (hostsOf r). gget holders h \<noteq> None)" if r: "gget store k = Some r" for k r
  proof -
    obtain b where b: "b \<in> set rs" "GetKeyWithKind b = k" "GetKeyWithKind r = k" "hostsOf r = hostsOf b"
      using built_resourceE [OF inv d keys r] .
    have "gget holders h \<noteq> None" if "h \<in> set (hostsOf r)" for h
    proof -
      have "(h, k) \<in> set (hostClaimsOf rs)"
        using that b by (auto simp: set_hostClaimsOf)
      then have "h \<in> fst ` set (hostClaimsOf rs)"
        by (metis fst_conv imageI)
      then show ?thesis
        unfolding get settle_eq_None by blast
    qed
    with b show ?thesis by simp
  qed
  have "\<exists>r. gget store k = Some r \<and> h \<in> set (hostsOf r)" if h: "gget holders h = Some k" for h k
  proof -
    have "(h, k) \<in> set (hostClaimsOf rs)"
      using settle_claimed [OF h [unfolded get]] by simp
    then obtain b where b: "b \<in> set rs" "GetKeyWithKind b = k" "h \<in> set (hostsOf b)"
      by (auto simp: set_hostClaimsOf)
    moreover obtain r where r: "gget store k = Some r"
      using resourceClaims.claimInv_holder [OF inv h] by auto
    moreover obtain b' where "b' \<in> set rs" "GetKeyWithKind b' = k" "hostsOf r = hostsOf b'"
      using built_resourceE [OF inv d keys r] .
    moreover have "b' = b"
      using baseResource_eq [OF d \<open>b' \<in> set rs\<close>] baseResource_eq [OF d b(1)] b(2) \<open>GetKeyWithKind b' = k\<close> by simp
    ultimately show ?thesis by simp
  qed
  with stored resourceClaims.claimInvD(1,2) [OF inv] show ?thesis
    by (simp add: builtHosts_def)
qed

text \<open>The claims and the comparison in terms of the stored resources.\<close>

lemma stored_claims:
  assumes inv: "resourceClaims.claimInv hostWarning (baseResource rs) (hostClaimsOf rs) (holders, store)"
    and d: "distinct (map GetKeyWithKind rs)" and keys: "gkeys store = map GetKeyWithKind rs"
  shows "(h, k) \<in> set (hostClaimsOf rs) \<longleftrightarrow> (\<exists>r. gget store k = Some r \<and> h \<in> set (hostsOf r))"
    and "gget store k = Some r \<Longrightarrow> GetObjectMeta (baseResource rs k) = GetObjectMeta r"
proof -
  have base: "GetObjectMeta (baseResource rs k) = GetObjectMeta r \<and> hostsOf (baseResource rs k) = hostsOf r \<and>
      (\<exists>b \<in> set rs. GetKeyWithKind b = k \<and> baseResource rs k = b)"
    if r: "gget store k = Some r" for k r
  proof -
    obtain b where b: "b \<in> set rs" "GetKeyWithKind b = k" "hostsOf r = hostsOf b" "GetObjectMeta r = GetObjectMeta b"
      using built_resourceE [OF inv d keys r] .
    with baseResource_eq [OF d b(1)] show ?thesis
      by auto
  qed
  then show "gget store k = Some r \<Longrightarrow> GetObjectMeta (baseResource rs k) = GetObjectMeta r"
    by blast
  show "(h, k) \<in> set (hostClaimsOf rs) \<longleftrightarrow> (\<exists>r. gget store k = Some r \<and> h \<in> set (hostsOf r))"
  proof
    assume "(h, k) \<in> set (hostClaimsOf rs)"
    then obtain b where b: "b \<in> set rs" "GetKeyWithKind b = k" "h \<in> set (hostsOf b)"
      by (auto simp: set_hostClaimsOf)
    then have "k \<in> set (gkeys store)"
      by (auto simp: keys)
    then obtain r where r: "gget store k = Some r"
      by (auto simp: gkeys_gget)
    with base [OF r] baseResource_eq [OF d b(1)] b show "\<exists>r. gget store k = Some r \<and> h \<in> set (hostsOf r)"
      by auto
  next
    assume "\<exists>r. gget store k = Some r \<and> h \<in> set (hostsOf r)"
    then obtain r where r: "gget store k = Some r" "h \<in> set (hostsOf r)"
      by blast
    with base [OF r(1)] show "(h, k) \<in> set (hostClaimsOf rs)"
      unfolding set_hostClaimsOf by metis
  qed
qed

text \<open>The specification of the owner of a host.\<close>

definition ownsHost :: "(string, Resource) gomap \<Rightarrow> string \<Rightarrow> Resource \<Rightarrow> bool" where
  "ownsHost resources h r =
     (gget resources (GetKeyWithKind r) = Some r \<and> h \<in> set (hostsOf r) \<and>
      (\<forall>k' r'. gget resources k' = Some r' \<and> h \<in> set (hostsOf r') \<and> k' \<noteq> GetKeyWithKind r \<longrightarrow> Wins r r'))"

lemma host_settled:
  assumes uids: "distinct (configUIDs c)" and rs: "createdResources env c = Some rs"
    and d: "distinct (map GetKeyWithKind rs)"
  shows "settle (resourceClaims.baseBeats (baseResource rs)) Map.empty (hostClaimsOf rs) h = Some k \<longleftrightarrow>
    bestClaimant (resourceClaims.baseBeats (baseResource rs)) (hostClaimsOf rs) h k"
proof (rule keyed.settle_best, rule inj_onI)
  fix i j
  assume "i \<in> {k. (h, k) \<in> set (hostClaimsOf rs)}" "j \<in> {k. (h, k) \<in> set (hostClaimsOf rs)}"
    and eq: "metaRank (GetObjectMeta (baseResource rs i)) = metaRank (GetObjectMeta (baseResource rs j))"
  then obtain b b' where b: "b \<in> set rs" "GetKeyWithKind b = i" "b' \<in> set rs" "GetKeyWithKind b' = j"
    by (auto simp: set_hostClaimsOf)
  then have "UID (GetObjectMeta b) = UID (GetObjectMeta b')"
    using metaRank_UID [OF eq] baseResource_eq [OF d b(1)] baseResource_eq [OF d b(3)] by simp
  with created_unique [OF uids createdResources_comesFrom [OF rs b(1)] createdResources_comesFrom [OF rs b(3)]] b
  show "i = j"
    by simp
qed

lemma hosts_owned:
  assumes "keyedStores c" and uids: "distinct (configUIDs c)"
    and built: "buildHostsAndResources env c = Some (holders, store)"
  shows "gget (resolve holders store) h = Some r \<longleftrightarrow> ownsHost store h r"
proof -
  obtain rs where rs: "createdResources env c = Some rs" and d: "distinct (map GetKeyWithKind rs)"
    and inv: "resourceClaims.claimInv hostWarning (baseResource rs) (hostClaimsOf rs) (holders, store)"
    and keys: "gkeys store = map GetKeyWithKind rs"
    using buildHosts_inv [OF assms(1) built] .
  let ?beats = "resourceClaims.baseBeats (baseResource rs)"
  have key: "GetKeyWithKind r = k" if "gget store k = Some r" for k r
    using built_resourceE [OF inv d keys that] by blast
  have "gget (resolve holders store) h = Some r \<longleftrightarrow>
      (\<exists>k. settle ?beats Map.empty (hostClaimsOf rs) h = Some k \<and> gget store k = Some r)"
    unfolding resourceClaims.claimInv_resolve [OF inv] by (auto simp: bind_eq_Some_conv)
  also have "\<dots> \<longleftrightarrow> bestClaimant ?beats (hostClaimsOf rs) h (GetKeyWithKind r) \<and> gget store (GetKeyWithKind r) = Some r"
    unfolding host_settled [OF uids rs d] using key by blast
  also have "\<dots> \<longleftrightarrow> ownsHost store h r"
  proof (cases "gget store (GetKeyWithKind r) = Some r")
    case True
    note meta = stored_claims(2) [OF inv d keys]
    have "(\<forall>(t, a) \<in> set (hostClaimsOf rs). t = h \<longrightarrow> a = GetKeyWithKind r \<or> ?beats (GetKeyWithKind r) a) \<longleftrightarrow>
        (\<forall>a r'. gget store a = Some r' \<and> h \<in> set (hostsOf r') \<and> a \<noteq> GetKeyWithKind r \<longrightarrow> Wins r r')"
      using stored_claims(1) [OF inv d keys, of h] meta [OF True] meta by (fastforce simp: Wins_def)
    then show ?thesis
      using True stored_claims(1) [OF inv d keys, of h "GetKeyWithKind r"]
      by (simp add: ownsHost_def bestClaimant_def)
  qed (simp add: ownsHost_def)
  finally show ?thesis .
qed

text \<open>
  C20. Who gets a host. For a configuration of accepted Ingresses, VirtualServers and TransportServers
  with distinct UIDs, \<^verbatim>\<open>buildHostsAndResources\<close> does not panic, stores every created resource under
  its key, and gives a host to exactly the resource that claims it and wins against all others that
  claim it. Every resource ends with one warning for each host it claims and does not hold, and no
  other new warning.
\<close>

theorem host_owner:
  assumes keyed: "keyedStores c" and ok: "ingressesOk c" and uids: "distinct (configUIDs c)"
  shows "\<exists>holders store rs. buildHostsAndResources env c = Some (holders, store) \<and>
    createdResources env c = Some rs \<and> gkeys store = map GetKeyWithKind rs \<and>
    (\<forall>h r. gget (resolve holders store) h = Some r \<longleftrightarrow> ownsHost store h r) \<and>
    (\<forall>r \<in> set rs. \<exists>hs. gget store (GetKeyWithKind r) = Some (fold AddWarning (map hostWarning hs) r) \<and>
       distinct hs \<and> set hs = {h \<in> set (hostsOf r). gget holders h \<noteq> Some (GetKeyWithKind r)})"
proof -
  obtain holders store where built: "buildHostsAndResources env c = Some (holders, store)"
    using buildHostsAndResources_no_panic [OF ok] by blast
  obtain rs where rs: "createdResources env c = Some rs" and d: "distinct (map GetKeyWithKind rs)"
    and inv: "resourceClaims.claimInv hostWarning (baseResource rs) (hostClaimsOf rs) (holders, store)"
    and keys: "gkeys store = map GetKeyWithKind rs"
    using buildHosts_inv [OF keyed built] .
  let ?lost = "lostBy (resourceClaims.baseBeats (baseResource rs)) (hostClaimsOf rs)"
  have "distinct (hostClaimsOf rs)"
    using created_hosts_distinct [OF ok createdResources_comesFrom [OF rs]] by (intro distinct_hostClaimsOf [OF d]) blast
  note lost = lostBy_distinct [OF this]
  have "gget store (GetKeyWithKind r) = Some (fold AddWarning (map hostWarning (?lost (GetKeyWithKind r))) r) \<and>
      set (?lost (GetKeyWithKind r)) = {h \<in> set (hostsOf r). gget holders h \<noteq> Some (GetKeyWithKind r)}"
    if r: "r \<in> set rs" for r
  proof -
    have "GetKeyWithKind r \<in> set (gkeys store)"
      using r by (simp add: keys)
    then obtain r' where r': "gget store (GetKeyWithKind r) = Some r'"
      by (auto simp: gkeys_gget)
    from resourceClaims.claimInvD(5) [OF inv r'] baseResource_eq [OF d r] r'
    have "gget store (GetKeyWithKind r) = Some (fold AddWarning (map hostWarning (?lost (GetKeyWithKind r))) r)"
      by simp
    moreover have "(h, GetKeyWithKind r) \<in> set (hostClaimsOf rs) \<longleftrightarrow> h \<in> set (hostsOf r)" for h
      using r baseResource_eq [OF d] unfolding set_hostClaimsOf by metis
    ultimately show ?thesis
      unfolding lost(2) resourceClaims.claimInvD(3) [OF inv] by simp
  qed
  with built rs keys hosts_owned [OF keyed uids built] lost(1) show ?thesis
    by blast
qed

definition exampleIngress :: Ingress where
  "exampleIngress = emptyIngress\<lparr>ing_ObjectMeta := emptyMeta\<lparr>Namespace := ''d'', Name := ''a'', UID := ''1'', CreationTimestamp := 1\<rparr>,
     ing_Spec := (ing_Spec emptyIngress)\<lparr>is_Rules := [\<lparr>rule_Host = ''cafe.example.com'', rule_HTTP = None\<rparr>]\<rparr>\<rparr>"

definition exampleVS :: VirtualServer where
  "exampleVS = emptyVS\<lparr>vs_ObjectMeta := emptyMeta\<lparr>Namespace := ''d'', Name := ''b'', UID := ''2'', CreationTimestamp := 2\<rparr>,
     vs_Spec := emptyVSSpec\<lparr>vss_Host := ''cafe.example.com''\<rparr>\<rparr>"

definition exampleConfiguration :: Configuration where
  "exampleConfiguration = (NewConfiguration False False False False False)
     \<lparr>cfg_ingresses := [(''d/a'', exampleIngress)], cfg_virtualServers := [(''d/b'', exampleVS)]\<rparr>"

lemma exampleConfiguration_ok:
  "keyedStores exampleConfiguration" "ingressesOk exampleConfiguration" "distinct (configUIDs exampleConfiguration)"
proof -
  have "\<not> isMinion exampleIngress" "\<not> isMaster exampleIngress" "\<not> isChallengeIngress exampleIngress"
    by code_simp+
  then have "okIngress exampleIngress" and "minionOf [(''d/a'', exampleIngress)] host k = False" for host k
    by (auto simp: okIngress_def exampleIngress_def emptyIngress_def minionOf_def gget_def)
  then show "ingressesOk exampleConfiguration"
    by (auto simp: ingressesOk_def exampleConfiguration_def NewConfiguration_def indexInv_def wfIndex_def indexed_def
        gget_def split: if_splits)
  show "keyedStores exampleConfiguration" "distinct (configUIDs exampleConfiguration)"
    by code_simp+
qed

lemma host_owner_witness:
  "\<exists>holders store r. buildHostsAndResources exampleEnv exampleConfiguration = Some (holders, store) \<and>
     ownsHost store ''cafe.example.com'' r \<and> GetKeyWithKind r = ''Ingress/d/a''"
proof -
  obtain holders store where b: "buildHostsAndResources exampleEnv exampleConfiguration = Some (holders, store)"
    and own: "\<forall>h r. gget (resolve holders store) h = Some r \<longleftrightarrow> ownsHost store h r"
    using host_owner [OF exampleConfiguration_ok, of exampleEnv] by blast
  have "map_option (\<lambda>(holders, store). map_option GetKeyWithKind (gget (resolve holders store) ''cafe.example.com''))
      (buildHostsAndResources exampleEnv exampleConfiguration) = Some (Some ''Ingress/d/a'')"
    by code_simp
  with b obtain r where "gget (resolve holders store) ''cafe.example.com'' = Some r" "GetKeyWithKind r = ''Ingress/d/a''"
    by auto
  with b own show ?thesis
    by blast
qed

end
