(* ===== verification/Changes.thy ===== *)
theory Changes
  imports Hosts
begin

text \<open>
  From the old and the new holders of hosts or listeners to the changes the controller carries out
  (\<^verbatim>\<open>internal/k8s/configuration.go\<close>): detection of what changed, one change per slot, and the
  squashing to one change per resource.

  The locale \<^verbatim>\<open>slotChanges\<close> is the contract between detection and the creation of changes. From it
  follows that carrying out the squashed changes takes the set of deployed resources from the old
  holders to the new ones. It is interpreted for hosts and for listener hosts.
\<close>

section \<open>What changed\<close>

definition updatedHost :: "(string, Resource) gomap \<Rightarrow> (string, Resource) gomap \<Rightarrow> string \<Rightarrow> string list" where
  "updatedHost oldHosts newHosts h =
     (case (gget oldHosts h, gget newHosts h) of
        (Some oldR, Some newR) \<Rightarrow>
          if \<not> IsEqual oldR newR then [h]
          else
            (case (newR, oldR) of
               (VirtualServerRes newVsc, VirtualServerRes oldVsc) \<Rightarrow>
                 (if vsc_HTTPPort newVsc \<noteq> vsc_HTTPPort oldVsc \<or> vsc_HTTPSPort newVsc \<noteq> vsc_HTTPSPort oldVsc then [h] else []) @
                 (if vsc_HTTPIPv4 newVsc \<noteq> vsc_HTTPIPv4 oldVsc then [h] else []) @
                 (if vsc_HTTPIPv6 newVsc \<noteq> vsc_HTTPIPv6 oldVsc then [h] else [])
             | _ \<Rightarrow> [])
      | _ \<Rightarrow> [])"

definition detectChangesInHosts ::
  "(string, Resource) gomap \<Rightarrow> (string, Resource) gomap \<Rightarrow> string list \<times> string list \<times> string list" where
  "detectChangesInHosts oldHosts newHosts =
     (filter (\<lambda>h. gget newHosts h = None) (sortedKeys oldHosts),
      concat (map (updatedHost oldHosts newHosts) (sortedKeys newHosts)),
      filter (\<lambda>h. gget oldHosts h = None) (sortedKeys newHosts))"

text \<open>The keys are sorted by their text; texts of different keys can only be equal when a name has a bar in it.\<close>

definition getSortedListenerHostKeys :: "(listenerHostKey, 'v) gomap \<Rightarrow> listenerHostKey list" where
  "getSortedListenerHostKeys m = sort_key lhkString (gkeys m)"

definition detectChangesInListenerHosts ::
  "(listenerHostKey, TransportServerConfiguration) gomap \<Rightarrow> (listenerHostKey, TransportServerConfiguration) gomap
    \<Rightarrow> listenerHostKey list \<times> listenerHostKey list \<times> listenerHostKey list" where
  "detectChangesInListenerHosts oldListenerHosts newListenerHosts =
     (filter (\<lambda>k. gget newListenerHosts k = None) (getSortedListenerHostKeys oldListenerHosts),
      filter (\<lambda>k. case (gget oldListenerHosts k, gget newListenerHosts k) of
          (Some oldConfig, Some newConfig) \<Rightarrow> \<not> isEqualTransportServer oldConfig newConfig
        | _ \<Rightarrow> False) (getSortedListenerHostKeys newListenerHosts),
      filter (\<lambda>k. gget oldListenerHosts k = None) (getSortedListenerHostKeys newListenerHosts))"

section \<open>One change per slot\<close>

definition change :: "Operation \<Rightarrow> Resource \<Rightarrow> ResourceChange" where
  "change op r = \<lparr>rc_Op = op, rc_Resource = r, rc_Error = []\<rparr>"

text \<open>
  The body of both \<^verbatim>\<open>createResourceChanges\<close> functions, which differ in their types only. The keys
  come from the maps, so every lookup succeeds.
\<close>

definition createResourceChanges ::
  "('r \<Rightarrow> Resource) \<Rightarrow> 'k list \<Rightarrow> 'k list \<Rightarrow> 'k list \<Rightarrow> ('k, 'r) gomap \<Rightarrow> ('k, 'r) gomap \<Rightarrow> ResourceChange list" where
  "createResourceChanges res removed updated added old new =
     (let olds = (\<lambda>ks. map res (List.map_filter (gget old) ks));
          news = (\<lambda>ks. map res (List.map_filter (gget new) ks));
          moved = filter (\<lambda>k. map_option (GetKeyWithKind \<circ> res) (gget old k) \<noteq>
                              map_option (GetKeyWithKind \<circ> res) (gget new k)) updated
      in map (change Delete) (olds removed @ olds moved) @ map (change AddOrUpdate) (news updated @ news added))"

definition createResourceChangesForHosts ::
  "string list \<Rightarrow> string list \<Rightarrow> string list \<Rightarrow> (string, Resource) gomap \<Rightarrow> (string, Resource) gomap \<Rightarrow> ResourceChange list" where
  "createResourceChangesForHosts = createResourceChanges id"

definition createResourceChangesForListeners ::
  "listenerHostKey list \<Rightarrow> listenerHostKey list \<Rightarrow> listenerHostKey list
    \<Rightarrow> (listenerHostKey, TransportServerConfiguration) gomap \<Rightarrow> (listenerHostKey, TransportServerConfiguration) gomap
    \<Rightarrow> ResourceChange list" where
  "createResourceChangesForListeners = createResourceChanges TransportServerRes"

section \<open>One change per resource\<close>

abbreviation changeKey :: "ResourceChange \<Rightarrow> string" where
  "changeKey c \<equiv> GetKeyWithKind (rc_Resource c)"

definition groupChanges :: "ResourceChange list \<Rightarrow> (string, ResourceChange list) gomap" where
  "groupChanges changes =
     fold (\<lambda>c m. gput m (changeKey c) ((case gget m (changeKey c) of None \<Rightarrow> [] | Some cs \<Rightarrow> cs) @ [c])) changes []"

fun squashLoop :: "(string, ResourceChange list) gomap \<Rightarrow> ResourceChange list
    \<Rightarrow> ResourceChange list \<times> ResourceChange list" where
  "squashLoop m [] = ([], [])"
| "squashLoop m (c # cs) =
     (case gget m (changeKey c) of
        None \<Rightarrow> squashLoop m cs
      | Some resChanges \<Rightarrow>
          (let (deletes, updates) = squashLoop (gdel m (changeKey c)) cs; squashed = last resChanges
           in if rc_Op squashed = Delete then (squashed # deletes, updates) else (deletes, squashed # updates)))"

definition squashResourceChanges :: "ResourceChange list \<Rightarrow> ResourceChange list" where
  "squashResourceChanges changes =
     (let (deletes, updates) = squashLoop (groupChanges changes) changes in deletes @ updates)"

section \<open>Problems\<close>

definition detectChangesInProblems ::
  "(string, ConfigurationProblem) gomap \<Rightarrow> (string, ConfigurationProblem) gomap \<Rightarrow> ConfigurationProblem list" where
  "detectChangesInProblems newProblems oldProblems =
     List.map_filter (\<lambda>k.
       case gget newProblems k of
         None \<Rightarrow> None
       | Some newP \<Rightarrow>
           (case gget oldProblems k of
              None \<Rightarrow> Some newP
            | Some oldP \<Rightarrow> if \<not> compareConfigurationProblems newP oldP then Some newP else None))
     (sortedKeys newProblems)"

section \<open>Squashing keeps the last change of every resource\<close>

lemma no_changes: "k \<notin> changeKey ` set cs \<Longrightarrow> filter (\<lambda>c. changeKey c = k) cs = []"
  by (auto simp: filter_empty_conv)

lemma gget_groupChanges:
  "gget (groupChanges cs) k =
     (if k \<in> changeKey ` set cs then Some (filter (\<lambda>c. changeKey c = k) cs) else None)"
  unfolding groupChanges_def
proof (induction cs rule: rev_induct)
  case (snoc c cs)
  then show ?case
    by (auto simp: no_changes)
qed simp

text \<open>The squashed changes in the order of the first change of their resources.\<close>

fun squashed :: "(string, ResourceChange list) gomap \<Rightarrow> ResourceChange list \<Rightarrow> ResourceChange list" where
  "squashed m [] = []"
| "squashed m (c # cs) =
     (case gget m (changeKey c) of
        None \<Rightarrow> squashed m cs
      | Some rcs \<Rightarrow> last rcs # squashed (gdel m (changeKey c)) cs)"

definition isDelete :: "ResourceChange \<Rightarrow> bool" where
  "isDelete c = (rc_Op c = Delete)"

lemma squashLoop_squashed:
  "squashLoop m cs = (filter isDelete (squashed m cs), filter (\<lambda>c. \<not> isDelete c) (squashed m cs))"
  by (induction m cs rule: squashLoop.induct) (auto simp: isDelete_def Let_def split: option.splits)

lemma squash_eq:
  "squashResourceChanges cs =
   filter isDelete (squashed (groupChanges cs) cs) @ filter (\<lambda>c. \<not> isDelete c) (squashed (groupChanges cs) cs)"
  by (simp add: squashResourceChanges_def squashLoop_squashed)

text \<open>A table of the changes per resource.\<close>

definition grouped :: "(string, ResourceChange list) gomap \<Rightarrow> bool" where
  "grouped m = (\<forall>k rcs. gget m k = Some rcs \<longrightarrow> rcs \<noteq> [] \<and> (\<forall>c \<in> set rcs. changeKey c = k))"

lemma grouped_gdel: "grouped m \<Longrightarrow> grouped (gdel m k)"
  by (simp add: grouped_def)

lemma grouped_groupChanges: "grouped (groupChanges cs)"
  by (auto simp: grouped_def gget_groupChanges filter_empty_conv split: if_splits)

lemma set_squashed:
  assumes "grouped m"
  shows "c \<in> set (squashed m cs) \<longleftrightarrow>
    changeKey c \<in> changeKey ` set cs \<and> (\<exists>rcs. gget m (changeKey c) = Some rcs \<and> c = last rcs)"
  using assms
proof (induction m cs rule: squashed.induct)
  case (2 m d cs)
  show ?case
  proof (cases "gget m (changeKey d)")
    case None
    with 2 show ?thesis by auto
  next
    case (Some rcs)
    have "changeKey (last rcs) = changeKey d"
      using 2(3) Some by (simp add: grouped_def)
    with 2(2) [OF Some grouped_gdel [OF 2(3)]] Some show ?thesis
      by auto
  qed
qed simp

lemma distinct_squashed:
  assumes "grouped m"
  shows "distinct (map changeKey (squashed m cs))"
  using assms
proof (induction m cs rule: squashed.induct)
  case (2 m d cs)
  show ?case
  proof (cases "gget m (changeKey d)")
    case None
    with 2 show ?thesis by auto
  next
    case (Some rcs)
    have "changeKey (last rcs) = changeKey d"
      using 2(3) Some by (simp add: grouped_def)
    with 2(2) [OF Some grouped_gdel [OF 2(3)]] Some set_squashed [OF grouped_gdel [OF 2(3)], of _ "changeKey d" cs]
    show ?thesis
      by auto
  qed
qed simp

lemma set_squash:
  "c \<in> set (squashResourceChanges cs) \<longleftrightarrow>
   changeKey c \<in> changeKey ` set cs \<and> c = last (filter (\<lambda>d. changeKey d = changeKey c) cs)"
  unfolding squash_eq using set_squashed [OF grouped_groupChanges, of c cs cs]
  by (auto simp: gget_groupChanges)

lemma distinct_squash: "distinct (map changeKey (squashResourceChanges cs))"
proof -
  have "distinct (map changeKey (filter P xs @ filter (\<lambda>c. \<not> P c) xs))" if "distinct (map changeKey xs)" for P and xs :: "ResourceChange list"
    using that by (induction xs) auto
  then show ?thesis
    unfolding squash_eq using distinct_squashed [OF grouped_groupChanges] by blast
qed

section \<open>Deploying the changes\<close>

text \<open>
  The effect of a change on the set of deployed resources: the controller removes the configuration
  of a resource, or writes it.
\<close>

definition applyChange :: "ResourceChange \<Rightarrow> string set \<Rightarrow> string set" where
  "applyChange c D = (case rc_Op c of Delete \<Rightarrow> D - {changeKey c} | AddOrUpdate \<Rightarrow> insert (changeKey c) D)"

definition applyChanges :: "ResourceChange list \<Rightarrow> string set \<Rightarrow> string set" where
  "applyChanges cs D = fold applyChange cs D"

lemma applyChanges_distinct:
  assumes "distinct (map changeKey cs)"
  shows "k \<in> applyChanges cs D \<longleftrightarrow>
    (\<exists>c \<in> set cs. changeKey c = k \<and> rc_Op c = AddOrUpdate) \<or>
    k \<in> D \<and> \<not> (\<exists>c \<in> set cs. changeKey c = k \<and> rc_Op c = Delete)"
  using assms unfolding applyChanges_def
proof (induction cs arbitrary: D)
  case (Cons c cs)
  have other: "\<forall>d \<in> set cs. changeKey d \<noteq> changeKey c"
    using Cons.prems by (auto simp: image_iff)
  have "k \<in> fold applyChange cs (applyChange c D) \<longleftrightarrow>
      (\<exists>d \<in> set cs. changeKey d = k \<and> rc_Op d = AddOrUpdate) \<or>
      k \<in> applyChange c D \<and> \<not> (\<exists>d \<in> set cs. changeKey d = k \<and> rc_Op d = Delete)"
    using Cons by simp
  moreover have "k \<in> applyChange c D \<longleftrightarrow> (if changeKey c = k then rc_Op c = AddOrUpdate else k \<in> D)"
    by (cases "rc_Op c") (auto simp: applyChange_def)
  ultimately show ?case
    using other by (cases "rc_Op c") auto
qed simp

text \<open>When all deletes come first, the last change of a resource is an update if it has one.\<close>

definition deletesFirst :: "ResourceChange list \<Rightarrow> bool" where
  "deletesFirst cs = (\<exists>ds us. cs = ds @ us \<and> list_all isDelete ds \<and> list_all (\<lambda>c. \<not> isDelete c) us)"

lemma deletesFirst_squash: "deletesFirst (squashResourceChanges cs)"
  unfolding deletesFirst_def squash_eq by (intro exI conjI, rule refl) (auto simp: list_all_iff)

lemma last_filter_isDelete:
  assumes "deletesFirst cs" and "k \<in> changeKey ` set cs"
  shows "isDelete (last (filter (\<lambda>c. changeKey c = k) cs)) \<longleftrightarrow> \<not> (\<exists>c \<in> set cs. changeKey c = k \<and> \<not> isDelete c)"
proof -
  obtain ds us where cs: "cs = ds @ us" "list_all isDelete ds" "list_all (\<lambda>c. \<not> isDelete c) us"
    using assms(1) by (auto simp: deletesFirst_def)
  let ?f = "filter (\<lambda>c. changeKey c = k)"
  show ?thesis
  proof (cases "?f us = []")
    case True
    have ds: "?f ds \<noteq> []"
      using assms(2) True cs(1) by (auto simp: filter_empty_conv)
    then have "last (?f ds) \<in> set ds"
      using last_in_set [OF ds] by auto
    with True cs ds show ?thesis
      by (auto simp: list_all_iff filter_empty_conv)
  next
    case False
    then have "last (?f us) \<in> set us" "changeKey (last (?f us)) = k"
      using last_in_set [OF False] by auto
    with False cs show ?thesis
      by (auto simp: list_all_iff)
  qed
qed

lemma squash_ops:
  assumes "deletesFirst cs"
  shows "(\<exists>c \<in> set (squashResourceChanges cs). changeKey c = k \<and> rc_Op c = AddOrUpdate) \<longleftrightarrow>
      (\<exists>c \<in> set cs. changeKey c = k \<and> rc_Op c = AddOrUpdate)"
    and "(\<exists>c \<in> set (squashResourceChanges cs). changeKey c = k \<and> rc_Op c = Delete) \<longleftrightarrow>
      (\<exists>c \<in> set cs. changeKey c = k \<and> rc_Op c = Delete) \<and>
      \<not> (\<exists>c \<in> set cs. changeKey c = k \<and> rc_Op c = AddOrUpdate)"
proof -
  let ?l = "last (filter (\<lambda>c. changeKey c = k) cs)"
  have op: "rc_Op c = AddOrUpdate \<longleftrightarrow> \<not> isDelete c" for c
    by (cases "rc_Op c") (auto simp: isDelete_def)
  have l: "changeKey ?l = k" if "k \<in> changeKey ` set cs"
  proof -
    have "filter (\<lambda>c. changeKey c = k) cs \<noteq> []"
      using that by (auto simp: filter_empty_conv)
    from last_in_set [OF this] show ?thesis by auto
  qed
  have sq: "(\<exists>c \<in> set (squashResourceChanges cs). changeKey c = k \<and> P c) \<longleftrightarrow> k \<in> changeKey ` set cs \<and> P ?l" for P
  proof
    assume r: "k \<in> changeKey ` set cs \<and> P ?l"
    then have "?l \<in> set (squashResourceChanges cs)"
      using l by (simp add: set_squash)
    with r l show "\<exists>c \<in> set (squashResourceChanges cs). changeKey c = k \<and> P c"
      by blast
  qed (auto simp: set_squash)
  show "(\<exists>c \<in> set (squashResourceChanges cs). changeKey c = k \<and> rc_Op c = AddOrUpdate) \<longleftrightarrow>
      (\<exists>c \<in> set cs. changeKey c = k \<and> rc_Op c = AddOrUpdate)"
    unfolding sq op using last_filter_isDelete [OF assms, of k] by auto
  have "rc_Op c = Delete \<longleftrightarrow> isDelete c" for c
    by (simp add: isDelete_def)
  then show "(\<exists>c \<in> set (squashResourceChanges cs). changeKey c = k \<and> rc_Op c = Delete) \<longleftrightarrow>
      (\<exists>c \<in> set cs. changeKey c = k \<and> rc_Op c = Delete) \<and>
      \<not> (\<exists>c \<in> set cs. changeKey c = k \<and> rc_Op c = AddOrUpdate)"
    unfolding sq op using last_filter_isDelete [OF assms, of k] by auto
qed

section \<open>From the old holders to the new ones\<close>

lemma change_simps [simp]: "rc_Op (change op r) = op" "rc_Resource (change op r) = r"
  by (simp_all add: change_def)

lemma ex_change:
  "(\<exists>c. ((\<exists>h r. P h r \<and> c = change Delete (f r) \<and> Q h) \<or> (\<exists>h r. P' h r \<and> c = change AddOrUpdate (f r) \<and> Q' h)) \<and>
      changeKey c = k \<and> rc_Op c = AddOrUpdate) \<longleftrightarrow> (\<exists>h r. P' h r \<and> GetKeyWithKind (f r) = k \<and> Q' h)"
  "(\<exists>c. ((\<exists>h r. P h r \<and> c = change Delete (f r) \<and> Q h) \<or> (\<exists>h r. P' h r \<and> c = change AddOrUpdate (f r) \<and> Q' h)) \<and>
      changeKey c = k \<and> rc_Op c = Delete) \<longleftrightarrow> (\<exists>h r. P h r \<and> GetKeyWithKind (f r) = k \<and> Q h)"
  by (metis (full_types) Operation.distinct(1) change_simps)+

definition deployed :: "('r \<Rightarrow> Resource) \<Rightarrow> ('k, 'r) gomap \<Rightarrow> string set" where
  "deployed res m = {GetKeyWithKind (res r) | k r. gget m k = Some r}"

lemma deployedI: "gget m k = Some r \<Longrightarrow> GetKeyWithKind (res r) \<in> deployed res m"
  by (auto simp: deployed_def)

locale slotChanges =
  fixes res :: "'r \<Rightarrow> Resource"
    and detect :: "('k, 'r) gomap \<Rightarrow> ('k, 'r) gomap \<Rightarrow> 'k list \<times> 'k list \<times> 'k list"
  assumes removed: "detect old new = (rem, upd, add) \<Longrightarrow> k \<in> set rem \<longleftrightarrow> gget old k \<noteq> None \<and> gget new k = None"
    and added: "detect old new = (rem, upd, add) \<Longrightarrow> k \<in> set add \<longleftrightarrow> gget old k = None \<and> gget new k \<noteq> None"
    and updated: "detect old new = (rem, upd, add) \<Longrightarrow> k \<in> set upd \<Longrightarrow> gget old k \<noteq> None \<and> gget new k \<noteq> None"
    and differ: "detect old new = (rem, upd, add) \<Longrightarrow> gget old k = Some r \<Longrightarrow> gget new k = Some s \<Longrightarrow>
      \<not> IsEqual (res r) (res s) \<Longrightarrow> k \<in> set upd"
begin

definition changesOf :: "('k, 'r) gomap \<Rightarrow> ('k, 'r) gomap \<Rightarrow> ResourceChange list" where
  "changesOf old new = (case detect old new of (rem, upd, add) \<Rightarrow> createResourceChanges res rem upd add old new)"

text \<open>The resource is in the new map under a slot that is new, or was another one's, or has changed.\<close>

definition refreshed :: "('k, 'r) gomap \<Rightarrow> ('k, 'r) gomap \<Rightarrow> string \<Rightarrow> bool" where
  "refreshed old new k =
     (\<exists>h r. gget new h = Some r \<and> GetKeyWithKind (res r) = k \<and>
        (gget old h = None \<or> (case detect old new of (rem, upd, add) \<Rightarrow> h \<in> set upd)))"

lemma set_changesOf:
  assumes "detect old new = (rem, upd, add)"
  shows "c \<in> set (changesOf old new) \<longleftrightarrow>
    (\<exists>h r. gget old h = Some r \<and> c = change Delete (res r) \<and>
      (h \<in> set rem \<or> h \<in> set upd \<and> map_option (GetKeyWithKind \<circ> res) (gget old h) \<noteq> map_option (GetKeyWithKind \<circ> res) (gget new h))) \<or>
    (\<exists>h r. gget new h = Some r \<and> c = change AddOrUpdate (res r) \<and> (h \<in> set upd \<or> h \<in> set add))"
  unfolding changesOf_def assms createResourceChanges_def Let_def
  by (simp add: image_iff Bex_def set_mapFilter) blast

lemma changesOf_updates:
  "(\<exists>c \<in> set (changesOf old new). changeKey c = k \<and> rc_Op c = AddOrUpdate) \<longleftrightarrow> refreshed old new k"
proof -
  obtain rem upd add where d: "detect old new = (rem, upd, add)"
    by (metis prod_cases3)
  have "h \<in> set upd \<or> h \<in> set add \<longleftrightarrow> gget old h = None \<or> h \<in> set upd" if "gget new h = Some r" for h r
    using added [OF d, of h] that by auto
  then have "refreshed old new k \<longleftrightarrow>
      (\<exists>h r. gget new h = Some r \<and> GetKeyWithKind (res r) = k \<and> (h \<in> set upd \<or> h \<in> set add))"
    unfolding refreshed_def d by auto
  also have "\<dots> \<longleftrightarrow> (\<exists>c \<in> set (changesOf old new). changeKey c = k \<and> rc_Op c = AddOrUpdate)"
    unfolding Bex_def set_changesOf [OF d] by (rule ex_change(1) [symmetric])
  finally show ?thesis ..
qed

lemma changesOf_deletes:
  "(\<exists>c \<in> set (changesOf old new). changeKey c = k \<and> rc_Op c = Delete) \<longleftrightarrow>
   (\<exists>h r. gget old h = Some r \<and> GetKeyWithKind (res r) = k \<and>
      (\<nexists>s. gget new h = Some s \<and> GetKeyWithKind (res s) = k))"
proof -
  obtain rem upd add where d: "detect old new = (rem, upd, add)"
    by (metis prod_cases3)
  have gone: "h \<in> set rem \<or> h \<in> set upd \<and> map_option (GetKeyWithKind \<circ> res) (gget old h) \<noteq> map_option (GetKeyWithKind \<circ> res) (gget new h)
      \<longleftrightarrow> (\<nexists>s. gget new h = Some s \<and> GetKeyWithKind (res s) = k)"
    if r: "gget old h = Some r" and k: "GetKeyWithKind (res r) = k" for h r
  proof (cases "gget new h")
    case None
    then show ?thesis
      using removed [OF d, of h] r by simp
  next
    case (Some s)
    have "h \<notin> set rem"
      using removed [OF d, of h] Some by simp
    moreover have "h \<in> set upd" if "GetKeyWithKind (res r) \<noteq> GetKeyWithKind (res s)"
      using differ [OF d r Some] IsEqual_key that by blast
    ultimately show ?thesis
      using r k Some by auto
  qed
  have "(\<exists>c \<in> set (changesOf old new). changeKey c = k \<and> rc_Op c = Delete) \<longleftrightarrow>
      (\<exists>h r. gget old h = Some r \<and> GetKeyWithKind (res r) = k \<and>
        (h \<in> set rem \<or> h \<in> set upd \<and> map_option (GetKeyWithKind \<circ> res) (gget old h) \<noteq> map_option (GetKeyWithKind \<circ> res) (gget new h)))"
    unfolding Bex_def set_changesOf [OF d] by (rule ex_change(2))
  also have "\<dots> \<longleftrightarrow> (\<exists>h r. gget old h = Some r \<and> GetKeyWithKind (res r) = k \<and>
      (\<nexists>s. gget new h = Some s \<and> GetKeyWithKind (res s) = k))"
    by (intro ex_cong1 conj_cong refl) (rule gone)
  finally show ?thesis .
qed

lemma deletesFirst_changesOf: "deletesFirst (changesOf old new)"
proof -
  obtain rem upd add where d: "detect old new = (rem, upd, add)"
    by (metis prod_cases3)
  show ?thesis
    unfolding deletesFirst_def changesOf_def d prod.case createResourceChanges_def Let_def
    by (intro exI conjI, rule refl) (auto simp: list_all_iff isDelete_def)
qed

text \<open>
  If a resource that stays deployed but loses a slot is refreshed in another one, the squashed
  changes delete exactly the resources that are not deployed any more.
\<close>

theorem deploy_changes:
  assumes "\<And>k h r. gget old h = Some r \<Longrightarrow> GetKeyWithKind (res r) = k \<Longrightarrow> k \<in> deployed res new \<Longrightarrow>
      \<nexists>s. gget new h = Some s \<and> GetKeyWithKind (res s) = k \<Longrightarrow> refreshed old new k"
  shows "applyChanges (squashResourceChanges (changesOf old new)) (deployed res old) = deployed res new"
proof (rule set_eqI)
  fix k
  let ?sq = "squashResourceChanges (changesOf old new)"
  note ops = squash_ops [OF deletesFirst_changesOf, of old new k, unfolded changesOf_updates changesOf_deletes]
  have fresh: "refreshed old new k \<Longrightarrow> k \<in> deployed res new"
    by (auto simp: refreshed_def deployed_def)
  have stay: "refreshed old new k" if k: "k \<in> deployed res new" "k \<notin> deployed res old"
  proof -
    obtain h r where h: "gget new h = Some r" "GetKeyWithKind (res r) = k"
      using k(1) by (auto simp: deployed_def)
    obtain rem upd add where d: "detect old new = (rem, upd, add)"
      by (metis prod_cases3)
    have "h \<in> set upd" if s: "gget old h = Some s" for s
    proof -
      have "GetKeyWithKind (res s) \<noteq> GetKeyWithKind (res r)"
        using deployedI [of old h s res, OF s] k(2) h(2) by auto
      then show ?thesis
        using differ [OF d s h(1)] IsEqual_key by blast
    qed
    with h d show ?thesis
      unfolding refreshed_def by (cases "gget old h") auto
  qed
  have lost: "\<exists>h r. gget old h = Some r \<and> GetKeyWithKind (res r) = k \<and> (\<nexists>s. gget new h = Some s \<and> GetKeyWithKind (res s) = k)"
    if k: "k \<in> deployed res old" "k \<notin> deployed res new"
  proof -
    obtain h r where "gget old h = Some r" "GetKeyWithKind (res r) = k"
      using k(1) by (auto simp: deployed_def)
    moreover have "\<nexists>s. gget new h = Some s \<and> GetKeyWithKind (res s) = k"
      using k(2) deployedI [of new h _ res] by blast
    ultimately show ?thesis by blast
  qed
  show "k \<in> applyChanges ?sq (deployed res old) \<longleftrightarrow> k \<in> deployed res new"
    unfolding applyChanges_distinct [OF distinct_squash] ops
    using assms fresh stay lost by blast
qed

end

section \<open>Hosts\<close>

lemma updatedHost_mem: "k \<in> set (updatedHost old new h) \<Longrightarrow> k = h \<and> gget old h \<noteq> None \<and> gget new h \<noteq> None"
  by (cases "gget old h"; cases "gget new h") (auto simp: updatedHost_def split: Resource.splits if_splits)

lemma updatedHost_differ:
  "gget old h = Some r \<Longrightarrow> gget new h = Some s \<Longrightarrow> \<not> IsEqual r s \<Longrightarrow> h \<in> set (updatedHost old new h)"
  by (simp add: updatedHost_def)

interpretation hostChanges: slotChanges id detectChangesInHosts
proof
  fix old new :: "(string, Resource) gomap" and rem upd add :: "string list" and k
  assume d: "detectChangesInHosts old new = (rem, upd, add)"
  show "k \<in> set rem \<longleftrightarrow> gget old k \<noteq> None \<and> gget new k = None"
    using d by (auto simp: detectChangesInHosts_def gkeys_gget)
  show "k \<in> set add \<longleftrightarrow> gget old k = None \<and> gget new k \<noteq> None"
    using d by (auto simp: detectChangesInHosts_def gkeys_gget)
  show "k \<in> set upd \<Longrightarrow> gget old k \<noteq> None \<and> gget new k \<noteq> None"
    using d updatedHost_mem [of k old new] by (auto simp: detectChangesInHosts_def) blast+
  show "k \<in> set upd" if r: "gget old k = Some r" "gget new k = Some s" "\<not> IsEqual (id r) (id s)" for r s
  proof -
    have "k \<in> set (sortedKeys new)"
      using r(2) by (auto simp: gkeys_gget)
    with updatedHost_differ [of old k r new s] r d show ?thesis
      by (auto simp: detectChangesInHosts_def)
  qed
qed

text \<open>
  The holders of hosts as a rebuild leaves them: a resource holds only hosts it claims, a key stands
  for one resource, and an Ingress records which of its hosts it holds.
\<close>

definition hostsConsistent :: "(string, Resource) gomap \<Rightarrow> bool" where
  "hostsConsistent hosts =
     (\<forall>h r. gget hosts h = Some r \<longrightarrow>
        h \<in> set (hostsOf r) \<and>
        (\<forall>h' r'. gget hosts h' = Some r' \<and> GetKeyWithKind r' = GetKeyWithKind r \<longrightarrow> r' = r) \<and>
        (\<forall>ic. r = IngressRes ic \<longrightarrow> gwf (ic_ValidHosts ic) \<and>
           (\<forall>h'. gget (ic_ValidHosts ic) h' = Some True \<longleftrightarrow> gget hosts h' = Some r)))"

lemma hostsConsistentD:
  assumes "hostsConsistent hosts" and "gget hosts h = Some r"
  shows "h \<in> set (hostsOf r)"
    and "gget hosts h' = Some r' \<Longrightarrow> GetKeyWithKind r' = GetKeyWithKind r \<Longrightarrow> r' = r"
    and "r = IngressRes ic \<Longrightarrow> gwf (ic_ValidHosts ic)"
    and "r = IngressRes ic \<Longrightarrow> gget (ic_ValidHosts ic) h' = Some True \<longleftrightarrow> gget hosts h' = Some r"
  using assms unfolding hostsConsistent_def by blast+

lemma hostsConsistent_Nil [simp]: "hostsConsistent []"
  by (simp add: hostsConsistent_def)

lemma GetKeyWithKind_kinds:
  "GetKeyWithKind r = GetKeyWithKind (IngressRes ic) \<Longrightarrow> \<exists>ic'. r = IngressRes ic'"
  by (cases r) auto

text \<open>An Ingress that keeps a host and loses another is not equal to what it was.\<close>

lemma lost_host_refreshed:
  assumes old: "hostsConsistent old" and new: "hostsConsistent new"
    and r: "gget old h = Some r" "GetKeyWithKind r = k" and stays: "k \<in> deployed id new"
    and lost: "\<nexists>s. gget new h = Some s \<and> GetKeyWithKind s = k"
  shows "hostChanges.refreshed old new k"
proof -
  obtain h2 s where s: "gget new h2 = Some s" "GetKeyWithKind s = k"
    using stays by (auto simp: deployed_def)
  obtain rem upd add where d: "detectChangesInHosts old new = (rem, upd, add)"
    by (metis prod_cases3)
  have "h2 \<in> set upd" if o: "gget old h2 = Some q" for q
  proof (rule hostChanges.differ [OF d o s(1)], rule notI)
    assume eq: "IsEqual (id q) (id s)"
    then have "GetKeyWithKind q = k"
      using IsEqual_key s(2) by fastforce
    then have q: "q = r"
      using hostsConsistentD(2) [OF old r(1) o] r(2) by simp
    have hs: "h \<in> set (hostsOf r)" "h2 \<in> set (hostsOf r)" "h \<noteq> h2"
      using hostsConsistentD(1) [OF old r(1)] hostsConsistentD(1) [OF old o] q lost s by auto
    then obtain ic where ic: "r = IngressRes ic"
      by (cases r) auto
    then obtain ic' where ic': "s = IngressRes ic'"
      using GetKeyWithKind_kinds [of s ic] r(2) s(2) by auto
    have "gget (ic_ValidHosts ic) h = Some True"
      using hostsConsistentD(4) [OF old r(1) ic] r(1) by simp
    moreover have "gget (ic_ValidHosts ic') h \<noteq> Some True"
      using hostsConsistentD(4) [OF new s(1) ic'] lost s(2) by auto
    moreover have "gmapEqual (ic_ValidHosts ic) (ic_ValidHosts ic')"
      using eq ic ic' q by (auto simp: isEqualIngress_def split: if_splits)
    then have "gget (ic_ValidHosts ic) = gget (ic_ValidHosts ic')"
      using gmapEqual_iff hostsConsistentD(3) [OF old r(1) ic] hostsConsistentD(3) [OF new s(1) ic'] by blast
    ultimately show False
      by simp
  qed
  with s d show ?thesis
    unfolding hostChanges.refreshed_def by (cases "gget old h2") auto
qed

lemma hosts_deployed:
  assumes "hostsConsistent old" and "hostsConsistent new"
  shows "applyChanges (squashResourceChanges (hostChanges.changesOf old new)) (deployed id old) = deployed id new"
  by (rule hostChanges.deploy_changes) (use lost_host_refreshed [OF assms] in \<open>auto simp: comp_def\<close>)

section \<open>Listener hosts\<close>

lemma set_getSortedListenerHostKeys: "k \<in> set (getSortedListenerHostKeys m) \<longleftrightarrow> gget m k \<noteq> None"
  by (auto simp: getSortedListenerHostKeys_def gkeys_gget)

interpretation listenerChanges: slotChanges TransportServerRes detectChangesInListenerHosts
proof
  fix old new :: "(listenerHostKey, TransportServerConfiguration) gomap" and rem upd add :: "listenerHostKey list" and k
  assume d: "detectChangesInListenerHosts old new = (rem, upd, add)"
  show "k \<in> set rem \<longleftrightarrow> gget old k \<noteq> None \<and> gget new k = None"
    using d by (auto simp: detectChangesInListenerHosts_def set_getSortedListenerHostKeys)
  show "k \<in> set add \<longleftrightarrow> gget old k = None \<and> gget new k \<noteq> None"
    using d by (auto simp: detectChangesInListenerHosts_def set_getSortedListenerHostKeys)
  show "k \<in> set upd \<Longrightarrow> gget old k \<noteq> None \<and> gget new k \<noteq> None"
    using d by (auto simp: detectChangesInListenerHosts_def set_getSortedListenerHostKeys split: option.splits)
  show "k \<in> set upd" if "gget old k = Some r" "gget new k = Some s" "\<not> IsEqual (TransportServerRes r) (TransportServerRes s)" for r s
    using d that by (auto simp: detectChangesInListenerHosts_def set_getSortedListenerHostKeys)
qed

text \<open>A TransportServer holds at most one listener.\<close>

definition oneListener :: "(listenerHostKey, TransportServerConfiguration) gomap \<Rightarrow> bool" where
  "oneListener hosts =
     (\<forall>h r h' r'. gget hosts h = Some r \<and> gget hosts h' = Some r' \<and>
        getResourceKey (tscMeta r) = getResourceKey (tscMeta r') \<longrightarrow> h = h')"

lemma listener_refreshed:
  assumes old: "oneListener old"
    and r: "gget old h = Some r" "GetKeyWithKind (TransportServerRes r) = k" and stays: "k \<in> deployed TransportServerRes new"
    and lost: "\<nexists>s. gget new h = Some s \<and> GetKeyWithKind (TransportServerRes s) = k"
  shows "listenerChanges.refreshed old new k"
proof -
  obtain h2 s where s: "gget new h2 = Some s" "GetKeyWithKind (TransportServerRes s) = k"
    using stays by (auto simp: deployed_def)
  then have "h2 \<noteq> h"
    using lost by auto
  obtain rem upd add where d: "detectChangesInListenerHosts old new = (rem, upd, add)"
    by (metis prod_cases3)
  have "h2 \<in> set upd" if o: "gget old h2 = Some q" for q
  proof (rule listenerChanges.differ [OF d o s(1)], rule notI)
    assume "IsEqual (TransportServerRes q) (TransportServerRes s)"
    then have "GetKeyWithKind (TransportServerRes q) = GetKeyWithKind (TransportServerRes r)"
      using IsEqual_key s(2) r(2) by metis
    then have "getResourceKey (tscMeta q) = getResourceKey (tscMeta r)"
      by (simp add: tscMeta_def)
    with old o r(1) \<open>h2 \<noteq> h\<close> show False
      unfolding oneListener_def by blast
  qed
  with s d show ?thesis
    unfolding listenerChanges.refreshed_def by (cases "gget old h2") auto
qed

lemma listeners_deployed:
  assumes "oneListener old"
  shows "applyChanges (squashResourceChanges (listenerChanges.changesOf old new)) (deployed TransportServerRes old) =
    deployed TransportServerRes new"
  by (rule listenerChanges.deploy_changes) (rule listener_refreshed [OF assms])

section \<open>The squashed changes\<close>


section \<open>Changes that are not seen\<close>

text \<open>
  A VirtualServer whose HTTPS addresses alone change (its listener moves to another address in the
  GlobalConfiguration) is no updated host. The same holds of the addresses of a TransportServer.
\<close>

lemma https_address_change_unseen:
  "gwf (vsc_VirtualServerRouteSelectors vsc) \<Longrightarrow>
   updatedHost [(h, VirtualServerRes vsc)] [(h, VirtualServerRes (vsc\<lparr>vsc_HTTPSIPv4 := a, vsc_HTTPSIPv6 := b\<rparr>))] h = []"
  by (simp add: updatedHost_def gget_def isEqualVirtualServer_def compareObjectMetas_def list_all2_refl routeSelectorsEqual_refl)

lemma ts_address_change_unseen:
  "IsEqual (TransportServerRes tsc) (TransportServerRes (tsc\<lparr>tsc_IPv4 := a, tsc_IPv6 := b\<rparr>))"
  by (simp add: isEqualTransportServer_def compareObjectMetas_def)

end
