(* ===== verification/Rebuild.thy ===== *)
theory Rebuild
  imports Changes
begin

text \<open>
  The two rebuilds of the \<^verbatim>\<open>Configuration\<close> (\<^verbatim>\<open>internal/k8s/configuration.go\<close>): \<^verbatim>\<open>rebuildHosts\<close> and
  \<^verbatim>\<open>rebuildListenerHosts\<close> compute the new holders, the changes and the new problems.

  In the code a change, a host and a resource are pointers to the same object, so a warning added at
  the end of a rebuild is seen through all of them. Here the holders of hosts are keys into the store
  of resources, and hosts and changes are taken from the final store.
\<close>

section \<open>Active hosts of Ingresses\<close>

text \<open>\<^verbatim>\<open>hosts[rule.Host].GetKeyWithKind()\<close> panics when the host has no holder.\<close>

fun setValidHosts :: "(string, string) gomap \<Rightarrow> string \<Rightarrow> IngressRule list \<Rightarrow> IngressConfiguration \<Rightarrow> IngressConfiguration option" where
  "setValidHosts holders k [] ic = Some ic"
| "setValidHosts holders k (rule # rules) ic =
     (case gget holders (rule_Host rule) of
        None \<Rightarrow> None
      | Some res \<Rightarrow>
          setValidHosts holders k rules
            (ic\<lparr>ic_ValidHosts := gput (ic_ValidHosts ic) (rule_Host rule) (res = k)\<rparr>))"

fun updateActiveHostsForIngresses :: "(string, string) gomap \<Rightarrow> (string, Resource) gomap \<Rightarrow> (string, Resource) gomap option" where
  "updateActiveHostsForIngresses holders [] = Some []"
| "updateActiveHostsForIngresses holders ((k, r) # resources) =
     (case (case r of
              IngressRes ic \<Rightarrow> map_option IngressRes (setValidHosts holders k (ing_Rules (ic_Ingress ic)) ic)
            | _ \<Rightarrow> Some r) of
        None \<Rightarrow> None
      | Some r' \<Rightarrow> map_option (\<lambda>rs. (k, r') # rs) (updateActiveHostsForIngresses holders resources))"

section \<open>Problems\<close>

definition EventReasonIgnored :: string where "EventReasonIgnored = ''Ignored''"
definition EventReasonNoIngressMasterFound :: string where "EventReasonNoIngressMasterFound = ''NoIngressMasterFound''"
definition EventReasonNoVirtualServerFound :: string where "EventReasonNoVirtualServerFound = ''NoVirtualServerFound''"
definition EventReasonRejected :: string where "EventReasonRejected = ''Rejected''"

definition problem :: "Object \<Rightarrow> string \<Rightarrow> string \<Rightarrow> ConfigurationProblem" where
  "problem obj reason message = \<lparr>cp_Object = obj, cp_IsError = False, cp_Reason = reason, cp_Message = message\<rparr>"

type_synonym problems = "(string, ConfigurationProblem) gomap"

definition tsListenerProblem ::
  "(listenerHostKey, TransportServerConfiguration) gomap \<Rightarrow> TransportServerConfiguration \<Rightarrow> problems \<Rightarrow> problems" where
  "tsListenerProblem listenerHosts tsc problems =
     (let ts = tsc_TransportServer tsc; listenerName = tsl_Name (ts_Listener ts); host = ts_Host ts;
          hostDescription = (if host \<noteq> [] then host else ''empty host'');
          key = GetKeyWithKind (TransportServerRes tsc)
      in case gget listenerHosts (ListenerHostKey listenerName host) of
           None \<Rightarrow> gput problems key (problem (ObjTransportServer ts) EventReasonRejected
             (''Listener '' @ listenerName @ '' doesn't exist''))
         | Some holder \<Rightarrow>
             if \<not> isEqualTransportServer tsc holder then
               gput problems key (problem (ObjTransportServer ts) EventReasonRejected
                 (''Listener '' @ listenerName @ '' with host '' @ hostDescription @ '' is taken by another resource''))
             else problems)"

definition addProblemsForTSConfigsWithoutActiveListener ::
  "Configuration \<Rightarrow> (string, TransportServerConfiguration) gomap \<Rightarrow> problems \<Rightarrow> problems" where
  "addProblemsForTSConfigsWithoutActiveListener c tsConfigs problems =
     fold (\<lambda>(k, tsc). tsListenerProblem (cfg_listenerHosts c) tsc) tsConfigs problems"

definition hostTaken :: "Configuration \<Rightarrow> string \<Rightarrow> Resource \<Rightarrow> Object \<Rightarrow> problems \<Rightarrow> problems option" where
  "hostTaken c host r obj problems =
     (case gget (cfg_hosts c) host of
        None \<Rightarrow> None
      | Some res \<Rightarrow>
          Some (if GetKeyWithKind res \<noteq> GetKeyWithKind r
                then gput problems (GetKeyWithKind r) (problem obj EventReasonRejected ''Host is taken by another resource'')
                else problems))"

fun resourceProblem :: "Configuration \<Rightarrow> Resource \<Rightarrow> problems \<Rightarrow> problems option" where
  "resourceProblem c (IngressRes ic) problems =
     Some (if list_ex snd (ic_ValidHosts ic) then problems
           else gput problems (GetKeyWithKind (IngressRes ic))
             (problem (ObjIngress (ic_Ingress ic)) EventReasonRejected ''All hosts are taken by other resources''))"
| "resourceProblem c (VirtualServerRes vsc) problems =
     hostTaken c (vs_Host (vsc_VirtualServer vsc)) (VirtualServerRes vsc) (ObjVirtualServer (vsc_VirtualServer vsc)) problems"
| "resourceProblem c (TransportServerRes tsc) problems =
     hostTaken c (ts_Host (tsc_TransportServer tsc)) (TransportServerRes tsc) (ObjTransportServer (tsc_TransportServer tsc)) problems"

fun addProblemsForResourcesWithoutActiveHost ::
  "Configuration \<Rightarrow> (string, Resource) gomap \<Rightarrow> problems \<Rightarrow> problems option" where
  "addProblemsForResourcesWithoutActiveHost c [] problems = Some problems"
| "addProblemsForResourcesWithoutActiveHost c ((k, r) # resources) problems =
     (case resourceProblem c r problems of
        None \<Rightarrow> None
      | Some problems' \<Rightarrow> addProblemsForResourcesWithoutActiveHost c resources problems')"

definition hasMaster :: "Configuration \<Rightarrow> string \<Rightarrow> bool" where
  "hasMaster c host = (case gget (cfg_hosts c) host of Some (IngressRes ic) \<Rightarrow> ic_IsMaster ic | _ \<Rightarrow> False)"

definition orphanMinion :: "Configuration \<Rightarrow> string \<Rightarrow> problems \<Rightarrow> problems" where
  "orphanMinion c key problems =
     (case gget (cfg_ingresses c) key of
        None \<Rightarrow> problems
      | Some ing \<Rightarrow> gput problems (getResourceKeyWithKind ingressKind (ing_ObjectMeta ing))
          (problem (ObjIngress ing) EventReasonNoIngressMasterFound ''Ingress master is invalid or doesn't exist''))"

definition addProblemsForOrphanMinions :: "Configuration \<Rightarrow> problems \<Rightarrow> problems" where
  "addProblemsForOrphanMinions c problems =
     fold (\<lambda>(host, minionKeys). if hasMaster c host then id else fold (\<lambda>(key, _). orphanMinion c key) minionKeys)
       (cfg_minionsByHost c) problems"

definition vsrProblem :: "Configuration \<Rightarrow> VirtualServerRoute \<Rightarrow> problems \<Rightarrow> problems" where
  "vsrProblem c vsr problems =
     (let k = getResourceKeyWithKind virtualServerRouteKind (vsr_ObjectMeta vsr)
      in case gget (cfg_hosts c) (vsr_Host vsr) of
           Some (VirtualServerRes vsConfig) \<Rightarrow>
             if list_ex (\<lambda>v. vsr_Namespace vsr = vsr_Namespace v \<and> vsr_Name vsr = vsr_Name v) (vsc_VirtualServerRoutes vsConfig)
             then problems
             else gput problems k (problem (ObjVirtualServerRoute vsr) EventReasonIgnored
               (''VirtualServer '' @ getResourceKey (vs_ObjectMeta (vsc_VirtualServer vsConfig)) @ '' ignores VirtualServerRoute''))
         | _ \<Rightarrow> gput problems k (problem (ObjVirtualServerRoute vsr) EventReasonNoVirtualServerFound
               ''VirtualServer is invalid or doesn't exist''))"

definition addProblemsForOrphanOrIgnoredVsrs :: "Configuration \<Rightarrow> problems \<Rightarrow> problems" where
  "addProblemsForOrphanOrIgnoredVsrs c problems = fold (vsrProblem c) (sortedValues (cfg_virtualServerRoutes c)) problems"

section \<open>Warnings about listeners\<close>

text \<open>The warning for a VirtualServer with custom listeners, if any.\<close>

definition listenerMisuse :: "Configuration \<Rightarrow> VirtualServer \<Rightarrow> string option" where
  "listenerMisuse c vs =
     (case vss_Listener (vs_Spec vs) of
        None \<Rightarrow> None
      | Some l \<Rightarrow>
          if cfg_globalConfiguration c = None then Some ''Listeners defined, but no GlobalConfiguration is deployed''
          else if \<not> isListenerInCorrectBlock (cfg_listenerMap c) (vsl_HTTP l) False then
            Some (''Listener '' @ vsl_HTTP l @ '' can't be use in `listener.http` context as SSL is enabled for that listener.'')
          else if \<not> isListenerInCorrectBlock (cfg_listenerMap c) (vsl_HTTPS l) True then
            Some (''Listener '' @ vsl_HTTPS l @ '' can't be use in `listener.https` context as SSL is not enabled for that listener.'')
          else if vsl_HTTP l \<noteq> [] \<and> gget (cfg_listenerMap c) (vsl_HTTP l) = None then
            Some (''Listener '' @ vsl_HTTP l @ '' is not defined in GlobalConfiguration'')
          else if vsl_HTTPS l \<noteq> [] \<and> gget (cfg_listenerMap c) (vsl_HTTPS l) = None then
            Some (''Listener '' @ vsl_HTTPS l @ '' is not defined in GlobalConfiguration'')
          else None)"

text \<open>
  The warning goes to the holder of the host. The second argument are the holders, whose resources
  are changed in the store; \<^verbatim>\<open>c.hosts[host].AddWarning\<close> panics when the host has no holder.
\<close>

fun addWarningsForVirtualServersWithMissConfiguredListeners ::
  "Configuration \<Rightarrow> (string, string) gomap \<Rightarrow> (string, Resource) gomap \<Rightarrow> (string, Resource) gomap \<Rightarrow> (string, Resource) gomap option" where
  "addWarningsForVirtualServersWithMissConfiguredListeners c holders [] store = Some store"
| "addWarningsForVirtualServersWithMissConfiguredListeners c holders ((k, r) # resources) store =
     (case r of
        VirtualServerRes vsc \<Rightarrow>
          (case listenerMisuse c (vsc_VirtualServer vsc) of
             None \<Rightarrow> addWarningsForVirtualServersWithMissConfiguredListeners c holders resources store
           | Some w \<Rightarrow>
               (case gget holders (vs_Host (vsc_VirtualServer vsc)) of
                  None \<Rightarrow> None
                | Some holder \<Rightarrow>
                    addWarningsForVirtualServersWithMissConfiguredListeners c holders resources (warnAt AddWarning w holder store)))
      | _ \<Rightarrow> addWarningsForVirtualServersWithMissConfiguredListeners c holders resources store)"

section \<open>The rebuilds\<close>

text \<open>\<^verbatim>\<open>changes[i].Resource = r\<close> for the latest version of the resource.\<close>

definition relink :: "(string, Resource) gomap \<Rightarrow> ResourceChange \<Rightarrow> ResourceChange" where
  "relink resources c =
     (case gget resources (changeKey c) of None \<Rightarrow> c | Some r \<Rightarrow> c\<lparr>rc_Resource := r\<rparr>)"

type_synonym outcome = "Configuration \<times> ResourceChange list \<times> ConfigurationProblem list"

definition rebuildHosts :: "vsrEnv \<Rightarrow> Configuration \<Rightarrow> outcome option" where
  "rebuildHosts env c =
     (case buildHostsAndResources env c of
        None \<Rightarrow> None
      | Some (holders, resources) \<Rightarrow>
          (case updateActiveHostsForIngresses holders resources of
             None \<Rightarrow> None
           | Some newResources \<Rightarrow>
               (let newHosts = resolve holders newResources;
                    (removedHosts, updatedHosts, addedHosts) = detectChangesInHosts (cfg_hosts c) newHosts;
                    changes = squashResourceChanges
                      (createResourceChangesForHosts removedHosts updatedHosts addedHosts (cfg_hosts c) newHosts);
                    c' = c\<lparr>cfg_hosts := newHosts\<rparr>
                in case addProblemsForResourcesWithoutActiveHost c' newResources [] of
                     None \<Rightarrow> None
                   | Some problems \<Rightarrow>
                       (let newProblems = addProblemsForOrphanOrIgnoredVsrs c' (addProblemsForOrphanMinions c' problems)
                        in case addWarningsForVirtualServersWithMissConfiguredListeners c' holders newResources newResources of
                             None \<Rightarrow> None
                           | Some finalResources \<Rightarrow>
                               Some (c'\<lparr>cfg_hosts := resolve holders finalResources, cfg_hostProblems := newProblems\<rparr>,
                                 map (relink finalResources) changes,
                                 detectChangesInProblems newProblems (cfg_hostProblems c))))))"

text \<open>
  \<^verbatim>\<open>newTSConfigs\<close> is indexed by namespace and name, but the code looks changes up by the key with
  the kind.
\<close>

definition relinkTS :: "(string, TransportServerConfiguration) gomap \<Rightarrow> ResourceChange \<Rightarrow> ResourceChange" where
  "relinkTS tsConfigs c =
     (case gget tsConfigs (changeKey c) of None \<Rightarrow> c | Some r \<Rightarrow> c\<lparr>rc_Resource := TransportServerRes r\<rparr>)"

definition rebuildListenerHosts :: "Configuration \<Rightarrow> outcome" where
  "rebuildListenerHosts c =
     (let (newListenerHosts, newTSConfigs) =
            buildListenerHostsAndTSConfigurations (cfg_globalConfiguration c) (cfg_transportServers c);
          (removed, updated, added) = detectChangesInListenerHosts (cfg_listenerHosts c) newListenerHosts;
          changes = squashResourceChanges
            (createResourceChangesForListeners removed updated added (cfg_listenerHosts c) newListenerHosts);
          c' = c\<lparr>cfg_listenerHosts := newListenerHosts\<rparr>;
          newProblems = addProblemsForTSConfigsWithoutActiveListener c' newTSConfigs []
      in (c'\<lparr>cfg_listenerProblems := newProblems\<rparr>, map (relinkTS newTSConfigs) changes,
          detectChangesInProblems newProblems (cfg_listenerProblems c)))"

section \<open>The active hosts\<close>

lemma setValidHosts_spec:
  assumes "\<forall>rule \<in> set rules. gget holders (rule_Host rule) \<noteq> None" and "gwf (ic_ValidHosts ic)"
  shows "\<exists>vh. setValidHosts holders k rules ic = Some (ic\<lparr>ic_ValidHosts := vh\<rparr>) \<and> gwf vh \<and>
    (\<forall>h. gget vh h = (if h \<in> rule_Host ` set rules then Some (gget holders h = Some k) else gget (ic_ValidHosts ic) h))"
  using assms
proof (induction rules arbitrary: ic)
  case Nil
  then show ?case
    by (intro exI [of _ "ic_ValidHosts ic"]) simp
next
  case (Cons rule rules)
  obtain res where res: "gget holders (rule_Host rule) = Some res"
    using Cons.prems(1) by auto
  let ?ic = "ic\<lparr>ic_ValidHosts := gput (ic_ValidHosts ic) (rule_Host rule) (res = k)\<rparr>"
  obtain vh where vh: "setValidHosts holders k rules ?ic = Some (?ic\<lparr>ic_ValidHosts := vh\<rparr>)" "gwf vh"
    "\<forall>h. gget vh h = (if h \<in> rule_Host ` set rules then Some (gget holders h = Some k) else gget (ic_ValidHosts ?ic) h)"
    using Cons.IH [of ?ic] Cons.prems by auto
  with res show ?case
    by (intro exI [of _ vh]) auto
qed

text \<open>What a rebuild knows of its resources once the valid hosts are set.\<close>

definition activeHosts :: "hostClaims \<Rightarrow> bool" where
  "activeHosts st =
     (builtHosts st \<and>
      (\<forall>k ic. gget (snd st) k = Some (IngressRes ic) \<longrightarrow> gwf (ic_ValidHosts ic) \<and>
         (\<forall>h. gget (ic_ValidHosts ic) h = Some True \<longleftrightarrow> gget (fst st) h = Some k)))"

definition activated :: "(string, string) gomap \<Rightarrow> string \<Rightarrow> Resource \<Rightarrow> Resource \<Rightarrow> bool" where
  "activated holders k r r' =
     (case r of
        IngressRes ic \<Rightarrow>
          (\<exists>vh. r' = IngressRes (ic\<lparr>ic_ValidHosts := vh\<rparr>) \<and> gwf vh \<and>
             (\<forall>h. gget vh h = (if h \<in> set (hostsOf r) then Some (gget holders h = Some k) else None)))
      | _ \<Rightarrow> r' = r)"

lemma activated_simps:
  "activated holders k r r' \<Longrightarrow> GetKeyWithKind r' = GetKeyWithKind r"
  "activated holders k r r' \<Longrightarrow> hostsOf r' = hostsOf r"
  by (cases r; auto simp: activated_def)+

lemma updateActiveHosts_spec:
  assumes "\<forall>(k, r) \<in> set resources. (\<forall>h \<in> set (hostsOf r). gget holders h \<noteq> None) \<and> (\<forall>ic. r = IngressRes ic \<longrightarrow> ic_ValidHosts ic = [])"
  shows "\<exists>new. updateActiveHostsForIngresses holders resources = Some new \<and>
    list_all2 (\<lambda>(k, r) (k', r'). k' = k \<and> activated holders k r r') resources new"
  using assms
proof (induction resources)
  case (Cons e resources)
  obtain k r where e: "e = (k, r)" by (cases e)
  obtain new where new: "updateActiveHostsForIngresses holders resources = Some new"
    "list_all2 (\<lambda>(k, r) (k', r'). k' = k \<and> activated holders k r r') resources new"
    using Cons by auto
  have "\<exists>r'. (case r of
              IngressRes ic \<Rightarrow> map_option IngressRes (setValidHosts holders k (ing_Rules (ic_Ingress ic)) ic)
            | _ \<Rightarrow> Some r) = Some r' \<and> activated holders k r r'"
  proof (cases r)
    case (IngressRes ic)
    then have "\<forall>rule \<in> set (ing_Rules (ic_Ingress ic)). gget holders (rule_Host rule) \<noteq> None" "ic_ValidHosts ic = []"
      using Cons.prems e by auto
    with setValidHosts_spec [of "ing_Rules (ic_Ingress ic)" holders ic k] obtain vh where
      "setValidHosts holders k (ing_Rules (ic_Ingress ic)) ic = Some (ic\<lparr>ic_ValidHosts := vh\<rparr>)" "gwf vh"
      "\<forall>h. gget vh h = (if h \<in> rule_Host ` set (ing_Rules (ic_Ingress ic)) then Some (gget holders h = Some k) else None)"
      by auto
    with IngressRes show ?thesis
      by (auto simp: activated_def)
  qed (auto simp: activated_def)
  then obtain r' where "(case r of
              IngressRes ic \<Rightarrow> map_option IngressRes (setValidHosts holders k (ing_Rules (ic_Ingress ic)) ic)
            | _ \<Rightarrow> Some r) = Some r'" "activated holders k r r'"
    by blast
  with new e show ?case
    by auto
qed simp

lemma gget_list_all2:
  assumes "list_all2 (\<lambda>(k, r) (k', r'). k' = k \<and> P k r r') m m'"
  shows "gget m' k = Some r' \<Longrightarrow> \<exists>r. gget m k = Some r \<and> P k r r'"
    and "gget m k = Some r \<Longrightarrow> \<exists>r'. gget m' k = Some r' \<and> P k r r'"
    and "gkeys m' = gkeys m"
  using assms by (induction m m' rule: list_all2_induct) (auto simp: gget_Cons gkeys_def split: if_splits)

lemma buildIngress_ValidHosts: "buildIngress c ing = Some (Build ic) \<Longrightarrow> ic_ValidHosts ic = []"
  by (auto simp: buildIngress_def NewRegularIngressConfiguration_def NewMasterIngressConfiguration_def
      split: if_splits option.splits list.splits)

lemma fresh_ValidHosts:
  assumes "keyedStores c" and "buildHostsAndResources env c = Some (holders, store)"
    and "gget store k = Some (IngressRes ic)"
  shows "ic_ValidHosts ic = []"
proof -
  obtain rs where rs: "createdResources env c = Some rs" and d: "distinct (map GetKeyWithKind rs)"
    and inv: "resourceClaims.claimInv hostWarning (baseResource rs) (hostClaimsOf rs) (holders, store)"
    and keys: "gkeys store = map GetKeyWithKind rs"
    using buildHosts_inv [OF assms(1,2)] .
  obtain b ws where b: "b \<in> set rs" "IngressRes ic = fold AddWarning ws b"
    using built_resource [OF inv d keys assms(3)] by (elim bexE conjE)
  have warn: "\<exists>ic0. b = IngressRes ic0 \<and> ic_ValidHosts ic0 = ic_ValidHosts ic" if "IngressRes ic = fold AddWarning ws b" for ws b ic
    using that
  proof (induction ws arbitrary: b)
    case (Cons w ws)
    then have "\<exists>ic0. AddWarning w b = IngressRes ic0 \<and> ic_ValidHosts ic0 = ic_ValidHosts ic"
      by simp
    then show ?case
      by (cases b) auto
  qed simp
  obtain ic0 where ic0: "b = IngressRes ic0" "ic_ValidHosts ic0 = ic_ValidHosts ic"
    using warn [OF b(2)] by blast
  then have "buildIngress c (ic_Ingress ic0) = Some (Build ic0)"
    using createdResources_comesFrom [OF rs b(1)] by simp
  then have "ic_ValidHosts ic0 = []"
    by (rule buildIngress_ValidHosts)
  with ic0 show ?thesis by simp
qed

lemma builtHostsD:
  assumes "builtHosts (holders, store)"
  shows "gwf holders" "gwf store" and "gget store k = Some r \<Longrightarrow> GetKeyWithKind r = k"
    and "gget store k = Some r \<Longrightarrow> h \<in> set (hostsOf r) \<Longrightarrow> gget holders h \<noteq> None"
    and "gget holders h = Some k \<Longrightarrow> \<exists>r. gget store k = Some r \<and> h \<in> set (hostsOf r)"
  using assms by (auto simp: builtHosts_def)

lemma updateActiveHosts_activeHosts:
  assumes "keyedStores c" and "buildHostsAndResources env c = Some (holders, store)"
  shows "\<exists>new. updateActiveHostsForIngresses holders store = Some new \<and> activeHosts (holders, new) \<and> gkeys new = gkeys store"
proof -
  note built = builtHostsD [OF buildHosts_builtHosts [OF assms]]
  have "\<forall>(k, r) \<in> set store. (\<forall>h \<in> set (hostsOf r). gget holders h \<noteq> None) \<and> (\<forall>ic. r = IngressRes ic \<longrightarrow> ic_ValidHosts ic = [])"
    using built(4) fresh_ValidHosts [OF assms] gget_memI [OF built(2)] by blast
  then obtain new where new: "updateActiveHostsForIngresses holders store = Some new"
    "list_all2 (\<lambda>(k, r) (k', r'). k' = k \<and> activated holders k r r') store new"
    using updateActiveHosts_spec by blast
  note g = gget_list_all2 [OF new(2)]
  have wf: "gwf new"
    using built(2) g(3) by (simp add: gwf_def gkeys_def)
  have stored: "GetKeyWithKind r' = k \<and> (\<forall>h \<in> set (hostsOf r'). gget holders h \<noteq> None)" if r': "gget new k = Some r'" for k r'
  proof -
    obtain r where r: "gget store k = Some r" "activated holders k r r'"
      using g(1) [OF r'] by blast
    then show ?thesis
      using built(3,4) [OF r(1)] activated_simps [OF r(2)] by simp
  qed
  have held: "\<exists>r'. gget new k = Some r' \<and> h \<in> set (hostsOf r')" if h: "gget holders h = Some k" for h k
  proof -
    obtain r where r: "gget store k = Some r" "h \<in> set (hostsOf r)"
      using built(5) [OF h] by blast
    then show ?thesis
      using g(2) [OF r(1)] activated_simps(2) by fastforce
  qed
  have "gwf (ic_ValidHosts ic) \<and> (\<forall>h. gget (ic_ValidHosts ic) h = Some True \<longleftrightarrow> gget holders h = Some k)"
    if ic: "gget new k = Some (IngressRes ic)" for k ic
  proof -
    obtain r where r: "gget store k = Some r" "activated holders k r (IngressRes ic)"
      using g(1) [OF ic] by blast
    then have vh: "gwf (ic_ValidHosts ic)" "gget (ic_ValidHosts ic) h =
        (if h \<in> set (hostsOf r) then Some (gget holders h = Some k) else None)" for h
      by (cases r; auto simp: activated_def)+
    have "h \<in> set (hostsOf r)" if "gget holders h = Some k" for h
      using built(5) [OF that] r(1) by auto
    with vh show ?thesis by auto
  qed
  with new(1) wf built(1) stored held g(3) show ?thesis
    by (auto simp: activeHosts_def builtHosts_def)
qed

section \<open>The rest of a rebuild does not panic\<close>

lemma gget_resolve_built:
  assumes "builtHosts (holders, store)"
  shows "gget (resolve holders store) h = Option.bind (gget holders h) (gget store)"
proof (rule gget_resolve)
  show "gwf holders"
    by (rule builtHostsD(1) [OF assms])
  show "gget store k \<noteq> None" if "gget holders s = Some k" for s k
    using builtHostsD(5) [OF assms that] by auto
qed

lemma resolve_hosts:
  assumes "builtHosts (holders, store)"
  shows "gget (resolve holders store) h = Some r \<longleftrightarrow> gget holders h = Some (GetKeyWithKind r) \<and> gget store (GetKeyWithKind r) = Some r"
  unfolding gget_resolve_built [OF assms] using builtHostsD(3) [OF assms] by (auto simp: bind_eq_Some_conv)

lemma resolve_held:
  assumes "builtHosts (holders, store)" and "gget holders h = Some k"
  shows "\<exists>r. gget (resolve holders store) h = Some r \<and> GetKeyWithKind r = k"
  using builtHostsD(3,5) [OF assms(1)] assms(2) by (fastforce simp: resolve_hosts [OF assms(1)])

lemma addProblemsForResources_no_panic:
  assumes "builtHosts (holders, store)" and "cfg_hosts c = resolve holders store" and "set rs \<subseteq> set store"
  shows "addProblemsForResourcesWithoutActiveHost c rs ps \<noteq> None"
  using assms(3)
proof (induction rs arbitrary: ps)
  case (Cons e rs)
  obtain k r where e: "e = (k, r)" by (cases e)
  then have "gget store k = Some r"
    using Cons.prems builtHostsD(2) [OF assms(1)] by (auto intro: gget_memI)
  then have "\<exists>s. gget (cfg_hosts c) h = Some s" if "h \<in> set (hostsOf r)" for h
    using builtHostsD(4) [OF assms(1)] resolve_held [OF assms(1)] that assms(2) by fastforce
  then have "resourceProblem c r ps \<noteq> None"
    by (cases r) (auto simp: hostTaken_def split: option.splits)
  with Cons e show ?case
    by auto
qed simp

lemma activeHosts_warnAt:
  assumes "activeHosts (holders, store)"
  shows "activeHosts (holders, warnAt AddWarning w k store)"
proof -
  note b = builtHostsD [of holders store]
  have built: "builtHosts (holders, store)"
    and valid: "gget store j = Some (IngressRes ic) \<Longrightarrow> gwf (ic_ValidHosts ic) \<and>
      (\<forall>h. gget (ic_ValidHosts ic) h = Some True \<longleftrightarrow> gget holders h = Some j)" for j ic
    using assms by (auto simp: activeHosts_def)
  have host: "hostsOf (AddWarning w r) = hostsOf r" for r
    by (cases r) simp_all
  have old: "\<exists>r. gget store j = Some r \<and> (r' = r \<or> r' = AddWarning w r)" if "gget (warnAt AddWarning w k store) j = Some r'" for j r'
    using that by (cases "j = k") auto
  have "builtHosts (holders, warnAt AddWarning w k store)"
    unfolding builtHosts_def fst_conv snd_conv
  proof (intro conjI allI impI)
    show "gwf holders" "gwf (warnAt AddWarning w k store)"
      using b(1,2) [OF built] by simp_all
    show "GetKeyWithKind r = j" "\<forall>h \<in> set (hostsOf r). gget holders h \<noteq> None"
      if "gget (warnAt AddWarning w k store) j = Some r" for j r
      using old [OF that] b(3,4) [OF built] host by auto
    show "\<exists>r. gget (warnAt AddWarning w k store) j = Some r \<and> h \<in> set (hostsOf r)" if "gget holders h = Some j" for h j
      using b(5) [OF built that] host by auto
  qed
  moreover have "gwf (ic_ValidHosts ic) \<and> (\<forall>h. gget (ic_ValidHosts ic) h = Some True \<longleftrightarrow> gget holders h = Some j)"
    if ic: "gget (warnAt AddWarning w k store) j = Some (IngressRes ic)" for j ic
  proof -
    obtain r where r: "gget store j = Some r" "IngressRes ic = r \<or> IngressRes ic = AddWarning w r"
      using old [OF ic] by blast
    then obtain ic0 where "r = IngressRes ic0" "ic_ValidHosts ic0 = ic_ValidHosts ic"
      by (cases r) auto
    with valid [of j ic0] r(1) show ?thesis by simp
  qed
  ultimately show ?thesis
    by (simp add: activeHosts_def)
qed

lemma activeHosts_built: "activeHosts st \<Longrightarrow> builtHosts st"
  by (simp add: activeHosts_def)

lemma addWarnings_activeHosts:
  assumes "activeHosts (holders, store)"
    and "\<forall>(k, r) \<in> set rs. \<forall>h \<in> set (hostsOf r). gget holders h \<noteq> None"
  shows "\<exists>final. addWarningsForVirtualServersWithMissConfiguredListeners c holders rs store = Some final \<and>
    activeHosts (holders, final)"
  using assms
proof (induction rs arbitrary: store)
  case (Cons e rs)
  obtain k r where e: "e = (k, r)" by (cases e)
  have rest: "\<forall>(k, r) \<in> set rs. \<forall>h \<in> set (hostsOf r). gget holders h \<noteq> None"
    using Cons.prems(2) by simp
  show ?case
  proof (cases r)
    case (VirtualServerRes vsc)
    then obtain holder where "gget holders (vs_Host (vsc_VirtualServer vsc)) = Some holder"
      using Cons.prems(2) e by auto
    with VirtualServerRes Cons.IH [OF Cons.prems(1) rest] Cons.IH [OF activeHosts_warnAt [OF Cons.prems(1)] rest] e
    show ?thesis
      by (auto split: option.splits)
  qed (use Cons.IH [OF Cons.prems(1) rest] e in auto)
qed simp

text \<open>The last step of a rebuild adds warnings and changes nothing else.\<close>

definition warned :: "(string, Resource) gomap \<Rightarrow> (string, Resource) gomap \<Rightarrow> bool" where
  "warned store store' = (\<forall>k. \<exists>ws. gget store' k = map_option (fold AddWarning ws) (gget store k))"

lemma warned_refl: "warned store store"
proof -
  have "\<exists>ws. gget store k = map_option (fold AddWarning ws) (gget store k)" for k
    by (intro exI [of _ "[]"]) (simp add: option.map_id)
  then show ?thesis
    by (simp add: warned_def)
qed

lemma warned_warnAt:
  assumes "warned (warnAt AddWarning w j store) store'"
  shows "warned store store'"
  unfolding warned_def
proof
  fix k
  obtain ws where ws: "gget store' k = map_option (fold AddWarning ws) (gget (warnAt AddWarning w j store) k)"
    using assms unfolding warned_def by blast
  show "\<exists>ws. gget store' k = map_option (fold AddWarning ws) (gget store k)"
  proof (cases "k = j")
    case True
    then have "gget store' k = map_option (fold AddWarning (w # ws)) (gget store k)"
      using ws by (simp add: option.map_comp comp_def)
    then show ?thesis ..
  next
    case False
    then show ?thesis
      using ws by auto
  qed
qed

lemma addWarnings_warned:
  "addWarningsForVirtualServersWithMissConfiguredListeners c holders rs store = Some final \<Longrightarrow> warned store final"
  by (induction c holders rs store rule: addWarningsForVirtualServersWithMissConfiguredListeners.induct)
    (auto simp: warned_refl split: Resource.splits option.splits dest: warned_warnAt)

lemma fold_AddWarning:
  "fold AddWarning ws (IngressRes ic) = IngressRes (ic\<lparr>ic_Warnings := ic_Warnings ic @ ws\<rparr>)"
  "fold AddWarning ws (VirtualServerRes vsc) = VirtualServerRes (vsc\<lparr>vsc_Warnings := vsc_Warnings vsc @ ws\<rparr>)"
  "fold AddWarning ws (TransportServerRes tsc) = TransportServerRes (tsc\<lparr>tsc_Warnings := tsc_Warnings tsc @ ws\<rparr>)"
  by (induction ws arbitrary: ic vsc tsc) simp_all

lemma warned_hosts:
  assumes "builtHosts (holders, store)" and "builtHosts (holders, store')" and "warned store store'"
  shows "\<exists>ws. gget (resolve holders store') h = map_option (fold AddWarning ws) (gget (resolve holders store) h)"
  using assms(3) unfolding gget_resolve_built [OF assms(1)] gget_resolve_built [OF assms(2)] warned_def
  by (cases "gget holders h") auto

section \<open>What a rebuild of the hosts does\<close>

lemma activeHosts_consistent:
  assumes "activeHosts (holders, store)"
  shows "hostsConsistent (resolve holders store)"
proof -
  have built: "builtHosts (holders, store)"
    using assms by (rule activeHosts_built)
  note r = resolve_hosts [OF built]
  show ?thesis
    unfolding hostsConsistent_def
  proof (intro allI impI conjI)
    fix h s
    assume s: "gget (resolve holders store) h = Some s"
    show "h \<in> set (hostsOf s)"
      using s builtHostsD(5) [OF built, of h] by (auto simp: r)
    show "s' = s" if "gget (resolve holders store) h' = Some s' \<and> GetKeyWithKind s' = GetKeyWithKind s" for h' s'
      using s that by (auto simp: r)
    show "gwf (ic_ValidHosts ic)" if "s = IngressRes ic" for ic
      using s that assms by (auto simp: r activeHosts_def)
    show "gget (ic_ValidHosts ic) h' = Some True \<longleftrightarrow> gget (resolve holders store) h' = Some s" if "s = IngressRes ic" for ic h'
      using s that assms unfolding r activeHosts_def by auto
  qed
qed

lemma deployed_resolve:
  assumes "builtHosts (holders, store)"
  shows "deployed id (resolve holders store) = {k. \<exists>h. gget holders h = Some k}"
  using resolve_held [OF assms] by (auto simp: deployed_def resolve_hosts [OF assms]) metis

lemma relink_simps:
  assumes "\<And>k r. gget resources k = Some r \<Longrightarrow> GetKeyWithKind r = k"
  shows "changeKey (relink resources d) = changeKey d" "rc_Op (relink resources d) = rc_Op d"
  using assms by (auto simp: relink_def split: option.splits)

lemma applyChanges_cong:
  assumes "\<And>d. changeKey (f d) = changeKey d" and "\<And>d. rc_Op (f d) = rc_Op d"
  shows "applyChanges (map f cs) D = applyChanges cs D"
proof -
  have "applyChange (f d) = applyChange d" for d
    using assms by (cases "rc_Op d") (simp_all add: applyChange_def fun_eq_iff)
  then show ?thesis
    by (simp add: applyChanges_def fold_map comp_def)
qed

lemma deletesFirst_map:
  "deletesFirst cs \<Longrightarrow> (\<And>d. rc_Op (f d) = rc_Op d) \<Longrightarrow> deletesFirst (map f cs)"
  unfolding deletesFirst_def by (force simp: list_all_iff isDelete_def)

text \<open>The parts of a successful rebuild.\<close>

lemma rebuildHosts_parts:
  assumes "keyedStores c" and "ingressesOk c"
  obtains holders store0 store1 store problems changes ps where
    "buildHostsAndResources env c = Some (holders, store0)" "activeHosts (holders, store1)" "activeHosts (holders, store)"
    "gkeys store1 = gkeys store0" "warned store1 store"
    "addProblemsForResourcesWithoutActiveHost (c\<lparr>cfg_hosts := resolve holders store1\<rparr>) store1 [] = Some problems"
    "changes = squashResourceChanges (hostChanges.changesOf (cfg_hosts c) (resolve holders store1))"
    "rebuildHosts env c =
       Some (c\<lparr>cfg_hosts := resolve holders store,
               cfg_hostProblems := addProblemsForOrphanOrIgnoredVsrs (c\<lparr>cfg_hosts := resolve holders store1\<rparr>)
                 (addProblemsForOrphanMinions (c\<lparr>cfg_hosts := resolve holders store1\<rparr>) problems)\<rparr>,
             map (relink store) changes, ps)"
proof -
  obtain holders store0 where b: "buildHostsAndResources env c = Some (holders, store0)"
    using buildHostsAndResources_no_panic [OF assms(2)] by blast
  obtain store1 where s1: "updateActiveHostsForIngresses holders store0 = Some store1" "activeHosts (holders, store1)"
    "gkeys store1 = gkeys store0"
    using updateActiveHosts_activeHosts [OF assms(1) b] by blast
  note built = activeHosts_built [OF s1(2)]
  let ?c = "c\<lparr>cfg_hosts := resolve holders store1\<rparr>"
  have "addProblemsForResourcesWithoutActiveHost ?c store1 [] \<noteq> None"
    by (rule addProblemsForResources_no_panic [OF built]) simp_all
  then obtain problems where p: "addProblemsForResourcesWithoutActiveHost ?c store1 [] = Some problems"
    by blast
  have "\<forall>(k, r) \<in> set store1. \<forall>h \<in> set (hostsOf r). gget holders h \<noteq> None"
    using builtHostsD(4) [OF built] gget_memI [OF builtHostsD(2) [OF built]] by blast
  then obtain store where s2: "addWarningsForVirtualServersWithMissConfiguredListeners ?c holders store1 store1 = Some store"
    "activeHosts (holders, store)"
    using addWarnings_activeHosts [OF s1(2)] by blast
  obtain rem upd add where d: "detectChangesInHosts (cfg_hosts c) (resolve holders store1) = (rem, upd, add)"
    by (metis prod_cases3)
  then have ch: "hostChanges.changesOf (cfg_hosts c) (resolve holders store1) =
      createResourceChangesForHosts rem upd add (cfg_hosts c) (resolve holders store1)"
    by (simp add: hostChanges.changesOf_def createResourceChangesForHosts_def)
  show thesis
    by (rule that [OF b s1(2) s2(2) s1(3) addWarnings_warned [OF s2(1)] p refl]) (simp add: rebuildHosts_def b s1(1) d p s2(1) ch Let_def)
qed

lemma rebuildHosts_spec:
  assumes "keyedStores c" and "ingressesOk c" and "hostsConsistent (cfg_hosts c)"
  obtains holders store0 store problems changes ps where
    "rebuildHosts env c = Some (c\<lparr>cfg_hosts := resolve holders store, cfg_hostProblems := problems\<rparr>, changes, ps)"
    "buildHostsAndResources env c = Some (holders, store0)" "activeHosts (holders, store)"
    "distinct (map changeKey changes)" "deletesFirst changes"
    "applyChanges changes (deployed id (cfg_hosts c)) = deployed id (resolve holders store)"
proof -
  obtain holders store0 store1 store problems changes ps where
    b: "buildHostsAndResources env c = Some (holders, store0)" and s1: "activeHosts (holders, store1)"
    and s2: "activeHosts (holders, store)"
    and ch: "changes = squashResourceChanges (hostChanges.changesOf (cfg_hosts c) (resolve holders store1))"
    and r: "rebuildHosts env c =
       Some (c\<lparr>cfg_hosts := resolve holders store,
               cfg_hostProblems := addProblemsForOrphanOrIgnoredVsrs (c\<lparr>cfg_hosts := resolve holders store1\<rparr>)
                 (addProblemsForOrphanMinions (c\<lparr>cfg_hosts := resolve holders store1\<rparr>) problems)\<rparr>,
             map (relink store) changes, ps)"
    using rebuildHosts_parts [OF assms(1,2)] .
  note relink = relink_simps [of store, OF builtHostsD(3) [OF activeHosts_built [OF s2]]]
  have "applyChanges changes (deployed id (cfg_hosts c)) = deployed id (resolve holders store1)"
    unfolding ch by (rule hosts_deployed [OF assms(3) activeHosts_consistent [OF s1]])
  moreover have "applyChanges (map (relink store) changes) D = applyChanges changes D" for D
    by (rule applyChanges_cong) (simp_all add: relink)
  ultimately have "applyChanges (map (relink store) changes) (deployed id (cfg_hosts c)) = deployed id (resolve holders store)"
    using deployed_resolve [OF activeHosts_built [OF s1]] deployed_resolve [OF activeHosts_built [OF s2]] by simp
  moreover have "distinct (map changeKey (map (relink store) changes))"
    using distinct_squash [of "hostChanges.changesOf (cfg_hosts c) (resolve holders store1)"]
    unfolding ch by (simp add: comp_def relink)
  moreover have "deletesFirst (map (relink store) changes)"
    unfolding ch by (rule deletesFirst_map [of _ "relink store", OF deletesFirst_squash relink(2)])
  ultimately show thesis
    using that [OF r b s2] by blast
qed

section \<open>Which objects have a problem\<close>

lemma list_ex_snd: "gwf m \<Longrightarrow> list_ex snd m \<longleftrightarrow> (\<exists>h. gget m h = Some True)"
  by (force simp: list_ex_iff gget_iff)

lemma resourceProblem_spec:
  assumes act: "activeHosts (holders, store)" and c: "cfg_hosts c = resolve holders store" and r: "gget store k = Some r"
    and ps: "resourceProblem c r ps = Some ps'"
  shows "set (gkeys ps') = set (gkeys ps) \<union> ({k} - deployed id (cfg_hosts c))"
proof -
  note built = activeHosts_built [OF act]
  have dep: "k \<in> deployed id (cfg_hosts c) \<longleftrightarrow> (\<exists>h. gget holders h = Some k)"
    unfolding c deployed_resolve [OF built] by simp
  have key: "GetKeyWithKind r = k"
    by (rule builtHostsD(3) [OF built r])
  have own: "h \<in> set (hostsOf r)" if "gget holders h = Some k" for h
    using builtHostsD(5) [OF built that] r by auto
  have one: "GetKeyWithKind res = k \<longleftrightarrow> k \<in> deployed id (cfg_hosts c)"
    if "hostsOf r = [host]" "gget (cfg_hosts c) host = Some res" for host res
  proof -
    have "gget holders host = Some (GetKeyWithKind res)"
      using that(2) unfolding c resolve_hosts [OF built] by blast
    then show ?thesis
      unfolding dep using own that(1) by auto
  qed
  define D where "D = deployed id (cfg_hosts c)"
  show ?thesis
    unfolding D_def [symmetric]
  proof (cases r)
    case (IngressRes ic)
    then have "list_ex snd (ic_ValidHosts ic) \<longleftrightarrow> k \<in> D"
      using act r dep list_ex_snd [of "ic_ValidHosts ic"] by (auto simp: activeHosts_def D_def)
    with ps IngressRes key show "set (gkeys ps') = set (gkeys ps) \<union> ({k} - D)"
      by (auto simp: gkeys_gput split: if_splits)
  next
    case (VirtualServerRes vsc)
    with ps key one [folded D_def] show "set (gkeys ps') = set (gkeys ps) \<union> ({k} - D)"
      by (auto simp: hostTaken_def gkeys_gput split: option.splits if_splits)
  next
    case (TransportServerRes tsc)
    with ps key one [folded D_def] show "set (gkeys ps') = set (gkeys ps) \<union> ({k} - D)"
      by (auto simp: hostTaken_def gkeys_gput split: option.splits if_splits)
  qed
qed

lemma addProblemsForResources_spec:
  assumes "activeHosts (holders, store)" and "cfg_hosts c = resolve holders store" and "set rs \<subseteq> set store"
    and "addProblemsForResourcesWithoutActiveHost c rs ps = Some ps'" and D: "D = deployed id (cfg_hosts c)"
  shows "set (gkeys ps') = set (gkeys ps) \<union> (set (gkeys rs) - D)"
  using assms(3,4)
proof (induction rs arbitrary: ps)
  case (Cons e rs)
  obtain k r where e: "e = (k, r)" by (cases e)
  obtain ps1 where ps1: "resourceProblem c r ps = Some ps1" "addProblemsForResourcesWithoutActiveHost c rs ps1 = Some ps'"
    using Cons.prems(2) e by (auto split: option.splits)
  have "gget store k = Some r"
    using Cons.prems(1) e gget_memI [OF builtHostsD(2) [OF activeHosts_built [OF assms(1)]]] by auto
  from resourceProblem_spec [OF assms(1,2) this ps1(1)] Cons.IH [OF _ ps1(2)] Cons.prems(1)
  have "set (gkeys ps') = set (gkeys ps) \<union> ({k} - D) \<union> (set (gkeys rs) - D)"
    by (simp add: D)
  with e show ?case
    by (auto simp: gkeys_def)
qed simp

text \<open>A minion is orphaned when no master holds its host.\<close>

definition orphaned :: "Configuration \<Rightarrow> string set" where
  "orphaned c =
     {getResourceKeyWithKind ingressKind (ing_ObjectMeta ing) | host key ing.
        minionOf (cfg_ingresses c) host key \<and> \<not> hasMaster c host \<and> gget (cfg_ingresses c) key = Some ing}"

lemma orphanMinion_fold:
  "set (gkeys (fold (\<lambda>(key, _). orphanMinion c key) keys ps)) =
   set (gkeys ps) \<union> {getResourceKeyWithKind ingressKind (ing_ObjectMeta ing) | key ing.
     key \<in> set (gkeys keys) \<and> gget (cfg_ingresses c) key = Some ing}"
proof (induction keys arbitrary: ps)
  case (Cons e keys)
  obtain key b where e: "e = (key, b)" by (cases e)
  show ?case
  proof (cases "gget (cfg_ingresses c) key")
    case None
    then show ?thesis
      unfolding e using Cons.IH [of ps] by (auto simp: orphanMinion_def gkeys_def)
  next
    case (Some ing)
    then have "orphanMinion c key ps = gput ps (getResourceKeyWithKind ingressKind (ing_ObjectMeta ing))
        (problem (ObjIngress ing) EventReasonNoIngressMasterFound ''Ingress master is invalid or doesn't exist'')"
      by (simp add: orphanMinion_def)
    with Some show ?thesis
      unfolding e by (auto simp: Cons.IH gkeys_gput) (auto simp: gkeys_def)
  qed
qed simp

lemma orphanMinions_fold:
  "set (gkeys (fold (\<lambda>(host, minionKeys). if hasMaster c host then id else fold (\<lambda>(key, _). orphanMinion c key) minionKeys) idx ps)) =
   set (gkeys ps) \<union> {getResourceKeyWithKind ingressKind (ing_ObjectMeta ing) | host keys key ing.
     (host, keys) \<in> set idx \<and> \<not> hasMaster c host \<and> key \<in> set (gkeys keys) \<and> gget (cfg_ingresses c) key = Some ing}"
proof (induction idx arbitrary: ps)
  case (Cons e idx)
  obtain host keys where e: "e = (host, keys)" by (cases e)
  let ?keys = "\<lambda>idx. {getResourceKeyWithKind ingressKind (ing_ObjectMeta ing) | host keys key ing.
     (host, keys) \<in> set idx \<and> \<not> hasMaster c host \<and> key \<in> set (gkeys keys) \<and> gget (cfg_ingresses c) key = Some ing}"
  have "?keys (e # idx) = ?keys [e] \<union> ?keys idx"
    unfolding list.set by blast
  moreover have "?keys [e] = (if hasMaster c host then {} else {getResourceKeyWithKind ingressKind (ing_ObjectMeta ing) | key ing.
     key \<in> set (gkeys keys) \<and> gget (cfg_ingresses c) key = Some ing})"
    unfolding e by auto
  ultimately show ?case
    using Cons.IH [of ps] Cons.IH [of "fold (\<lambda>(key, _). orphanMinion c key) keys ps"] orphanMinion_fold [of c keys ps]
    by (simp add: e Un_assoc)
qed simp

lemma indexed_entries:
  assumes "indexInv (cfg_ingresses c) (cfg_minionsByHost c)"
  shows "(\<exists>keys. (host, keys) \<in> set (cfg_minionsByHost c) \<and> key \<in> set (gkeys keys)) \<longleftrightarrow> minionOf (cfg_ingresses c) host key"
proof -
  have wf: "gwf (cfg_minionsByHost c)"
    and keys: "gget (cfg_minionsByHost c) host = Some keys \<Longrightarrow> k \<in> set (gkeys keys) \<Longrightarrow> gget keys k = Some True" for keys k
    using assms by (auto simp: indexInv_def wfIndex_def)
  have "(\<exists>keys. (host, keys) \<in> set (cfg_minionsByHost c) \<and> key \<in> set (gkeys keys)) \<longleftrightarrow> indexed (cfg_minionsByHost c) host key"
    unfolding gget_iff [OF wf, symmetric] indexed_def using keys
    by (cases "gget (cfg_minionsByHost c) host") (auto simp: set_gkeys)
  also have "\<dots> \<longleftrightarrow> minionOf (cfg_ingresses c) host key"
    using assms by (simp add: indexInv_def)
  finally show ?thesis .
qed

lemma orphanMinions_spec:
  assumes "indexInv (cfg_ingresses c) (cfg_minionsByHost c)"
  shows "set (gkeys (addProblemsForOrphanMinions c ps)) = set (gkeys ps) \<union> orphaned c"
proof -
  have "{getResourceKeyWithKind ingressKind (ing_ObjectMeta ing) | host keys key ing.
     (host, keys) \<in> set (cfg_minionsByHost c) \<and> \<not> hasMaster c host \<and> key \<in> set (gkeys keys) \<and>
     gget (cfg_ingresses c) key = Some ing} = orphaned c"
    unfolding orphaned_def indexed_entries [OF assms, symmetric] by blast
  then show ?thesis
    unfolding addProblemsForOrphanMinions_def orphanMinions_fold by simp
qed

text \<open>A VirtualServerRoute is served when the VirtualServer that holds its host includes it.\<close>

definition served :: "Configuration \<Rightarrow> VirtualServerRoute \<Rightarrow> bool" where
  "served c vsr =
     (case gget (cfg_hosts c) (vsr_Host vsr) of
        Some (VirtualServerRes vsc) \<Rightarrow>
          list_ex (\<lambda>v. vsr_Namespace vsr = vsr_Namespace v \<and> vsr_Name vsr = vsr_Name v) (vsc_VirtualServerRoutes vsc)
      | _ \<Rightarrow> False)"

lemma vsrProblem_spec:
  "set (gkeys (vsrProblem c vsr ps)) =
   set (gkeys ps) \<union> (if served c vsr then {} else {getResourceKeyWithKind virtualServerRouteKind (vsr_ObjectMeta vsr)})"
  by (auto simp: vsrProblem_def served_def Let_def gkeys_gput split: option.splits Resource.splits)

lemma orphanVsrs_spec:
  "set (gkeys (addProblemsForOrphanOrIgnoredVsrs c ps)) =
   set (gkeys ps) \<union> {getResourceKeyWithKind virtualServerRouteKind (vsr_ObjectMeta vsr) | k vsr.
     gget (cfg_virtualServerRoutes c) k = Some vsr \<and> \<not> served c vsr}"
proof -
  have "set (gkeys (fold (vsrProblem c) vsrs ps)) =
      set (gkeys ps) \<union> {getResourceKeyWithKind virtualServerRouteKind (vsr_ObjectMeta vsr) | vsr. vsr \<in> set vsrs \<and> \<not> served c vsr}" for vsrs
    by (induction vsrs arbitrary: ps) (auto simp: vsrProblem_spec)
  then show ?thesis
    unfolding addProblemsForOrphanOrIgnoredVsrs_def by (auto simp: set_sortedValues)
qed

text \<open>
  C22. A rebuild of the hosts reports a problem for exactly the objects that are not served: the
  Ingresses, VirtualServers and TLS passthrough TransportServers that hold none of the hosts they
  claim, the minions without a master, and the VirtualServerRoutes that no VirtualServer holding their
  host includes.
\<close>

theorem problems_are_the_unserved:
  assumes "keyedStores c" and "ingressesOk c"
  shows "\<exists>c' changes ps resources. rebuildHosts env c = Some (c', changes, ps) \<and> createdResources env c = Some resources \<and>
    set (gkeys (cfg_hostProblems c')) =
      (GetKeyWithKind ` set resources - deployed id (cfg_hosts c')) \<union> orphaned c' \<union>
      {getResourceKeyWithKind virtualServerRouteKind (vsr_ObjectMeta vsr) | k vsr.
         gget (cfg_virtualServerRoutes c') k = Some vsr \<and> \<not> served c' vsr}"
proof -
  obtain holders store0 store1 store problems changes ps where
    b: "buildHostsAndResources env c = Some (holders, store0)" and s1: "activeHosts (holders, store1)"
    and s2: "activeHosts (holders, store)" and keys: "gkeys store1 = gkeys store0" and w: "warned store1 store"
    and p: "addProblemsForResourcesWithoutActiveHost (c\<lparr>cfg_hosts := resolve holders store1\<rparr>) store1 [] = Some problems"
    and r: "rebuildHosts env c =
       Some (c\<lparr>cfg_hosts := resolve holders store,
               cfg_hostProblems := addProblemsForOrphanOrIgnoredVsrs (c\<lparr>cfg_hosts := resolve holders store1\<rparr>)
                 (addProblemsForOrphanMinions (c\<lparr>cfg_hosts := resolve holders store1\<rparr>) problems)\<rparr>,
             map (relink store) changes, ps)"
    using rebuildHosts_parts [OF assms] .
  let ?c1 = "c\<lparr>cfg_hosts := resolve holders store1\<rparr>"
  let ?problems = "addProblemsForOrphanOrIgnoredVsrs ?c1 (addProblemsForOrphanMinions ?c1 problems)"
  let ?c2 = "c\<lparr>cfg_hosts := resolve holders store, cfg_hostProblems := ?problems\<rparr>"
  note built = activeHosts_built [OF s1] activeHosts_built [OF s2]
  obtain rs where rs: "createdResources env c = Some rs" "gkeys store0 = map GetKeyWithKind rs"
    using buildHosts_inv [OF assms(1) b] by blast
  have same: "\<exists>ws. gget (cfg_hosts ?c2) h = map_option (fold AddWarning ws) (gget (cfg_hosts ?c1) h)" for h
    using warned_hosts [OF built w] by simp
  have master: "hasMaster ?c2 h = hasMaster ?c1 h" for h
    using same [of h] by (auto simp: hasMaster_def fold_AddWarning split: option.splits Resource.splits)
  then have orphans: "orphaned ?c2 = orphaned ?c1"
    by (simp add: orphaned_def)
  have serve: "served ?c2 v = served ?c1 v" for v
    using same [of "vsr_Host v"] by (auto simp: served_def fold_AddWarning split: option.splits Resource.splits)
  have dep: "deployed id (resolve holders store) = deployed id (resolve holders store1)"
    using deployed_resolve [OF built(1)] deployed_resolve [OF built(2)] by simp
  have "set (gkeys problems) = GetKeyWithKind ` set rs - deployed id (resolve holders store1)"
    using addProblemsForResources_spec [OF s1 _ _ p refl] keys rs(2) by simp
  moreover have "set (gkeys ?problems) = set (gkeys problems) \<union> orphaned ?c1 \<union>
      {getResourceKeyWithKind virtualServerRouteKind (vsr_ObjectMeta vsr) | k vsr.
         gget (cfg_virtualServerRoutes ?c1) k = Some vsr \<and> \<not> served ?c1 vsr}"
    using assms(2) orphanMinions_spec [of ?c1 problems] by (simp add: orphanVsrs_spec ingressesOk_def)
  ultimately have "set (gkeys (cfg_hostProblems ?c2)) =
      (GetKeyWithKind ` set rs - deployed id (cfg_hosts ?c2)) \<union> orphaned ?c2 \<union>
      {getResourceKeyWithKind virtualServerRouteKind (vsr_ObjectMeta vsr) | k vsr.
         gget (cfg_virtualServerRoutes ?c2) k = Some vsr \<and> \<not> served ?c2 vsr}"
    unfolding orphans serve by (simp add: dep)
  with r rs(1) show ?thesis
    by blast
qed

lemma deployed_subset: "deployed res m \<subseteq> set (map (\<lambda>(h, r). GetKeyWithKind (res r)) m)"
  by (force simp: deployed_def dest: gget_memD)

lemma problems_are_the_unserved_witness:
  "\<exists>c' changes ps. rebuildHosts exampleEnv exampleConfiguration = Some (c', changes, ps) \<and>
     ''VirtualServer/d/b'' \<in> set (gkeys (cfg_hostProblems c'))"
proof -
  obtain c' changes ps resources where r: "rebuildHosts exampleEnv exampleConfiguration = Some (c', changes, ps)"
    "createdResources exampleEnv exampleConfiguration = Some resources"
    and eq: "set (gkeys (cfg_hostProblems c')) =
      (GetKeyWithKind ` set resources - deployed id (cfg_hosts c')) \<union> orphaned c' \<union>
      {getResourceKeyWithKind virtualServerRouteKind (vsr_ObjectMeta vsr) | k vsr.
         gget (cfg_virtualServerRoutes c') k = Some vsr \<and> \<not> served c' vsr}"
    using problems_are_the_unserved [OF exampleConfiguration_ok(1,2), of exampleEnv] by (elim exE conjE)
  have p: "GetKeyWithKind ` set resources - deployed id (cfg_hosts c') \<subseteq> set (gkeys (cfg_hostProblems c'))"
    unfolding eq by blast
  have "map_option (\<lambda>(c', _). map (\<lambda>(h, r). GetKeyWithKind (id r)) (cfg_hosts c')) (rebuildHosts exampleEnv exampleConfiguration) =
      Some [''Ingress/d/a'']"
    by code_simp
  then have "map (\<lambda>(h, r). GetKeyWithKind (id r)) (cfg_hosts c') = [''Ingress/d/a'']"
    unfolding r(1) option.map prod.case option.inject .
  then have "deployed id (cfg_hosts c') \<subseteq> set [''Ingress/d/a'']"
    using deployed_subset [of id "cfg_hosts c'"] by (simp only:)
  moreover have "''VirtualServer/d/b'' \<notin> set [''Ingress/d/a'']"
    by simp
  ultimately have "''VirtualServer/d/b'' \<notin> deployed id (cfg_hosts c')"
    by blast
  moreover have "map_option (map GetKeyWithKind) (createdResources exampleEnv exampleConfiguration) =
      Some [''Ingress/d/a'', ''VirtualServer/d/b'']"
    by code_simp
  then have keys: "map GetKeyWithKind resources = [''Ingress/d/a'', ''VirtualServer/d/b'']"
    unfolding r(2) option.map option.inject .
  have "''VirtualServer/d/b'' \<in> set (map GetKeyWithKind resources)"
    unfolding keys by simp
  ultimately have "''VirtualServer/d/b'' \<in> set (gkeys (cfg_hostProblems c'))"
    using p unfolding set_map by blast
  with r(1) show ?thesis
    by blast
qed

section \<open>What a rebuild of the listener hosts does\<close>

text \<open>Kubernetes names have no slash, so the key of a resource with its kind is no key without one.\<close>

definition plainName :: "ObjectMeta \<Rightarrow> bool" where
  "plainName meta = (CHR ''/'' \<notin> set (Namespace meta) \<and> CHR ''/'' \<notin> set (Name meta))"

lemma key_with_kind_no_key:
  assumes "plainName m" and "plainName m'"
  shows "getResourceKey m \<noteq> transportServerKind @ ''/'' @ getResourceKey m'"
proof
  let ?n = "\<lambda>s. length (filter ((=) CHR ''/'') s)"
  assume "getResourceKey m = transportServerKind @ ''/'' @ getResourceKey m'"
  then have "?n (getResourceKey m) = ?n (transportServerKind @ ''/'' @ getResourceKey m')"
    by simp
  moreover have "?n (getResourceKey m) = 1" "?n (getResourceKey m') = 1"
    using assms by (auto simp: getResourceKey_def plainName_def filter_empty_conv)
  moreover have "?n transportServerKind = 0"
    by (simp add: transportServerKind_def)
  ultimately show False
    by simp
qed

definition plainTSs :: "Configuration \<Rightarrow> bool" where
  "plainTSs c =
     ((\<forall>k ts. gget (cfg_transportServers c) k = Some ts \<longrightarrow> plainName (ts_ObjectMeta ts)) \<and>
      (\<forall>h tsc. gget (cfg_listenerHosts c) h = Some tsc \<longrightarrow> plainName (tscMeta tsc)))"

text \<open>
  The configurations built for listeners: each comes from a stored TransportServer, and it holds at
  most the slot of its listener and host.
\<close>

lemma built_listeners:
  assumes "keyedBy ts_ObjectMeta tss" and built: "buildListenerHostsAndTSConfigurations gc tss = (hosts, configs)"
  shows "gget configs k = Some tsc \<Longrightarrow> gget tss k = Some (tsc_TransportServer tsc)"
    and "gget hosts h = Some tsc \<Longrightarrow> gget configs (getResourceKey (tscMeta tsc)) = Some tsc \<and> slotOf gc (tsc_TransportServer tsc) = Some h"
proof -
  have wf: "gwf tss"
    using assms(1) by (simp add: keyedBy_def)
  obtain holders store where f: "fold (addTransportServer gc) tss ([], []) = (holders, store)"
    by (metis surj_pair)
  have "(resolve holders store, store) = (hosts, configs)"
    using built unfolding buildListenerHostsAndTSConfigurations_def f Let_def prod.case by assumption
  then have h: "hosts = resolve holders store" "configs = store"
    by auto
  note inv = buildListenerHosts_inv [OF wf f]
  have ts_fold: "tsc_TransportServer (fold tscAddWarning ws t) = tsc_TransportServer t" for ws t
    by (induction ws arbitrary: t) (simp_all add: tscAddWarning_def)
  have ts_of: "tsc_TransportServer (tscOf gc ts) = ts" for ts
    by (auto simp: tscOf_def NewTransportServerConfiguration_def split: option.splits)
  show conf: "gget tss k = Some (tsc_TransportServer tsc)" if k: "gget configs k = Some tsc" for k tsc
  proof -
    have "k \<in> set (gkeys store)"
      using k h(2) by (auto simp: gkeys_gget)
    then obtain ts where "(k, ts) \<in> set tss"
      unfolding inv(2) by blast
    then have ts: "gget tss k = Some ts"
      by (rule gget_memI [OF wf])
    have "tsc = fold tscAddWarning
        (map listenerWarning (lostBy (tscClaims.baseBeats (baseTS gc tss)) (concat (map (tsSlots gc) tss)) k)) (baseTS gc tss k)"
      by (rule tscClaims.claimInvD(5) [OF inv(1) k [unfolded h(2)]])
    then have "tsc_TransportServer tsc = tsc_TransportServer (baseTS gc tss k)"
      by (metis ts_fold)
    with ts show ?thesis
      by (simp only: baseTS_eq [OF ts] ts_of)
  qed
  assume g: "gget hosts h = Some tsc"
  then obtain k where k: "settle (tscClaims.baseBeats (baseTS gc tss)) Map.empty (concat (map (tsSlots gc) tss)) h = Some k"
    "gget store k = Some tsc"
    unfolding h tscClaims.claimInv_resolve [OF inv(1)] bind_eq_Some_conv by blast
  have ts: "gget tss k = Some (tsc_TransportServer tsc)"
    by (rule conf) (simp only: h(2) k(2))
  have "(h, k) \<in> set (concat (map (tsSlots gc) tss))"
    using settle_claimed [OF k(1)] by blast
  then obtain ts' where "gget tss k = Some ts'" "slotOf gc ts' = Some h"
    unfolding set_tsSlots [OF wf] by blast
  with ts have "slotOf gc (tsc_TransportServer tsc) = Some h"
    by simp
  moreover have "getResourceKey (tscMeta tsc) = k"
    using keyedByD [OF assms(1) ts] by (simp add: tscMeta_def)
  ultimately show "gget configs (getResourceKey (tscMeta tsc)) = Some tsc \<and> slotOf gc (tsc_TransportServer tsc) = Some h"
    using k(2) h(2) by simp
qed

lemma built_oneListener:
  assumes "keyedBy ts_ObjectMeta tss" and "buildListenerHostsAndTSConfigurations gc tss = (hosts, configs)"
  shows "oneListener hosts"
  unfolding oneListener_def
proof (intro allI impI, elim conjE)
  fix h r h' r'
  assume g: "gget hosts h = Some r" "gget hosts h' = Some r'" and k: "getResourceKey (tscMeta r) = getResourceKey (tscMeta r')"
  note l = built_listeners(2) [OF assms g(1)] built_listeners(2) [OF assms g(2)]
  then have "r = r'"
    unfolding k by simp
  with l show "h = h'"
    by simp
qed

text \<open>The lookup of \<^const>\<open>relinkTS\<close> never finds anything.\<close>

lemma relinkTS_no_effect:
  assumes keyed: "keyedBy ts_ObjectMeta (cfg_transportServers c)" and plain: "plainTSs c"
    and built: "buildListenerHostsAndTSConfigurations (cfg_globalConfiguration c) (cfg_transportServers c) = (hosts, configs)"
    and tsc: "changeKey d = GetKeyWithKind (TransportServerRes tsc)" "plainName (tscMeta tsc)"
  shows "relinkTS configs d = d"
proof -
  have "gget configs (changeKey d) = None"
  proof (rule ccontr)
    assume "gget configs (changeKey d) \<noteq> None"
    then obtain t where "gget configs (changeKey d) = Some t"
      by blast
    then have t: "gget (cfg_transportServers c) (changeKey d) = Some (tsc_TransportServer t)"
      by (rule built_listeners(1) [OF keyed built])
    then have "getResourceKey (tscMeta t) = changeKey d" "plainName (tscMeta t)"
      using keyedByD [OF keyed t] plain t by (auto simp: plainTSs_def tscMeta_def)
    then have "getResourceKey (tscMeta t) = transportServerKind @ ''/'' @ getResourceKey (tscMeta tsc)"
      using tsc(1) by (simp add: tscMeta_def)
    with key_with_kind_no_key [OF \<open>plainName (tscMeta t)\<close> tsc(2)] show False
      by blast
  qed
  then show ?thesis
    by (simp add: relinkTS_def)
qed

lemma changes_from_listeners:
  assumes "d \<in> set (squashResourceChanges (listenerChanges.changesOf old new))"
  shows "\<exists>h tsc. rc_Resource d = TransportServerRes tsc \<and> (gget old h = Some tsc \<or> gget new h = Some tsc)"
proof -
  let ?cs = "listenerChanges.changesOf old new"
  have "filter (\<lambda>e. changeKey e = changeKey d) ?cs \<noteq> []" "d = last (filter (\<lambda>e. changeKey e = changeKey d) ?cs)"
    using assms unfolding set_squash by (auto simp: filter_empty_conv)
  then have "d \<in> set ?cs"
    using last_in_set by fastforce
  moreover obtain rem upd add where "detectChangesInListenerHosts old new = (rem, upd, add)"
    by (metis prod_cases3)
  ultimately show ?thesis
    using listenerChanges.set_changesOf by fastforce
qed

lemma rebuildListenerHosts_spec:
  assumes keyed: "keyedBy ts_ObjectMeta (cfg_transportServers c)" and plain: "plainTSs c"
    and one: "oneListener (cfg_listenerHosts c)"
  obtains hosts configs problems changes ps where
    "buildListenerHostsAndTSConfigurations (cfg_globalConfiguration c) (cfg_transportServers c) = (hosts, configs)"
    "rebuildListenerHosts c = (c\<lparr>cfg_listenerHosts := hosts, cfg_listenerProblems := problems\<rparr>, changes, ps)"
    "oneListener hosts" "plainTSs (c\<lparr>cfg_listenerHosts := hosts, cfg_listenerProblems := problems\<rparr>)"
    "distinct (map changeKey changes)" "deletesFirst changes"
    "applyChanges changes (deployed TransportServerRes (cfg_listenerHosts c)) = deployed TransportServerRes hosts"
proof -
  obtain hosts configs where built: "buildListenerHostsAndTSConfigurations (cfg_globalConfiguration c) (cfg_transportServers c) = (hosts, configs)"
    by (metis surj_pair)
  note l = built_listeners [OF keyed built]
  have names: "plainName (tscMeta tsc)" if "gget (cfg_listenerHosts c) h = Some tsc \<or> gget hosts h = Some tsc" for h tsc
    using that
  proof
    assume "gget hosts h = Some tsc"
    then have "gget configs (getResourceKey (tscMeta tsc)) = Some tsc"
      using l(2) by blast
    then show ?thesis
      using l(1) plain by (auto simp: plainTSs_def tscMeta_def)
  qed (use plain in \<open>auto simp: plainTSs_def\<close>)
  obtain rem upd add where d: "detectChangesInListenerHosts (cfg_listenerHosts c) hosts = (rem, upd, add)"
    by (metis prod_cases3)
  let ?cs = "listenerChanges.changesOf (cfg_listenerHosts c) hosts"
  have cs: "?cs = createResourceChangesForListeners rem upd add (cfg_listenerHosts c) hosts"
    by (simp add: listenerChanges.changesOf_def createResourceChangesForListeners_def d)
  have "relinkTS configs x = x" if x: "x \<in> set (squashResourceChanges ?cs)" for x
  proof -
    obtain h tsc where "rc_Resource x = TransportServerRes tsc" "gget (cfg_listenerHosts c) h = Some tsc \<or> gget hosts h = Some tsc"
      using changes_from_listeners [OF x] by blast
    then show ?thesis
      using relinkTS_no_effect [OF keyed plain built, of x tsc] names by simp
  qed
  then have "map (relinkTS configs) (squashResourceChanges ?cs) = squashResourceChanges ?cs"
    by (simp add: map_idI)
  then obtain problems ps where r: "rebuildListenerHosts c =
      (c\<lparr>cfg_listenerHosts := hosts, cfg_listenerProblems := problems\<rparr>, squashResourceChanges ?cs, ps)"
    by (simp add: rebuildListenerHosts_def built d cs Let_def)
  show thesis
    by (rule that [OF built r built_oneListener [OF keyed built] _ distinct_squash deletesFirst_squash listeners_deployed [OF one]])
      (use plain names in \<open>auto simp: plainTSs_def\<close>)
qed

end
