(* ===== verification/Go_Numbers.thy ===== *)
theory Go_Numbers
  imports Go_Prelude "HOL-Library.Word"
begin

text \<open>
  Decimal numbers and words of text as the standard library of Go reads and prints them:
  \<^verbatim>\<open>fmt.Sprintf("%d")\<close>, \<^verbatim>\<open>strconv.ParseUint(s, 10, 64)\<close>, \<^verbatim>\<open>strconv.Atoi\<close>, \<^verbatim>\<open>strings.ToLower\<close> on
  ASCII text and \<^verbatim>\<open>strings.Fields\<close>. The round trips between printing and reading are proved here.
\<close>

section \<open>Digits\<close>

definition isDigit :: "char \<Rightarrow> bool" where
  "isDigit c = (let n = (of_char c :: nat) in 48 \<le> n \<and> n \<le> 57)"

definition digitVal :: "char \<Rightarrow> nat" where
  "digitVal c = of_char c - 48"

definition digitChar :: "nat \<Rightarrow> char" where
  "digitChar d = char_of (48 + d)"

fun showNat :: "nat \<Rightarrow> string" where
  "showNat n = (if n < 10 then [digitChar n] else showNat (n div 10) @ [digitChar (n mod 10)])"

declare showNat.simps [simp del]

definition readDigits :: "nat \<Rightarrow> string \<Rightarrow> nat" where
  "readDigits = foldl (\<lambda>n c. 10 * n + digitVal c)"

definition parseNat :: "string \<Rightarrow> nat option" where
  "parseNat s = (if s \<noteq> [] \<and> list_all isDigit s then Some (readDigits 0 s) else None)"

definition showInt :: "int \<Rightarrow> string" where
  "showInt i = (if i < 0 then CHR ''-'' # showNat (nat (- i)) else showNat (nat i))"

text \<open>\<^verbatim>\<open>ParseUint\<close> with base 10 and 64 bits: digits only, and a value that fits.\<close>

definition parseUint :: "string \<Rightarrow> 64 word option" where
  "parseUint s =
     (case parseNat s of None \<Rightarrow> None | Some n \<Rightarrow> if n < 2 ^ 64 then Some (of_nat n) else None)"

text \<open>\<^verbatim>\<open>Atoi\<close>: an optional sign and digits, in the range of a 64-bit int.\<close>

definition atoi :: "string \<Rightarrow> int option" where
  "atoi s =
     (let (neg, ds) = (case s of [] \<Rightarrow> (False, [])
                       | c # cs \<Rightarrow> if c = CHR ''-'' then (True, cs) else if c = CHR ''+'' then (False, cs) else (False, s))
      in case parseNat ds of
           None \<Rightarrow> None
         | Some n \<Rightarrow>
             (let i = (if neg then - int n else int n)
              in if - (2 ^ 63) \<le> i \<and> i < 2 ^ 63 then Some i else None))"

definition showWord :: "64 word \<Rightarrow> string" where
  "showWord w = showNat (unat w)"

lemma digitChar_digit: "d < 10 \<Longrightarrow> isDigit (digitChar d)" "d < 10 \<Longrightarrow> digitVal (digitChar d) = d"
  by (simp_all add: isDigit_def digitVal_def digitChar_def of_char_of Let_def)

lemma showNat_neq_Nil [simp]: "showNat n \<noteq> []"
  by (subst showNat.simps) simp

lemma showNat_digits: "list_all isDigit (showNat n)"
  by (induction n rule: showNat.induct) (subst showNat.simps, simp add: digitChar_digit)

lemma readDigits_showNat: "readDigits 0 (showNat n) = n"
proof (induction n rule: showNat.induct)
  case (1 n)
  then show ?case
    by (cases "n < 10") (simp_all add: showNat.simps [of n] readDigits_def digitChar_digit)
qed

lemma parseNat_showNat [simp]: "parseNat (showNat n) = Some n"
  by (simp add: parseNat_def showNat_digits readDigits_showNat)

lemma parseUint_showWord [simp]: "parseUint (showWord w) = Some w"
  using unsigned_less [of w] by (simp add: parseUint_def showWord_def)

lemma showNat_head: "\<exists>c cs. showNat n = c # cs \<and> isDigit c"
  using showNat_digits [of n] by (cases "showNat n") auto

lemma isDigit_not_sign: "isDigit c \<Longrightarrow> c \<noteq> CHR ''-'' \<and> c \<noteq> CHR ''+''"
  by (auto simp: isDigit_def)

lemma atoi_showNat:
  assumes "n < 2 ^ 63"
  shows "atoi (showNat n) = Some (int n)"
proof -
  obtain c cs where s: "showNat n = c # cs" "isDigit c"
    using showNat_head by blast
  have "int n < 2 ^ 63"
    using assms by (metis of_nat_less_iff of_nat_numeral of_nat_power)
  moreover have "parseNat (c # cs) = Some n"
    using parseNat_showNat [of n] s by simp
  ultimately show ?thesis
    using s isDigit_not_sign [OF s(2)] by (simp add: atoi_def Let_def)
qed

section \<open>Lower case and fields\<close>

definition lowerChar :: "char \<Rightarrow> char" where
  "lowerChar c = (let n = (of_char c :: nat) in if 65 \<le> n \<and> n \<le> 90 then char_of (n + 32) else c)"

definition toLower :: "string \<Rightarrow> string" where
  "toLower s = map lowerChar s"

lemma lowerChar_digit [simp]: "isDigit c \<Longrightarrow> lowerChar c = c"
  by (simp add: isDigit_def lowerChar_def Let_def)

lemma toLower_digits: "list_all isDigit s \<Longrightarrow> toLower s = s"
  by (induction s) (auto simp: toLower_def)

text \<open>The longest prefix without a space, and the rest.\<close>

fun takeField :: "string \<Rightarrow> string" where
  "takeField [] = []"
| "takeField (c # s) = (if spaceWidth (c # s) = 0 then c # takeField s else [])"

function goFields :: "string \<Rightarrow> string list" where
  "goFields s =
     (let t = trimLeftSpace s
      in if t = [] then [] else takeField t # goFields (drop (length (takeField t)) t))"
  by pat_completeness auto

text \<open>Termination: trimming never lengthens the text and a field at its head is not empty.\<close>

lemma spaceWidth_pos: "spaceWidth s \<noteq> 0 \<Longrightarrow> s \<noteq> []"
  by (auto simp: spaceWidth_def)

lemma trimLeftSpace_length: "length (trimLeftSpace s) \<le> length s"
proof (induction s rule: trimLeftSpace.induct)
  case (1 s)
  then show ?case
    by (subst trimLeftSpace.simps) auto
qed

lemma trimLeftSpace_head: "spaceWidth (trimLeftSpace s) = 0"
proof (induction s rule: trimLeftSpace.induct)
  case (1 s)
  then show ?case
    by (subst trimLeftSpace.simps) auto
qed

termination goFields
proof (relation "measure length", goal_cases)
  case (2 s t)
  then obtain c cs where t: "trimLeftSpace s = c # cs"
    by (cases "trimLeftSpace s") auto
  with trimLeftSpace_head [of s] have "takeField (c # cs) \<noteq> []"
    by simp
  moreover have "length (c # cs) \<le> length s"
    using trimLeftSpace_length [of s] t by simp
  ultimately show ?case
    using 2 t by (cases "takeField (c # cs)") auto
qed simp

declare goFields.simps [simp del]

text \<open>Bytes that start no space rune: the ASCII characters that are no spaces.\<close>

definition plainChar :: "char \<Rightarrow> bool" where
  "plainChar c = (let n = (of_char c :: nat) in 32 < n \<and> n < 128)"

lemma spaceWidth_plain: "plainChar c \<Longrightarrow> spaceWidth (c # s) = 0"
proof -
  assume "plainChar c"
  then have n: "32 < (of_char c :: nat)" "(of_char c :: nat) < 128"
    by (simp_all add: plainChar_def Let_def)
  have "\<forall>r \<in> set spaceRunes. r \<noteq> [] \<and> 128 \<le> hd r"
    by (auto simp: spaceRunes_def)
  then have "filter (\<lambda>r. take (length r) (map of_char (c # s)) = r) spaceRunes = ([] :: nat list list)"
    using n(2) by (force simp: filter_empty_conv take_Cons split: nat.splits)
  with n show "spaceWidth (c # s) = 0"
    by (simp add: spaceWidth_def Let_def)
qed

lemma trimLeftSpace_plain: "plainChar c \<Longrightarrow> trimLeftSpace (c # s) = c # s"
  by (subst trimLeftSpace.simps) (simp add: spaceWidth_plain)

lemma takeField_plain: "list_all plainChar s \<Longrightarrow> takeField s = s"
  by (induction s) (auto simp: spaceWidth_plain)

lemma takeField_plain_space: "list_all plainChar s \<Longrightarrow> takeField (s @ CHR '' '' # t) = s"
  by (induction s) (auto simp: spaceWidth_plain, simp add: spaceWidth_def)

lemma goFields_plain: "s \<noteq> [] \<Longrightarrow> list_all plainChar s \<Longrightarrow> goFields s = [s]"
proof -
  assume s: "s \<noteq> []" "list_all plainChar s"
  then have "trimLeftSpace s = s"
    by (cases s) (auto simp: trimLeftSpace_plain)
  moreover have "trimLeftSpace [] = []"
    by (subst trimLeftSpace.simps) (simp add: spaceWidth_def)
  ultimately show "goFields s = [s]"
    using s by (subst goFields.simps) (simp add: Let_def takeField_plain, subst goFields.simps, simp)
qed

text \<open>Two words separated by one space are two fields.\<close>

lemma goFields_two:
  assumes "a \<noteq> []" "b \<noteq> []" "list_all plainChar a" "list_all plainChar b"
  shows "goFields (a @ CHR '' '' # b) = [a, b]"
proof -
  have "trimLeftSpace (a @ CHR '' '' # b) = a @ CHR '' '' # b"
    using assms by (cases a) (auto simp: trimLeftSpace_plain)
  then have "goFields (a @ CHR '' '' # b) = a # goFields (CHR '' '' # b)"
    using assms by (subst goFields.simps) (simp add: takeField_plain_space)
  moreover have "trimLeftSpace (CHR '' '' # b) = b"
    using assms by (subst trimLeftSpace.simps) (cases b, auto simp: spaceWidth_def trimLeftSpace_plain)
  then have "goFields (CHR '' '' # b) = goFields b"
    using assms by (subst (1 2) goFields.simps) (cases b, auto simp: trimLeftSpace_plain)
  ultimately show ?thesis
    using goFields_plain assms by simp
qed

lemma isDigit_plain: "isDigit c \<Longrightarrow> plainChar c"
  by (simp add: isDigit_def plainChar_def Let_def)

lemma spaceWidthEnd_plain: "plainChar c \<Longrightarrow> spaceWidthEnd (c # s) = 0"
proof -
  assume "plainChar c"
  then have n: "32 < (of_char c :: nat)" "(of_char c :: nat) < 128"
    by (simp_all add: plainChar_def Let_def)
  have "\<forall>r \<in> set spaceRunes. rev r \<noteq> [] \<and> 128 \<le> hd (rev r)"
    by (auto simp: spaceRunes_def)
  then have "take (length r) (map of_char (c # s)) \<noteq> rev r" if "r \<in> set spaceRunes" for r :: "nat list"
    using n(2) that by (cases "rev r") (auto simp: take_Cons split: nat.splits)
  then have "filter (\<lambda>r. take (length r) (map of_char (c # s)) = rev r) spaceRunes = ([] :: nat list list)"
    by (simp add: filter_empty_conv)
  with n show "spaceWidthEnd (c # s) = 0"
    by (simp add: spaceWidthEnd_def Let_def)
qed

lemma trimEndSpace_plain: "plainChar c \<Longrightarrow> trimEndSpace (c # s) = c # s"
  by (subst trimEndSpace.simps) (simp add: spaceWidthEnd_plain)

text \<open>Text that starts and ends with plain characters is not changed by \<^const>\<open>trimSpace\<close>.\<close>

lemma trimSpace_plain:
  assumes "s \<noteq> []" and "plainChar (hd s)" and "plainChar (last s)"
  shows "trimSpace s = s"
proof -
  have "trimLeftSpace s = s"
    using assms by (cases s) (auto simp: trimLeftSpace_plain)
  moreover have "trimEndSpace (rev s) = rev s"
    using assms trimEndSpace_plain [of "last s" "rev (butlast s)"]
    by (cases s rule: rev_cases) auto
  ultimately show ?thesis
    by (simp add: trimSpace_def)
qed

text \<open>A plain character is never trimmed.\<close>

lemma spaceRunes_high: "r \<in> set spaceRunes \<Longrightarrow> x \<in> set r \<Longrightarrow> 128 \<le> x"
  by (auto simp: spaceRunes_def)

lemma spaceWidthEnd_keeps:
  assumes "plainChar c" and "c \<in> set t"
  shows "c \<in> set (drop (spaceWidthEnd t) t)"
proof (rule ccontr)
  assume no: "c \<notin> set (drop (spaceWidthEnd t) t)"
  with assms(2) have c: "c \<in> set (take (spaceWidthEnd t) t)"
    by (metis Un_iff append_take_drop_id set_append)
  obtain d ds where t: "t = d # ds"
    using assms(2) by (cases t) auto
  have n: "32 < (of_char c :: nat)" "(of_char c :: nat) < 128"
    using assms(1) by (simp_all add: plainChar_def Let_def)
  show False
  proof (cases "asciiSpace d")
    case True
    then show ?thesis
      using c n by (auto simp: t spaceWidthEnd_def Let_def)
  next
    case False
    let ?f = "filter (\<lambda>r. take (length r) (map of_char t) = rev r) spaceRunes"
    obtain r rs where f: "?f = r # rs"
      using False c by (cases ?f) (auto simp: t spaceWidthEnd_def)
    then have "r \<in> set ?f"
      by simp
    then have r: "r \<in> set spaceRunes" "take (length r) (map of_char t) = rev r"
      by auto
    have "spaceWidthEnd t = length r"
      using False f by (simp add: t spaceWidthEnd_def)
    then have "(of_char c :: nat) \<in> set (rev r)"
      using c r(2) by (metis imageI list.set_map take_map)
    with r(1) n(2) show ?thesis
      using spaceRunes_high by fastforce
  qed
qed

lemma trimEndSpace_keeps: "plainChar c \<Longrightarrow> c \<in> set t \<Longrightarrow> c \<in> set (trimEndSpace t)"
proof (induction t rule: trimEndSpace.induct)
  case (1 t)
  then show ?case
    by (subst trimEndSpace.simps) (auto intro: spaceWidthEnd_keeps)
qed

lemma trimSpace_keeps: "plainChar c \<Longrightarrow> trimSpace (c # s) \<noteq> []"
  using trimEndSpace_keeps [of c "rev (c # s)"] by (auto simp: trimSpace_def trimLeftSpace_plain)

end
