(* ===== verification/Proxy_Buffers.thy ===== *)
theory Proxy_Buffers
  imports Go_Numbers Api_Types
begin

text \<open>
  The balancing of proxy buffers of \<^verbatim>\<open>internal/validation/data_types.go\<close>: sizes are read from and
  printed to text, and \<^verbatim>\<open>BalanceProxyValues\<close> adjusts the three values to the rules of NGINX. All
  arithmetic is on 64-bit words, as \<^verbatim>\<open>uint64\<close> in the code: it wraps around. Errors of the parsers
  are \<^const>\<open>None\<close>; their texts are left out because no caller looks at them. \<^verbatim>\<open>strings.ToLower\<close> is
  modelled on ASCII text.
\<close>

type_synonym u64 = "64 word"

section \<open>Sizes as text\<close>

datatype SizeUnit = BadUnit | SizeKB | SizeMB | SizeGB

fun unitString :: "SizeUnit \<Rightarrow> string" where
  "unitString SizeKB = ''k''"
| "unitString SizeMB = ''m''"
| "unitString SizeGB = ''g''"
| "unitString BadUnit = ''''"

text \<open>The unit and the digits of a size: everything but k and digits means megabytes.\<close>

definition sizeParts :: "string \<Rightarrow> SizeUnit \<times> string" where
  "sizeParts s =
     (if last s = CHR ''k'' then (SizeKB, butlast s)
      else if last s = CHR ''m'' then (SizeMB, butlast s)
      else if isDigit (last s) then (SizeMB, s)
      else (SizeMB, butlast s))"

definition NewSizeWithUnit :: "string \<Rightarrow> bool \<Rightarrow> string option" where
  "NewSizeWithUnit str normal =
     (let sizeStr = toLower (trimSpace str)
      in if sizeStr = [] then Some []
         else
           (let (unit, numStr) = sizeParts sizeStr
            in case parseUint numStr of
                 None \<Rightarrow> None
               | Some num \<Rightarrow>
                   if num < 1 then None
                   else if \<not> normal then Some sizeStr
                   else Some (showWord num @ unitString unit)))"

definition newNumberSizeConfig :: "string \<Rightarrow> bool \<Rightarrow> string option" where
  "newNumberSizeConfig str normal =
     (let sizeStr = toLower (trimSpace str)
      in if sizeStr = [] then Some []
         else
           (case goFields sizeStr of
              [p0, p1] \<Rightarrow>
                (case parseUint p0 of
                   None \<Rightarrow> None
                 | Some num \<Rightarrow>
                     (case NewSizeWithUnit p1 normal of
                        None \<Rightarrow> None
                      | Some sizeStr2 \<Rightarrow>
                          if \<not> normal then Some sizeStr else Some (showWord num @ '' '' @ sizeStr2)))
            | _ \<Rightarrow> None))"

definition parseSizeToBytes :: "string \<Rightarrow> u64" where
  "parseSizeToBytes str =
     (if str = [] then 0
      else
        (let sizeStr = toLower (trimSpace str)
         in if sizeStr = [] then 0
            else
              (let (multiplier, numStr) =
                 (if last sizeStr = CHR ''k'' then (1024, butlast sizeStr)
                  else if last sizeStr = CHR ''m'' then (1024 * 1024, butlast sizeStr)
                  else if last sizeStr = CHR ''g'' then (1024 * 1024 * 1024, butlast sizeStr)
                  else (1024 * 1024, sizeStr))
               in case parseUint numStr of None \<Rightarrow> 0 | Some num \<Rightarrow> num * multiplier)))"

definition bytesToSizeString :: "u64 \<Rightarrow> string" where
  "bytesToSizeString b =
     (if b = 0 then ''0k''
      else if b mod (1024 * 1024 * 1024) = 0 then showWord (b div (1024 * 1024 * 1024)) @ ''g''
      else if b mod (1024 * 1024) = 0 then showWord (b div (1024 * 1024)) @ ''m''
      else if b mod 1024 = 0 then showWord (b div 1024) @ ''k''
      else showWord ((b + 1023) div 1024) @ ''k'')"

section \<open>Balancing\<close>

definition parseProxyBuffers :: "string \<Rightarrow> u64 \<times> u64" where
  "parseProxyBuffers proxyBuffers =
     (if proxyBuffers \<noteq> [] then
        (case goFields (trimSpace proxyBuffers) of
           [p0, p1] \<Rightarrow>
             (case parseUint p0 of Some num \<Rightarrow> (num, parseSizeToBytes p1) | None \<Rightarrow> (8, 4 * 1024))
         | _ \<Rightarrow> (8, 4 * 1024))
      else (8, 4 * 1024))"

definition minNGINXBufferCount :: u64 where "minNGINXBufferCount = 2"
definition maxNGINXBufferCount :: u64 where "maxNGINXBufferCount = 1024"

definition adjusted :: "u64 \<Rightarrow> u64 \<Rightarrow> string" where
  "adjusted a b = ''adjusted proxy_buffers number from '' @ showWord a @ '' to '' @ showWord b"

definition validateBufferConstraints :: "u64 \<Rightarrow> u64 \<times> string list" where
  "validateBufferConstraints n =
     (let (n1, m1) = (if n < minNGINXBufferCount then (minNGINXBufferCount, [adjusted n minNGINXBufferCount]) else (n, []));
          (n2, m2) = (if n1 > maxNGINXBufferCount then (maxNGINXBufferCount, m1 @ [adjusted n1 maxNGINXBufferCount])
                      else (n1, m1))
      in (n2, m2))"

definition parseBufferSizes :: "string \<Rightarrow> string \<Rightarrow> u64 \<Rightarrow> u64 \<times> u64" where
  "parseBufferSizes proxyBufferSize proxyBusyBuffers defaultSize =
     (if proxyBufferSize \<noteq> [] then parseSizeToBytes proxyBufferSize else defaultSize,
      if proxyBusyBuffers \<noteq> [] then parseSizeToBytes proxyBusyBuffers else defaultSize)"

definition applyBufferSizeConstraints :: "u64 \<Rightarrow> u64 \<Rightarrow> u64 \<Rightarrow> u64 \<Rightarrow> u64 \<times> u64 \<times> string list" where
  "applyBufferSizeConstraints sz busy bufferSize maxAllowed =
     (let (size1, m1) = (if sz > maxAllowed
                         then (maxAllowed, [''adjusted proxy_buffer_size because it was too large for proxy_buffers''])
                         else (sz, []));
          (busy1, m2) = (if busy > maxAllowed
                         then (maxAllowed, m1 @ [''adjusted proxy_busy_buffers_size because it was too large''])
                         else (busy, m1));
          minBusy = (if size1 > bufferSize then size1 else bufferSize);
          busy2 = (if busy1 < minBusy then minBusy else busy1)
      in (size1, busy2, m2))"

text \<open>The arithmetic of \<^verbatim>\<open>BalanceProxyValues\<close> between parsing and printing.\<close>

definition balanceBytes :: "string \<Rightarrow> string \<Rightarrow> string \<Rightarrow> u64 \<times> u64 \<times> u64 \<times> u64 \<times> string list" where
  "balanceBytes proxyBuffers proxyBufferSize proxyBusyBuffers =
     (let (n0, b0) = parseProxyBuffers proxyBuffers;
          (n1, b) = (if proxyBuffers = [] \<and> (proxyBufferSize \<noteq> [] \<or> proxyBusyBuffers \<noteq> [])
                     then (minNGINXBufferCount, 4 * 1024) else (n0, b0));
          (n, mods) = validateBufferConstraints n1;
          (sz, busy) = parseBufferSizes proxyBufferSize proxyBusyBuffers b;
          total = b * n;
          maxAllowed = total - b;
          (sz', busy', mods') = applyBufferSizeConstraints sz busy b maxAllowed
      in (n, b, sz', busy', mods @ mods'))"

definition BalanceProxyValues :: "string \<Rightarrow> string \<Rightarrow> string \<Rightarrow> bool \<Rightarrow> string \<times> string \<times> string \<times> string list" where
  "BalanceProxyValues proxyBuffers proxyBufferSize proxyBusyBuffers autoadjust =
     (if \<not> autoadjust then
        (proxyBuffers, proxyBufferSize, proxyBusyBuffers,
         [''auto adjust is turned off, no changes have been made to the proxy values''])
      else if proxyBuffers = [] \<and> proxyBufferSize = [] \<and> proxyBusyBuffers = [] then
        (proxyBuffers, proxyBufferSize, proxyBusyBuffers, [])
      else
        (let (n, b, sz, busy, mods) = balanceBytes proxyBuffers proxyBufferSize proxyBusyBuffers
         in (showWord n @ '' '' @ bytesToSizeString b, bytesToSizeString sz, bytesToSizeString busy, mods)))"

text \<open>\<^verbatim>\<open>BalanceProxiesForUpstreams\<close>; the upstream is changed in place in the code.\<close>

definition orDefault :: "string option \<Rightarrow> string \<Rightarrow> string" where
  "orDefault r d = (case r of None \<Rightarrow> d | Some s \<Rightarrow> s)"

definition BalanceProxiesForUpstreams :: "Upstream \<Rightarrow> bool \<Rightarrow> Upstream" where
  "BalanceProxiesForUpstreams u autoadjust =
     (case up_ProxyBuffers u of
        None \<Rightarrow> u
      | Some pbs \<Rightarrow>
          if \<not> autoadjust then u
          else
            (let pb = orDefault (newNumberSizeConfig (showInt (ub_Number pbs) @ '' '' @ ub_Size pbs) autoadjust) ''8 4k'';
                 sz = orDefault (NewSizeWithUnit (up_ProxyBufferSize u) autoadjust) ''4k'';
                 busy = orDefault (NewSizeWithUnit (up_ProxyBusyBuffersSize u) autoadjust) ''4k'';
                 (bPB, bSize, bBusy, mods) = BalanceProxyValues pb sz busy autoadjust;
                 buffers =
                   (if bPB = [] then pbs
                    else case goFields bPB of
                      [p0, p1] \<Rightarrow>
                        (case atoi p0 of
                           Some num \<Rightarrow> pbs\<lparr>ub_Number := min num (2 ^ 31 - 1), ub_Size := p1\<rparr>
                         | None \<Rightarrow> pbs)
                    | _ \<Rightarrow> pbs)
             in u\<lparr>up_ProxyBuffers := Some buffers, up_ProxyBufferSize := bSize, up_ProxyBusyBuffersSize := bBusy\<rparr>))"

section \<open>Printing and reading sizes\<close>

definition wholeKB :: "u64 \<Rightarrow> bool" where
  "wholeKB w = (1024 dvd unat w)"

lemma wholeKB_mod: "wholeKB w \<longleftrightarrow> w mod 1024 = 0"
proof -
  have "unat (w mod 1024) = unat w mod 1024"
    by (simp add: unat_mod_distrib)
  then show ?thesis
    by (metis wholeKB_def dvd_eq_mod_eq_0 unat_0 unat_eq_zero)
qed

lemma wholeKB_mult: "wholeKB a \<Longrightarrow> wholeKB (n * a)" "wholeKB a \<Longrightarrow> wholeKB (a * n)"
  by (simp_all add: wholeKB_def unat_mult_lem unat_word_ariths dvd_mod)

lemma wholeKB_diff: "wholeKB a \<Longrightarrow> wholeKB (a * n - a)"
  using wholeKB_mult(2) [of a "n - 1"] by (simp add: algebra_simps)

lemma wholeKB_units [simp]: "wholeKB 0" "wholeKB 1024" "wholeKB 4096" "wholeKB 1048576" "wholeKB 1073741824"
  by (simp_all add: wholeKB_def)

lemma showWord_digits: "list_all isDigit (showWord w)" "showWord w \<noteq> []"
  by (simp_all add: showWord_def showNat_digits)

text \<open>A printed size is read back: it has no spaces and is in lower case already.\<close>

lemma printed_plain:
  assumes "u = CHR ''k'' \<or> u = CHR ''m'' \<or> u = CHR ''g''"
  shows "list_all plainChar (showWord w @ [u])"
    and "trimSpace (showWord w @ [u]) = showWord w @ [u]"
    and "toLower (showWord w @ [u]) = showWord w @ [u]"
proof -
  show p: "list_all plainChar (showWord w @ [u])"
    using assms showWord_digits [of w]
    by (auto simp: list_all_iff isDigit_plain) (simp_all add: plainChar_def)
  then show "trimSpace (showWord w @ [u]) = showWord w @ [u]"
    by (intro trimSpace_plain) (auto simp: list_all_iff hd_append)
  show "toLower (showWord w @ [u]) = showWord w @ [u]"
    using assms toLower_digits [OF showWord_digits(1), of w]
    by (auto simp: toLower_def lowerChar_def)
qed

lemma parse_printed:
  "parseSizeToBytes (showWord w @ ''k'') = w * 1024"
  "parseSizeToBytes (showWord w @ ''m'') = w * (1024 * 1024)"
  "parseSizeToBytes (showWord w @ ''g'') = w * (1024 * 1024 * 1024)"
  by (simp_all add: parseSizeToBytes_def printed_plain)

lemma parse_wholeKB: "wholeKB (parseSizeToBytes s)"
  by (auto simp: parseSizeToBytes_def Let_def wholeKB_mult split: option.splits)

lemma word_div_mult: "(b :: u64) mod m = 0 \<Longrightarrow> b div m * m = b"
  using div_mult_mod_eq [of b m] by simp

lemma wholeKB_multiple: "b mod m = 0 \<Longrightarrow> wholeKB m \<Longrightarrow> wholeKB b"
  using word_div_mult [of b m] wholeKB_mult(1) [of m "b div m"] by simp

lemma showWord_0: "showWord 0 = ''0''"
  by (simp add: showWord_def showNat.simps digitChar_def) (simp add: char_of_def bit_0)

text \<open>Reading a printed size: exact for whole kilobytes, rounded up otherwise.\<close>

lemma parse_bytes:
  "parseSizeToBytes (bytesToSizeString b) = (if wholeKB b then b else (b + 1023) div 1024 * 1024)"
proof -
  consider "b = 0" | "b \<noteq> 0" "b mod (1024 * 1024 * 1024) = 0"
    | "b \<noteq> 0" "b mod (1024 * 1024 * 1024) \<noteq> 0" "b mod (1024 * 1024) = 0"
    | "b \<noteq> 0" "b mod (1024 * 1024 * 1024) \<noteq> 0" "b mod (1024 * 1024) \<noteq> 0"
    by blast
  then show ?thesis
  proof cases
    case 1
    then show ?thesis
      using parse_printed(1) [of 0] by (simp add: bytesToSizeString_def showWord_0)
  next
    case 2
    then have "wholeKB b"
      using wholeKB_multiple [of b "1024 * 1024 * 1024"] by simp
    with 2 show ?thesis
      unfolding bytesToSizeString_def by (simp only: simp_thms if_True if_False parse_printed word_div_mult)
  next
    case 3
    then have "wholeKB b"
      using wholeKB_multiple [of b "1024 * 1024"] by simp
    with 3 show ?thesis
      unfolding bytesToSizeString_def by (simp only: simp_thms if_True if_False parse_printed word_div_mult)
  next
    case 4
    show ?thesis
      using 4 unfolding bytesToSizeString_def wholeKB_mod
      by (simp only: if_True if_False parse_printed split: if_splits) (simp add: word_div_mult)
  qed
qed

text \<open>The three shapes of a printed size.\<close>

lemma bytesToSizeString_shape:
  "\<exists>w u. bytesToSizeString b = showWord w @ [u] \<and> (u = CHR ''k'' \<or> u = CHR ''m'' \<or> u = CHR ''g'')"
proof -
  have "''0k'' = showWord 0 @ [CHR ''k'']"
    by (simp add: showWord_0)
  then show ?thesis
    unfolding bytesToSizeString_def by (auto simp del: append_Nil append_Cons)
qed

lemma bytesToSizeString_plain: "list_all plainChar (bytesToSizeString b)" "bytesToSizeString b \<noteq> []"
  using bytesToSizeString_shape [of b] printed_plain(1) by (metis, force)

lemma showWord_plain: "list_all plainChar (showWord w)"
  using showWord_digits [of w] by (auto simp: list_all_iff isDigit_plain)

lemma fields_printed:
  "goFields (showWord n @ '' '' @ bytesToSizeString b) = [showWord n, bytesToSizeString b]"
  using goFields_two [of "showWord n" "bytesToSizeString b"] showWord_plain showWord_digits(2)
    bytesToSizeString_plain by simp

lemma parseProxyBuffers_printed:
  assumes "wholeKB b"
  shows "parseProxyBuffers (showWord n @ '' '' @ bytesToSizeString b) = (n, b)"
proof -
  let ?t = "showWord n @ '' '' @ bytesToSizeString b"
  have "plainChar (hd ?t)" "plainChar (last ?t)"
    using showWord_plain [of n] bytesToSizeString_plain [of b] showWord_digits(2) [of n]
    by (auto simp: list_all_iff)
  then have "trimSpace ?t = ?t"
    by (intro trimSpace_plain) auto
  then show ?thesis
    using assms fields_printed [of n b] by (simp add: parseProxyBuffers_def parse_bytes)
qed

section \<open>The rules of NGINX\<close>

lemma validateBufferConstraints_bounds:
  assumes "validateBufferConstraints n = (n', mods)"
  shows "2 \<le> n'" "n' \<le> 1024"
  using assms
  by (auto simp: validateBufferConstraints_def minNGINXBufferCount_def maxNGINXBufferCount_def
      split: if_splits)

lemma validateBufferConstraints_id:
  "2 \<le> n \<Longrightarrow> n \<le> 1024 \<Longrightarrow> validateBufferConstraints n = (n, [])"
  by (auto simp: validateBufferConstraints_def minNGINXBufferCount_def maxNGINXBufferCount_def)

lemma applyBufferSizeConstraints_rules:
  assumes "applyBufferSizeConstraints sz busy b m = (sz', busy', mods)"
  shows "sz' \<le> m" "sz' \<le> busy'" "b \<le> busy'" "busy' \<le> max m b"
    and "wholeKB sz \<Longrightarrow> wholeKB m \<Longrightarrow> wholeKB sz'"
    and "wholeKB sz \<Longrightarrow> wholeKB busy \<Longrightarrow> wholeKB m \<Longrightarrow> wholeKB b \<Longrightarrow> wholeKB busy'"
  using assms by (auto simp: applyBufferSizeConstraints_def Let_def split: if_splits)

text \<open>Applied again to its results, the two sizes stay.\<close>

lemma applyBufferSizeConstraints_again:
  assumes "applyBufferSizeConstraints sz busy b m = (sz', busy', mods)"
  shows "\<exists>mods'. applyBufferSizeConstraints sz' busy' b m = (sz', busy', mods')"
  using assms by (auto simp: applyBufferSizeConstraints_def Let_def split: if_splits)

lemma parseProxyBuffers_wholeKB: "wholeKB (snd (parseProxyBuffers x))"
  by (auto simp: parseProxyBuffers_def parse_wholeKB split: list.splits option.splits)

lemma parseBufferSizes_wholeKB:
  assumes "parseBufferSizes x y d = (sz, busy)" and "wholeKB d"
  shows "wholeKB sz" "wholeKB busy"
  using assms by (auto simp: parseBufferSizes_def parse_wholeKB split: if_splits)

text \<open>
  The size of all buffers minus one, computed with wrap-around, is never more than the exact value,
  and one buffer fits in the exact value.
\<close>

lemma maxAllowed_exact:
  fixes b n :: u64
  assumes "2 \<le> n"
  shows "unat (b * n - b) \<le> unat b * (unat n - 1)" and "unat b \<le> unat b * (unat n - 1)"
proof -
  have n: "2 \<le> unat n"
    using assms by (simp add: word_le_nat_alt)
  have "b * n - b = b * (n - 1)"
    by (simp add: algebra_simps)
  moreover have "unat (n - 1) = unat n - 1"
    using n by (intro unat_minus_one) auto
  ultimately show "unat (b * n - b) \<le> unat b * (unat n - 1)"
    by (simp add: unat_word_ariths)
  show "unat b \<le> unat b * (unat n - 1)"
    using n by (cases "unat n - 1") auto
qed

text \<open>The intermediate values of \<^const>\<open>balanceBytes\<close>.\<close>

lemma balanceBytes_parts:
  assumes "balanceBytes x y z = (n, b, sz, busy, mods)"
  obtains n1 m1 sz0 busy0 m2 where "validateBufferConstraints n1 = (n, m1)" "wholeKB b"
    "parseBufferSizes y z b = (sz0, busy0)"
    "applyBufferSizeConstraints sz0 busy0 b (b * n - b) = (sz, busy, m2)"
proof -
  have "wholeKB (snd (parseProxyBuffers x))"
    by (rule parseProxyBuffers_wholeKB)
  with assms that show thesis
    by (auto simp: balanceBytes_def Let_def split: prod.splits if_splits)
qed

lemma balanceBytes_rules:
  assumes "balanceBytes x y z = (n, b, sz, busy, mods)"
  shows "2 \<le> n" "n \<le> 1024" "sz \<le> busy" "b \<le> busy"
    and "unat sz \<le> unat b * (unat n - 1)" "unat busy \<le> unat b * (unat n - 1)"
    and "wholeKB b" "wholeKB sz" "wholeKB busy"
proof -
  obtain n1 m1 sz0 busy0 m2 where v: "validateBufferConstraints n1 = (n, m1)" and w: "wholeKB b"
    and p: "parseBufferSizes y z b = (sz0, busy0)"
    and a: "applyBufferSizeConstraints sz0 busy0 b (b * n - b) = (sz, busy, m2)"
    using balanceBytes_parts [OF assms] .
  note r = applyBufferSizeConstraints_rules [OF a] and m = wholeKB_diff [OF w, of n]
  show n: "2 \<le> n" "n \<le> 1024" "sz \<le> busy" "b \<le> busy" "wholeKB b"
    using validateBufferConstraints_bounds [OF v] r w by auto
  show "wholeKB sz" "wholeKB busy"
    using r(5,6) m w parseBufferSizes_wholeKB [OF p w] by auto
  have "unat sz \<le> unat (b * n - b)" "unat busy \<le> max (unat (b * n - b)) (unat b)"
    using r(1,4) by (auto simp: word_le_nat_alt max_def split: if_splits)
  with maxAllowed_exact [OF n(1), of b]
  show "unat sz \<le> unat b * (unat n - 1)" "unat busy \<le> unat b * (unat n - 1)"
    by (linarith, linarith)
qed

text \<open>What the printed results of the balancing read back to.\<close>

lemma balanceBytes_again:
  assumes "balanceBytes x y z = (n, b, sz, busy, mods)"
  shows "\<exists>mods'. balanceBytes (showWord n @ '' '' @ bytesToSizeString b) (bytesToSizeString sz)
    (bytesToSizeString busy) = (n, b, sz, busy, mods')"
proof -
  obtain sz0 busy0 m2 where a: "applyBufferSizeConstraints sz0 busy0 b (b * n - b) = (sz, busy, m2)"
    using balanceBytes_parts [OF assms] .
  note r = balanceBytes_rules [OF assms]
  have "parseBufferSizes (bytesToSizeString sz) (bytesToSizeString busy) b = (sz, busy)"
    using r bytesToSizeString_plain(2) by (simp add: parseBufferSizes_def parse_bytes)
  then show ?thesis
    using applyBufferSizeConstraints_again [OF a] parseProxyBuffers_printed [OF r(7), of n]
      validateBufferConstraints_id [OF r(1,2)]
    by (auto simp: balanceBytes_def)
qed

text \<open>
  C16. Whatever text the three proxy directives have, unless all are unset, the balanced values keep
  the rules of NGINX, read back from the printed text: between 2 and 1024 buffers, the sizes of the
  header buffer and of the busy buffers not more than all buffers minus one, and the size of the busy
  buffers at least that of the header buffer and of one buffer. The bounds are exact, without
  wrap-around.
\<close>

theorem balanced_rules:
  "case BalanceProxyValues x y z True of (pb, pbs, pbbs, mods) \<Rightarrow>
     x = [] \<and> y = [] \<and> z = [] \<and> pb = [] \<and> pbs = [] \<and> pbbs = [] \<or>
     (\<exists>n b. parseProxyBuffers pb = (n, b) \<and> 2 \<le> n \<and> n \<le> 1024 \<and>
        unat (parseSizeToBytes pbs) \<le> unat b * (unat n - 1) \<and>
        unat (parseSizeToBytes pbbs) \<le> unat b * (unat n - 1) \<and>
        max (parseSizeToBytes pbs) b \<le> parseSizeToBytes pbbs)"
proof (cases "x = [] \<and> y = [] \<and> z = []")
  case True
  then show ?thesis
    by (simp add: BalanceProxyValues_def)
next
  case False
  obtain n b sz busy mods where e: "balanceBytes x y z = (n, b, sz, busy, mods)"
    by (metis prod_cases5)
  note r = balanceBytes_rules [OF e]
  show ?thesis
    using False r parseProxyBuffers_printed [OF r(7), of n]
    by (simp add: BalanceProxyValues_def e parse_bytes)
qed

text \<open>
  C17. Balancing is idempotent on the three values: balanced once more, with the same setting, they
  do not change.
\<close>

theorem balance_idempotent:
  "case BalanceProxyValues x y z auto_on of (pb, pbs, pbbs, mods) \<Rightarrow>
     \<exists>mods'. BalanceProxyValues pb pbs pbbs auto_on = (pb, pbs, pbbs, mods')"
proof (cases "\<not> auto_on \<or> x = [] \<and> y = [] \<and> z = []")
  case True
  then show ?thesis
    by (auto simp: BalanceProxyValues_def)
next
  case False
  obtain n b sz busy mods where e: "balanceBytes x y z = (n, b, sz, busy, mods)"
    by (metis prod_cases5)
  show ?thesis
    using False balanceBytes_again [OF e] bytesToSizeString_plain(2)
    by (auto simp: BalanceProxyValues_def e)
qed

section \<open>Upstreams\<close>

lemma showInt_neq_Nil: "\<exists>c cs. showInt i = c # cs \<and> plainChar c"
proof (cases "i < 0")
  case True
  then show ?thesis
    by (simp add: showInt_def plainChar_def)
next
  case False
  then show ?thesis
    using showNat_head [of "nat i"] by (auto simp: showInt_def isDigit_plain)
qed

lemma newNumberSizeConfig_neq_Nil:
  assumes "newNumberSizeConfig (showInt i @ t) True = Some r"
  shows "r \<noteq> []"
proof -
  obtain c cs where "showInt i = c # cs" "plainChar c"
    using showInt_neq_Nil by blast
  then have "trimSpace (showInt i @ t) \<noteq> []"
    using trimSpace_keeps by simp
  then show ?thesis
    using assms showWord_digits(2)
    by (auto simp: newNumberSizeConfig_def toLower_def Let_def split: list.splits option.splits)
qed

text \<open>
  C18. With the adjustment of directives on, an upstream with proxy buffers is left with values that
  keep the rules: the number of buffers is between 2 and 1024 and the sizes fit it. Without buffers,
  or with the adjustment off, the upstream is not changed.
\<close>

theorem upstream_balanced:
  "case up_ProxyBuffers (BalanceProxiesForUpstreams u auto_on) of
     None \<Rightarrow> up_ProxyBuffers u = None \<and> BalanceProxiesForUpstreams u auto_on = u
   | Some pbs \<Rightarrow>
       if auto_on then
         (let u' = BalanceProxiesForUpstreams u auto_on;
              total = unat (parseSizeToBytes (ub_Size pbs)) * nat (ub_Number pbs - 1);
              sz = parseSizeToBytes (up_ProxyBufferSize u');
              busy = parseSizeToBytes (up_ProxyBusyBuffersSize u')
          in 2 \<le> ub_Number pbs \<and> ub_Number pbs \<le> 1024 \<and> unat sz \<le> total \<and> unat busy \<le> total \<and>
             max sz (parseSizeToBytes (ub_Size pbs)) \<le> busy)
       else BalanceProxiesForUpstreams u auto_on = u"
proof (cases "up_ProxyBuffers u = None \<or> \<not> auto_on")
  case True
  then show ?thesis
    by (auto simp: BalanceProxiesForUpstreams_def split: option.splits)
next
  case False
  then obtain p where p: "up_ProxyBuffers u = Some p" and a: "auto_on"
    by auto
  define x where "x = orDefault (newNumberSizeConfig (showInt (ub_Number p) @ CHR '' '' # ub_Size p) True) ''8 4k''"
  define y where "y = orDefault (NewSizeWithUnit (up_ProxyBufferSize u) True) ''4k''"
  define z where "z = orDefault (NewSizeWithUnit (up_ProxyBusyBuffersSize u) True) ''4k''"
  have x: "x \<noteq> []"
    using newNumberSizeConfig_neq_Nil by (auto simp: x_def orDefault_def split: option.splits)
  obtain n b sz busy mods where e: "balanceBytes x y z = (n, b, sz, busy, mods)"
    by (metis prod_cases5)
  note r = balanceBytes_rules [OF e]
  have n: "unat n \<le> 1024" "2 \<le> unat n"
    using r(1,2) by (simp_all add: word_le_nat_alt)
  then have "atoi (showWord n) = Some (int (unat n))"
    by (simp add: showWord_def atoi_showNat)
  moreover have "int (unat n) \<le> 1024"
    using n(1) by linarith
  then have "min (uint n) (2 ^ 31 - 1) = uint n"
    by (simp add: min_def)
  ultimately have u: "BalanceProxiesForUpstreams u auto_on =
    u\<lparr>up_ProxyBuffers := Some (p\<lparr>ub_Number := int (unat n), ub_Size := bytesToSizeString b\<rparr>),
      up_ProxyBufferSize := bytesToSizeString sz, up_ProxyBusyBuffersSize := bytesToSizeString busy\<rparr>"
    using fields_printed [of n b] a p x showWord_digits(2) [of n]
    by (simp add: BalanceProxiesForUpstreams_def x_def [symmetric] y_def [symmetric]
        z_def [symmetric] BalanceProxyValues_def e)
  have "nat (int (unat n) - 1) = unat n - 1" "2 \<le> int (unat n)" "int (unat n) \<le> 1024"
    using n by linarith+
  then show ?thesis
    unfolding u using a r by (simp add: parse_bytes Let_def)
qed

text \<open>
  C19. A printed size reads back as the number of bytes rounded up to a whole kilobyte, for every
  number of bytes that has such a multiple below 2 to the power of 64.
\<close>

theorem size_roundtrip:
  assumes "unat b \<le> 2 ^ 64 - 1024"
  shows "unat (parseSizeToBytes (bytesToSizeString b)) = 1024 * ((unat b + 1023) div 1024)"
proof (cases "wholeKB b")
  case True
  then obtain k where "unat b = 1024 * k"
    by (auto simp: wholeKB_def)
  with True show ?thesis
    by (simp add: parse_bytes)
next
  case False
  have "unat (b + 1023) = unat b + 1023"
    using assms by (subst unat_plus_simple [THEN iffD1]) (auto simp: no_olen_add_nat)
  then have "unat ((b + 1023) div 1024) = (unat b + 1023) div 1024"
    by (simp add: unat_div_distrib)
  moreover have "(unat b + 1023) div 1024 * 1024 < 2 ^ 64"
    by (rule le_less_trans [OF div_times_less_eq_dividend]) (use assms in simp)
  ultimately show ?thesis
    using False by (simp add: parse_bytes unat_word_ariths)
qed

lemma size_roundtrip_witness:
  "unat (1500 :: u64) \<le> 2 ^ 64 - 1024 \<and> unat (parseSizeToBytes (bytesToSizeString 1500)) = 2048"
  using size_roundtrip [of 1500] by simp

text \<open>
  The unit g is printed, although \<^const>\<open>NewSizeWithUnit\<close> treats it as invalid: an upstream that
  is balanced again (the balancing changes the stored object in place) ends with buffers of
  megabytes instead of gigabytes.
\<close>

definition gigaUpstream :: Upstream where
  "gigaUpstream = emptyUpstream\<lparr>up_ProxyBuffers := Some \<lparr>ub_Number = 2, ub_Size = ''1024m''\<rparr>\<rparr>"

lemma digitChar_eval [simp]:
  "digitChar 0 = CHR ''0''" "digitChar (Suc 0) = CHR ''1''" "digitChar 1 = CHR ''1''" "digitChar 2 = CHR ''2''"
  "digitChar 4 = CHR ''4''" "digitChar 8 = CHR ''8''"
  by (simp_all add: digitChar_def char_of_def bit_0)

lemmas evalSize = Let_def parseProxyBuffers_def goFields.simps trimSpace_def trimLeftSpace.simps
  trimEndSpace.simps spaceWidth_def spaceWidthEnd_def spaceRunes_def toLower_def lowerChar_def
  parseSizeToBytes_def NewSizeWithUnit_def sizeParts_def
  parseUint_def parseNat_def readDigits_def digitVal_def isDigit_def showWord_def showNat.simps
  bytesToSizeString_def BalanceProxyValues_def balanceBytes_def validateBufferConstraints_def
  minNGINXBufferCount_def maxNGINXBufferCount_def parseBufferSizes_def applyBufferSizeConstraints_def
  orDefault_def showInt_def atoi_def

lemma giga_printed: "BalanceProxyValues ''2 1024m'' [] [] True = (''2 1g'', ''1g'', ''1g'', [])"
  by (simp add: evalSize)

lemma giga_lost:
  "up_ProxyBuffers (BalanceProxiesForUpstreams gigaUpstream True) = Some \<lparr>ub_Number = 2, ub_Size = ''1g''\<rparr>"
  "up_ProxyBuffers (BalanceProxiesForUpstreams (BalanceProxiesForUpstreams gigaUpstream True) True) =
     Some \<lparr>ub_Number = 2, ub_Size = ''1m''\<rparr>"
proof -
  let ?b = "\<lambda>t. emptyUpstream\<lparr>up_ProxyBuffers := Some \<lparr>ub_Number = 2, ub_Size = t\<rparr>,
    up_ProxyBufferSize := t, up_ProxyBusyBuffersSize := t\<rparr>"
  have e: "toLower (trimSpace ''2 1024m'') = ''2 1024m''" "toLower (trimSpace ''2 1g'') = ''2 1g''"
    "goFields ''2 1024m'' = [''2'', ''1024m'']" "goFields ''2 1g'' = [''2'', ''1g'']"
    "goFields ''2 1m'' = [''2'', ''1m'']" "atoi ''2'' = Some 2" "showInt 2 = ''2''"
    "parseUint ''2'' = Some 2" "showWord 2 = ''2''" "NewSizeWithUnit [] True = Some []"
    "NewSizeWithUnit ''1024m'' True = Some ''1024m''" "NewSizeWithUnit ''1g'' True = Some ''1m''"
    "BalanceProxyValues ''2 1m'' ''1m'' ''1m'' True = (''2 1m'', ''1m'', ''1m'', [])"
    by (simp_all add: evalSize)
  then have "newNumberSizeConfig ''2 1024m'' True = Some ''2 1024m''"
    "newNumberSizeConfig ''2 1g'' True = Some ''2 1m''"
    by (simp_all add: newNumberSizeConfig_def)
  with e have "BalanceProxiesForUpstreams gigaUpstream True = ?b ''1g''"
    "BalanceProxiesForUpstreams (?b ''1g'') True = ?b ''1m''"
    using giga_printed
    by (simp_all add: BalanceProxiesForUpstreams_def gigaUpstream_def emptyUpstream_def orDefault_def)
  then show "up_ProxyBuffers (BalanceProxiesForUpstreams gigaUpstream True) = Some \<lparr>ub_Number = 2, ub_Size = ''1g''\<rparr>"
    "up_ProxyBuffers (BalanceProxiesForUpstreams (BalanceProxiesForUpstreams gigaUpstream True) True) =
     Some \<lparr>ub_Number = 2, ub_Size = ''1m''\<rparr>"
    by (simp_all add: gigaUpstream_def)
qed

text \<open>A size that does not fit in 64 bits wraps around to zero.\<close>

lemma size_wraps: "BalanceProxyValues ''8 18014398509481984k'' [] [] True = (''8 0k'', ''0k'', ''0k'', [])"
  by (simp add: evalSize)

end
