(* ===== verification/Config_Operations.thy ===== *)
theory Config_Operations
  imports Rebuild Proxy_Buffers
begin

text \<open>
  The operations of the \<^verbatim>\<open>Configuration\<close> (\<^verbatim>\<open>internal/k8s/configuration.go\<close>) that the controller calls
  for every event: resources are added, updated and deleted, and startup is completed. Each operation
  holds the lock of the \<^verbatim>\<open>Configuration\<close>, so that a run is a sequence of operations. The outcome is
  the new state with the changes and the problems; \<^const>\<open>None\<close> is a panic.

  Parameters (\<^verbatim>\<open>configEnv\<close>): the check of the Ingress class, and the checks of single fields in the
  validators.
\<close>

section \<open>Validation of VirtualServers\<close>

record configEnv =
  ce_vsr :: vsrEnv
  ce_ingress :: ingressChecks
  ce_listener :: listenerChecks
  ce_tls :: "TLS option \<Rightarrow> segment list \<Rightarrow> fieldError list"
  ce_externalDNS :: "ExternalDNS \<Rightarrow> segment list \<Rightarrow> fieldError list"
  ce_transportServer :: "TransportServer \<Rightarrow> fieldError list"
  ce_class :: "Object \<Rightarrow> bool"

definition validateVirtualServerSpec :: "configEnv \<Rightarrow> VirtualServerSpec \<Rightarrow> segment list \<Rightarrow> string \<Rightarrow> fieldError list" where
  "validateVirtualServerSpec env spec fieldPath namespace =
     (let chk = env_checks (ce_vsr env);
          (upstreamErrs, upstreamNames) = rk_upstreams chk (vss_Upstreams spec) (fieldPath @ [Child ''upstreams''])
      in rk_host chk (vss_Host spec) (fieldPath @ [Child ''host'']) @
         ce_tls env (vss_TLS spec) (fieldPath @ [Child ''tls'']) @
         rk_policies chk (vss_Policies spec) (fieldPath @ [Child ''policies'']) namespace @
         upstreamErrs @
         validateVirtualServerRoutes chk (vss_Routes spec) (fieldPath @ [Child ''routes'']) upstreamNames namespace @
         rk_dos chk (vss_Dos spec) (fieldPath @ [Child ''dos'']) @
         ce_externalDNS env (vss_ExternalDNS spec) (fieldPath @ [Child ''externalDNS'']) @
         (if vss_AddHeaderInherit spec \<noteq> []
          then rk_addHeaderInherit chk (vss_AddHeaderInherit spec) (fieldPath @ [Child ''add-header-inherit'']) else []))"

definition ValidateVirtualServer :: "configEnv \<Rightarrow> VirtualServer \<Rightarrow> fieldError list" where
  "ValidateVirtualServer env vs =
     validateVirtualServerSpec env (vs_Spec vs) [Child ''spec''] (Namespace (vs_ObjectMeta vs))"

text \<open>\<^verbatim>\<open>ToAggregate().Error()\<close>, nothing for no errors.\<close>

definition aggregate :: "configEnv \<Rightarrow> fieldError list \<Rightarrow> string option" where
  "aggregate env errs = (if errs = [] then None else Some (env_errorText (ce_vsr env) errs))"

section \<open>Storing a resource\<close>

text \<open>
  The first part of the operations that add or update: the resource is stored if it has the class and
  is valid and removed otherwise. The result has the error of an invalid resource.
\<close>

definition storeIngress :: "configEnv \<Rightarrow> Ingress \<Rightarrow> Configuration \<Rightarrow> Configuration \<times> string option" where
  "storeIngress env ing c =
     (let key = getResourceKey (ing_ObjectMeta ing);
          removed = c\<lparr>cfg_ingresses := gdel (cfg_ingresses c) key,
                      cfg_minionsByHost := updateMinionIndex key None (cfg_minionsByHost c)\<rparr>
      in if \<not> ce_class env (ObjIngress ing) then (removed, None)
         else case aggregate env (validateIngress (ce_ingress env) (cfg_allowEmptyIngressHost c) ing) of
                Some err \<Rightarrow> (removed, Some err)
              | None \<Rightarrow> (c\<lparr>cfg_ingresses := gput (cfg_ingresses c) key ing,
                           cfg_minionsByHost := updateMinionIndex key (Some ing) (cfg_minionsByHost c)\<rparr>, None))"

definition balanceUpstreamProxies :: "Configuration \<Rightarrow> Upstream list \<Rightarrow> Upstream list" where
  "balanceUpstreamProxies c upstreams =
     map (\<lambda>u. BalanceProxiesForUpstreams u (cfg_isDirectiveAutoadjustEnabled c)) upstreams"

definition balancedVS :: "Configuration \<Rightarrow> VirtualServer \<Rightarrow> VirtualServer" where
  "balancedVS c vs =
     vs\<lparr>vs_Spec := (vs_Spec vs)\<lparr>vss_Upstreams := balanceUpstreamProxies c (vss_Upstreams (vs_Spec vs))\<rparr>\<rparr>"

definition balancedVSR :: "Configuration \<Rightarrow> VirtualServerRoute \<Rightarrow> VirtualServerRoute" where
  "balancedVSR c vsr =
     vsr\<lparr>vsr_Spec := (vsr_Spec vsr)\<lparr>vsrs_Upstreams := balanceUpstreamProxies c (vsrs_Upstreams (vsr_Spec vsr))\<rparr>\<rparr>"

definition storeVirtualServer :: "configEnv \<Rightarrow> VirtualServer \<Rightarrow> Configuration \<Rightarrow> Configuration \<times> string option" where
  "storeVirtualServer env vs c =
     (let key = getResourceKey (vs_ObjectMeta vs);
          removed = c\<lparr>cfg_virtualServers := gdel (cfg_virtualServers c) key\<rparr>
      in if \<not> ce_class env (ObjVirtualServer vs) then (removed, None)
         else case aggregate env (ValidateVirtualServer env vs) of
                Some err \<Rightarrow> (removed, Some err)
              | None \<Rightarrow> (c\<lparr>cfg_virtualServers := gput (cfg_virtualServers c) key (balancedVS c vs)\<rparr>, None))"

definition storeVirtualServerRoute :: "configEnv \<Rightarrow> VirtualServerRoute \<Rightarrow> Configuration \<Rightarrow> Configuration \<times> string option" where
  "storeVirtualServerRoute env vsr c =
     (let key = getResourceKey (vsr_ObjectMeta vsr);
          removed = c\<lparr>cfg_virtualServerRoutes := gdel (cfg_virtualServerRoutes c) key\<rparr>
      in if \<not> ce_class env (ObjVirtualServerRoute vsr) then (removed, None)
         else case aggregate env (ValidateVirtualServerRoute (env_checks (ce_vsr env)) vsr) of
                Some err \<Rightarrow> (removed, Some err)
              | None \<Rightarrow> (c\<lparr>cfg_virtualServerRoutes := gput (cfg_virtualServerRoutes c) key (balancedVSR c vsr)\<rparr>, None))"

definition storeTransportServer :: "configEnv \<Rightarrow> TransportServer \<Rightarrow> Configuration \<Rightarrow> Configuration \<times> string option" where
  "storeTransportServer env ts c =
     (let key = getResourceKey (ts_ObjectMeta ts);
          removed = c\<lparr>cfg_transportServers := gdel (cfg_transportServers c) key\<rparr>
      in if \<not> ce_class env (ObjTransportServer ts) then (removed, None)
         else case aggregate env (ce_transportServer env ts) of
                Some err \<Rightarrow> (removed, Some err)
              | None \<Rightarrow> (c\<lparr>cfg_transportServers := gput (cfg_transportServers c) key ts\<rparr>, None))"

section \<open>Reporting an invalid resource\<close>

definition rejected :: "Object \<Rightarrow> string \<Rightarrow> ConfigurationProblem" where
  "rejected obj message = \<lparr>cp_Object = obj, cp_IsError = True, cp_Reason = EventReasonRejected, cp_Message = message\<rparr>"

definition rejectedMessage :: "string \<Rightarrow> ObjectMeta \<Rightarrow> string \<Rightarrow> string" where
  "rejectedMessage kind meta err = kind @ '' '' @ getResourceKey meta @ '' was rejected with error: '' @ err"

text \<open>The loop that puts the error on the first change of the resource; nothing if there is no such change.\<close>

fun markError :: "string \<Rightarrow> string \<Rightarrow> ResourceChange list \<Rightarrow> ResourceChange list option" where
  "markError key err [] = None"
| "markError key err (d # changes) =
     (if changeKey d = key then Some (d\<lparr>rc_Error := err\<rparr> # changes)
      else map_option ((#) d) (markError key err changes))"

text \<open>The error goes to the change of the resource or, without such a change, to a new problem.\<close>

definition reportError :: "string \<Rightarrow> (string \<Rightarrow> ConfigurationProblem) \<Rightarrow> string option \<Rightarrow> outcome \<Rightarrow> outcome" where
  "reportError key p validationError out =
     (case (validationError, out) of
        (None, _) \<Rightarrow> out
      | (Some err, (c, changes, problems)) \<Rightarrow>
          (case markError key err changes of
             Some changes' \<Rightarrow> (c, changes', problems)
           | None \<Rightarrow> (c, changes, problems @ [p err])))"

text \<open>What an operation returns while startup is not complete: only the problem of an invalid resource.\<close>

definition startupOutcome :: "(string \<Rightarrow> ConfigurationProblem) \<Rightarrow> string option \<Rightarrow> Configuration \<Rightarrow> outcome" where
  "startupOutcome p validationError c = (c, [], case validationError of None \<Rightarrow> [] | Some err \<Rightarrow> [p err])"

section \<open>The operations\<close>

definition AddOrUpdateIngress :: "configEnv \<Rightarrow> Ingress \<Rightarrow> Configuration \<Rightarrow> outcome option" where
  "AddOrUpdateIngress env ing c =
     (let (c1, validationError) = storeIngress env ing c; p = rejected (ObjIngress ing)
      in if \<not> cfg_startupComplete c1 then Some (startupOutcome p validationError c1)
         else map_option (reportError (getResourceKeyWithKind ingressKind (ing_ObjectMeta ing)) p validationError)
                (rebuildHosts (ce_vsr env) c1))"

definition DeleteIngress :: "configEnv \<Rightarrow> string \<Rightarrow> Configuration \<Rightarrow> outcome option" where
  "DeleteIngress env key c =
     (if gget (cfg_ingresses c) key = None then Some (c, [], [])
      else
        (let c1 = c\<lparr>cfg_ingresses := gdel (cfg_ingresses c) key,
                    cfg_minionsByHost := removeMinionFromIndex key (cfg_minionsByHost c)\<rparr>
         in if \<not> cfg_startupComplete c1 then Some (c1, [], []) else rebuildHosts (ce_vsr env) c1))"

definition AddOrUpdateVirtualServer :: "configEnv \<Rightarrow> VirtualServer \<Rightarrow> Configuration \<Rightarrow> outcome option" where
  "AddOrUpdateVirtualServer env vs c =
     (let (c1, validationError) = storeVirtualServer env vs c;
          p = (\<lambda>err. rejected (ObjVirtualServer vs) (rejectedMessage virtualServerKind (vs_ObjectMeta vs) err))
      in if \<not> cfg_startupComplete c1 then Some (startupOutcome p validationError c1)
         else map_option (reportError (getResourceKeyWithKind virtualServerKind (vs_ObjectMeta vs)) p validationError)
                (rebuildHosts (ce_vsr env) c1))"

definition DeleteVirtualServer :: "configEnv \<Rightarrow> string \<Rightarrow> Configuration \<Rightarrow> outcome option" where
  "DeleteVirtualServer env key c =
     (if gget (cfg_virtualServers c) key = None then Some (c, [], [])
      else
        (let c1 = c\<lparr>cfg_virtualServers := gdel (cfg_virtualServers c) key\<rparr>
         in if \<not> cfg_startupComplete c1 then Some (c1, [], []) else rebuildHosts (ce_vsr env) c1))"

text \<open>The problem of an invalid VirtualServerRoute is always added: it has no change of its own.\<close>

definition AddOrUpdateVirtualServerRoute :: "configEnv \<Rightarrow> VirtualServerRoute \<Rightarrow> Configuration \<Rightarrow> outcome option" where
  "AddOrUpdateVirtualServerRoute env vsr c =
     (let (c1, validationError) = storeVirtualServerRoute env vsr c;
          p = (\<lambda>err. rejected (ObjVirtualServerRoute vsr) (rejectedMessage virtualServerRouteKind (vsr_ObjectMeta vsr) err))
      in if \<not> cfg_startupComplete c1 then Some (startupOutcome p validationError c1)
         else map_option (\<lambda>(c2, changes, problems).
                  (c2, changes, problems @ (case validationError of None \<Rightarrow> [] | Some err \<Rightarrow> [p err])))
                (rebuildHosts (ce_vsr env) c1))"

definition DeleteVirtualServerRoute :: "configEnv \<Rightarrow> string \<Rightarrow> Configuration \<Rightarrow> outcome option" where
  "DeleteVirtualServerRoute env key c =
     (if gget (cfg_virtualServerRoutes c) key = None then Some (c, [], [])
      else
        (let c1 = c\<lparr>cfg_virtualServerRoutes := gdel (cfg_virtualServerRoutes c) key\<rparr>
         in if \<not> cfg_startupComplete c1 then Some (c1, [], []) else rebuildHosts (ce_vsr env) c1))"

text \<open>
  The rebuild of the listeners followed, under a condition, by the rebuild of the hosts, whose changes
  and problems are appended.
\<close>

definition rebuildBoth :: "configEnv \<Rightarrow> bool \<Rightarrow> Configuration \<Rightarrow> outcome option" where
  "rebuildBoth env hostsToo c =
     (let (c1, changes, problems) = rebuildListenerHosts c
      in if hostsToo
         then map_option (\<lambda>(c2, hostChanges, hostProblems). (c2, changes @ hostChanges, problems @ hostProblems))
                (rebuildHosts (ce_vsr env) c1)
         else Some (c1, changes, problems))"

text \<open>The third result of \<^verbatim>\<open>AddOrUpdateGlobalConfiguration\<close> is the list of errors of the listeners that are left out.\<close>

definition AddOrUpdateGlobalConfiguration ::
  "configEnv \<Rightarrow> GlobalConfiguration \<Rightarrow> Configuration \<Rightarrow> (outcome \<times> fieldError list) option" where
  "AddOrUpdateGlobalConfiguration env gc c =
     (let (gc', validationErr) = ValidateGlobalConfiguration (ce_listener env) gc;
          c1 = c\<lparr>cfg_globalConfiguration := Some gc', cfg_listenerMap := setGlobalConfigListenerMap (Some gc')\<rparr>
      in map_option (\<lambda>out. (out, validationErr)) (rebuildBoth env (cfg_startupComplete c) c1))"

definition DeleteGlobalConfiguration :: "configEnv \<Rightarrow> Configuration \<Rightarrow> outcome option" where
  "DeleteGlobalConfiguration env c =
     (let c1 = c\<lparr>cfg_globalConfiguration := None, cfg_listenerMap := setGlobalConfigListenerMap None\<rparr>
      in rebuildBoth env (cfg_startupComplete c) c1)"

definition AddOrUpdateTransportServer :: "configEnv \<Rightarrow> TransportServer \<Rightarrow> Configuration \<Rightarrow> outcome option" where
  "AddOrUpdateTransportServer env ts c =
     (let (c1, validationErr) = storeTransportServer env ts c;
          p = (\<lambda>err. rejected (ObjTransportServer ts) (rejectedMessage transportServerKind (ts_ObjectMeta ts) err))
      in map_option (reportError (getResourceKeyWithKind transportServerKind (ts_ObjectMeta ts)) p validationErr)
           (rebuildBoth env (cfg_isTLSPassthroughEnabled c \<and> cfg_startupComplete c) c1))"

definition DeleteTransportServer :: "configEnv \<Rightarrow> string \<Rightarrow> Configuration \<Rightarrow> outcome option" where
  "DeleteTransportServer env key c =
     (if gget (cfg_transportServers c) key = None then Some (c, [], [])
      else
        rebuildBoth env (cfg_isTLSPassthroughEnabled c \<and> cfg_startupComplete c)
          (c\<lparr>cfg_transportServers := gdel (cfg_transportServers c) key\<rparr>))"

definition CompleteStartup :: "configEnv \<Rightarrow> Configuration \<Rightarrow> outcome option" where
  "CompleteStartup env c = rebuildHosts (ce_vsr env) (c\<lparr>cfg_startupComplete := True\<rparr>)"

section \<open>Runs\<close>

datatype event =
    UpdateIngress Ingress | RemoveIngress string
  | UpdateVirtualServer VirtualServer | RemoveVirtualServer string
  | UpdateVirtualServerRoute VirtualServerRoute | RemoveVirtualServerRoute string
  | UpdateTransportServer TransportServer | RemoveTransportServer string
  | UpdateGlobalConfiguration GlobalConfiguration | RemoveGlobalConfiguration
  | StartupDone

fun step :: "configEnv \<Rightarrow> event \<Rightarrow> Configuration \<Rightarrow> outcome option" where
  "step env (UpdateIngress ing) c = AddOrUpdateIngress env ing c"
| "step env (RemoveIngress key) c = DeleteIngress env key c"
| "step env (UpdateVirtualServer vs) c = AddOrUpdateVirtualServer env vs c"
| "step env (RemoveVirtualServer key) c = DeleteVirtualServer env key c"
| "step env (UpdateVirtualServerRoute vsr) c = AddOrUpdateVirtualServerRoute env vsr c"
| "step env (RemoveVirtualServerRoute key) c = DeleteVirtualServerRoute env key c"
| "step env (UpdateTransportServer ts) c = AddOrUpdateTransportServer env ts c"
| "step env (RemoveTransportServer key) c = DeleteTransportServer env key c"
| "step env (UpdateGlobalConfiguration gc) c = map_option fst (AddOrUpdateGlobalConfiguration env gc c)"
| "step env RemoveGlobalConfiguration c = DeleteGlobalConfiguration env c"
| "step env StartupDone c = CompleteStartup env c"

section \<open>Invalid resources are reported\<close>

text \<open>The rejection of a resource: its key, the problem and the text of the error.\<close>

definition rejectionOf :: "configEnv \<Rightarrow> Object \<Rightarrow> fieldError list \<Rightarrow> string \<Rightarrow> (string \<Rightarrow> string) \<Rightarrow> (string \<times> ConfigurationProblem \<times> string) option" where
  "rejectionOf env obj errs key message =
     (if ce_class env obj \<and> errs \<noteq> []
      then Some (key, rejected obj (message (env_errorText (ce_vsr env) errs)), env_errorText (ce_vsr env) errs)
      else None)"

fun rejection :: "configEnv \<Rightarrow> Configuration \<Rightarrow> event \<Rightarrow> (string \<times> ConfigurationProblem \<times> string) option" where
  "rejection env c (UpdateIngress ing) =
     rejectionOf env (ObjIngress ing) (validateIngress (ce_ingress env) (cfg_allowEmptyIngressHost c) ing)
       (getResourceKeyWithKind ingressKind (ing_ObjectMeta ing)) id"
| "rejection env c (UpdateVirtualServer vs) =
     rejectionOf env (ObjVirtualServer vs) (ValidateVirtualServer env vs)
       (getResourceKeyWithKind virtualServerKind (vs_ObjectMeta vs)) (rejectedMessage virtualServerKind (vs_ObjectMeta vs))"
| "rejection env c (UpdateVirtualServerRoute vsr) =
     rejectionOf env (ObjVirtualServerRoute vsr) (ValidateVirtualServerRoute (env_checks (ce_vsr env)) vsr)
       (getResourceKeyWithKind virtualServerRouteKind (vsr_ObjectMeta vsr)) (rejectedMessage virtualServerRouteKind (vsr_ObjectMeta vsr))"
| "rejection env c (UpdateTransportServer ts) =
     rejectionOf env (ObjTransportServer ts) (ce_transportServer env ts)
       (getResourceKeyWithKind transportServerKind (ts_ObjectMeta ts)) (rejectedMessage transportServerKind (ts_ObjectMeta ts))"
| "rejection env c _ = None"

definition noErrors :: "ResourceChange list \<Rightarrow> bool" where
  "noErrors changes = list_all (\<lambda>d. rc_Error d = []) changes"

definition noErrorProblems :: "ConfigurationProblem list \<Rightarrow> bool" where
  "noErrorProblems problems = list_all (\<lambda>p. \<not> cp_IsError p) problems"

text \<open>What an operation reports: nothing, or the error once, on a change or as the last problem.\<close>

definition reported :: "(string \<times> ConfigurationProblem \<times> string) option \<Rightarrow> ResourceChange list \<Rightarrow> ConfigurationProblem list \<Rightarrow> bool" where
  "reported rej changes problems =
     (case rej of
        None \<Rightarrow> noErrors changes \<and> noErrorProblems problems
      | Some (key, p, err) \<Rightarrow>
          (\<exists>before d after. changes = before @ d\<lparr>rc_Error := err\<rparr> # after \<and> changeKey d = key \<and>
             noErrors before \<and> noErrors after \<and> noErrorProblems problems) \<or>
          noErrors changes \<and> (\<exists>others. problems = others @ [p] \<and> noErrorProblems others))"

lemma squash_subset: "set (squashResourceChanges cs) \<subseteq> set cs"
proof
  fix d
  assume "d \<in> set (squashResourceChanges cs)"
  then have "changeKey d \<in> changeKey ` set cs" "d = last (filter (\<lambda>e. changeKey e = changeKey d) cs)"
    unfolding set_squash by auto
  then have "filter (\<lambda>e. changeKey e = changeKey d) cs \<noteq> []" "d = last (filter (\<lambda>e. changeKey e = changeKey d) cs)"
    by (auto simp: filter_empty_conv)
  from last_in_set [OF this(1)] this(2) show "d \<in> set cs"
    by auto
qed

lemma noErrors_created: "noErrors (squashResourceChanges (createResourceChanges res rem upd add old new))"
proof -
  have "rc_Error d = []" if "d \<in> set (createResourceChanges res rem upd add old new)" for d
    using that by (auto simp: createResourceChanges_def Let_def change_def)
  with squash_subset show ?thesis
    unfolding noErrors_def list_all_iff by blast
qed

lemma relink_Error [simp]: "rc_Error (relink resources d) = rc_Error d" "rc_Error (relinkTS configs d) = rc_Error d"
  by (simp_all add: relink_def relinkTS_def split: option.splits)

lemma noErrors_relink [simp]:
  "noErrors (map (relink resources) changes) = noErrors changes"
  "noErrors (map (relinkTS configs) changes) = noErrors changes"
  by (simp_all add: noErrors_def list_all_iff)

text \<open>The problems of a rebuild are no errors.\<close>

definition plainProblems :: "problems \<Rightarrow> bool" where
  "plainProblems ps = (\<forall>k p. gget ps k = Some p \<longrightarrow> \<not> cp_IsError p)"

lemma plainProblems_simps [simp]:
  "plainProblems []"
  "plainProblems ps \<Longrightarrow> plainProblems (gput ps k (problem obj reason message))"
  by (simp_all add: plainProblems_def problem_def)

lemma plainProblems_fold: "(\<And>x ps. plainProblems ps \<Longrightarrow> plainProblems (f x ps)) \<Longrightarrow> plainProblems ps \<Longrightarrow> plainProblems (fold f xs ps)"
  by (induction xs arbitrary: ps) auto

lemma noErrorProblems_detect: "plainProblems new \<Longrightarrow> noErrorProblems (detectChangesInProblems new old)"
  by (fastforce simp: noErrorProblems_def list_all_iff detectChangesInProblems_def set_mapFilter plainProblems_def
      split: option.split_asm if_split_asm)

lemma plain_tsListenerProblem: "plainProblems ps \<Longrightarrow> plainProblems (tsListenerProblem hosts tsc ps)"
  by (simp add: tsListenerProblem_def Let_def split: option.splits)

lemma plain_resourceProblem: "plainProblems ps \<Longrightarrow> resourceProblem c r ps = Some ps' \<Longrightarrow> plainProblems ps'"
  by (cases r) (auto simp: hostTaken_def split: option.splits if_splits)

lemma plain_addProblemsForResources:
  "addProblemsForResourcesWithoutActiveHost c rs ps = Some ps' \<Longrightarrow> plainProblems ps \<Longrightarrow> plainProblems ps'"
  by (induction c rs ps rule: addProblemsForResourcesWithoutActiveHost.induct)
    (auto split: option.splits dest: plain_resourceProblem)

lemma plain_orphanMinion: "plainProblems ps \<Longrightarrow> plainProblems (orphanMinion c key ps)"
  by (simp add: orphanMinion_def split: option.splits)

lemma plain_orphanMinions: "plainProblems ps \<Longrightarrow> plainProblems (addProblemsForOrphanMinions c ps)"
  unfolding addProblemsForOrphanMinions_def
  by (rule plainProblems_fold) (auto simp: plain_orphanMinion intro!: plainProblems_fold split: prod.splits)

lemma plain_vsrProblem: "plainProblems ps \<Longrightarrow> plainProblems (vsrProblem c vsr ps)"
  by (simp add: vsrProblem_def Let_def split: option.splits Resource.splits)

lemma plain_orphanVsrs: "plainProblems ps \<Longrightarrow> plainProblems (addProblemsForOrphanOrIgnoredVsrs c ps)"
  unfolding addProblemsForOrphanOrIgnoredVsrs_def by (rule plainProblems_fold) (simp_all add: plain_vsrProblem)

lemma rebuildHosts_no_errors:
  assumes "rebuildHosts env c = Some (c', changes, problems)"
  shows "noErrors changes \<and> noErrorProblems problems"
  using assms
  by (auto simp: rebuildHosts_def Let_def createResourceChangesForHosts_def noErrors_created
      split: option.splits prod.splits
      intro!: noErrorProblems_detect plain_orphanVsrs plain_orphanMinions
      dest: plain_addProblemsForResources)

lemma rebuildListenerHosts_no_errors:
  assumes "rebuildListenerHosts c = (c', changes, problems)"
  shows "noErrors changes \<and> noErrorProblems problems"
proof -
  have "plainProblems (addProblemsForTSConfigsWithoutActiveListener c configs [])" for c configs
    unfolding addProblemsForTSConfigsWithoutActiveListener_def
    by (rule plainProblems_fold) (auto simp: plain_tsListenerProblem split: prod.splits)
  with assms show ?thesis
    by (auto simp: rebuildListenerHosts_def Let_def createResourceChangesForListeners_def noErrors_created
        split: prod.splits intro!: noErrorProblems_detect)
qed

lemma rebuildBoth_no_errors:
  assumes "rebuildBoth env hostsToo c = Some (c', changes, problems)"
  shows "noErrors changes \<and> noErrorProblems problems"
proof -
  obtain c1 ch1 ps1 where l: "rebuildListenerHosts c = (c1, ch1, ps1)"
    by (cases "rebuildListenerHosts c")
  from rebuildListenerHosts_no_errors [OF l] assms l show ?thesis
    by (auto simp: rebuildBoth_def noErrors_def noErrorProblems_def split: if_splits
        dest!: rebuildHosts_no_errors)
qed

lemma markError_Some:
  "markError key err changes = Some changes' \<Longrightarrow>
   \<exists>before d after. changes = before @ d # after \<and> changes' = before @ d\<lparr>rc_Error := err\<rparr> # after \<and> changeKey d = key"
proof (induction changes arbitrary: changes')
  case (Cons d changes)
  show ?case
  proof (cases "changeKey d = key")
    case True
    with Cons.prems show ?thesis
      by (intro exI [of _ "[]"]) auto
  next
    case False
    with Cons.prems obtain ds where ds: "markError key err changes = Some ds" "changes' = d # ds"
      by auto
    from Cons.IH [OF ds(1)] obtain before e after where
      "changes = before @ e # after" "ds = before @ e\<lparr>rc_Error := err\<rparr> # after" "changeKey e = key"
      by blast
    with ds(2) show ?thesis
      by (intro exI [of _ "d # before"] exI [of _ e] exI [of _ after]) simp
  qed
qed simp

lemma reportError_reported:
  assumes "noErrors changes \<and> noErrorProblems problems"
    and "reportError key p verr (c, changes, problems) = (c', changes', problems')"
  shows "reported (map_option (\<lambda>err. (key, p err, err)) verr) changes' problems'"
proof (cases verr)
  case (Some err)
  show ?thesis
  proof (cases "markError key err changes")
    case None
    with Some assms show ?thesis
      by (auto simp: reportError_def reported_def)
  next
    case (Some ch)
    from markError_Some [OF Some] obtain before d after where
      "changes = before @ d # after" "ch = before @ d\<lparr>rc_Error := err\<rparr> # after" "changeKey d = key"
      by blast
    moreover from this Some \<open>verr = Some err\<close> assms have "noErrors before" "noErrors after" "noErrorProblems problems'" "changes' = ch"
      by (auto simp: reportError_def noErrors_def)
    ultimately show ?thesis
      using \<open>verr = Some err\<close> by (auto simp: reported_def)
  qed
qed (use assms in \<open>auto simp: reportError_def reported_def\<close>)

lemma step_reported:
  assumes "rebuildHosts (ce_vsr env) c1 = Some (c', changes, problems) \<or> rebuildBoth env b c1 = Some (c', changes, problems)"
  shows "reported None changes problems"
  using assms rebuildHosts_no_errors rebuildBoth_no_errors unfolding reported_def by fastforce

lemma reported_silent [simp]: "reported None [] []"
  by (simp add: reported_def noErrors_def noErrorProblems_def)

lemma startup_reported:
  "startupOutcome p verr c = (c', changes, problems) \<Longrightarrow> reported (map_option (\<lambda>err. (key, p err, err)) verr) changes problems"
  by (auto simp: startupOutcome_def reported_def noErrors_def noErrorProblems_def split: option.splits)

lemma rejectionOf_store:
  "rejectionOf env obj errs key message =
   map_option (\<lambda>err. (key, rejected obj (message err), err)) (if ce_class env obj then aggregate env errs else None)"
  by (simp add: rejectionOf_def aggregate_def)

lemma hosts_reported:
  assumes "(if \<not> startup then Some (startupOutcome p verr c1) else map_option (reportError key p verr) (rebuildHosts env c1)) =
      Some (c', changes, problems)"
  shows "reported (map_option (\<lambda>err. (key, p err, err)) verr) changes problems"
proof (cases startup)
  case True
  with assms obtain c2 ch ps where "rebuildHosts env c1 = Some (c2, ch, ps)"
    "reportError key p verr (c2, ch, ps) = (c', changes, problems)"
    by auto
  then show ?thesis
    using reportError_reported rebuildHosts_no_errors by blast
next
  case False
  with assms show ?thesis
    using startup_reported [of p verr c1] by auto
qed

lemma AddOrUpdateIngress_reported:
  assumes "AddOrUpdateIngress env ing c = Some (c', changes, problems)"
  shows "reported (rejection env c (UpdateIngress ing)) changes problems"
proof -
  obtain c1 verr where st: "storeIngress env ing c = (c1, verr)"
    by (cases "storeIngress env ing c")
  then have "rejection env c (UpdateIngress ing) =
    map_option (\<lambda>err. (getResourceKeyWithKind ingressKind (ing_ObjectMeta ing), rejected (ObjIngress ing) err, err)) verr"
    by (auto simp: rejectionOf_store storeIngress_def Let_def split: if_splits option.splits)
  with assms st hosts_reported show ?thesis
    by (fastforce simp: AddOrUpdateIngress_def Let_def)
qed

lemma AddOrUpdateVirtualServer_reported:
  assumes "AddOrUpdateVirtualServer env vs c = Some (c', changes, problems)"
  shows "reported (rejection env c (UpdateVirtualServer vs)) changes problems"
proof -
  let ?p = "\<lambda>err. rejected (ObjVirtualServer vs) (rejectedMessage virtualServerKind (vs_ObjectMeta vs) err)"
  obtain c1 verr where st: "storeVirtualServer env vs c = (c1, verr)"
    by (cases "storeVirtualServer env vs c")
  then have "rejection env c (UpdateVirtualServer vs) =
    map_option (\<lambda>err. (getResourceKeyWithKind virtualServerKind (vs_ObjectMeta vs), ?p err, err)) verr"
    by (auto simp: rejectionOf_store storeVirtualServer_def Let_def split: if_splits option.splits)
  with assms st hosts_reported [of "cfg_startupComplete c1" ?p] show ?thesis
    by (fastforce simp: AddOrUpdateVirtualServer_def Let_def)
qed

lemma AddOrUpdateVirtualServerRoute_reported:
  assumes "AddOrUpdateVirtualServerRoute env vsr c = Some (c', changes, problems)"
  shows "reported (rejection env c (UpdateVirtualServerRoute vsr)) changes problems"
proof -
  let ?p = "\<lambda>err. rejected (ObjVirtualServerRoute vsr) (rejectedMessage virtualServerRouteKind (vsr_ObjectMeta vsr) err)"
  let ?key = "getResourceKeyWithKind virtualServerRouteKind (vsr_ObjectMeta vsr)"
  obtain c1 verr where st: "storeVirtualServerRoute env vsr c = (c1, verr)"
    by (cases "storeVirtualServerRoute env vsr c")
  then have rej: "rejection env c (UpdateVirtualServerRoute vsr) = map_option (\<lambda>err. (?key, ?p err, err)) verr"
    by (auto simp: rejectionOf_store storeVirtualServerRoute_def Let_def split: if_splits option.splits)
  show ?thesis
  proof (cases "cfg_startupComplete c1")
    case True
    with assms st obtain ps where "rebuildHosts (ce_vsr env) c1 = Some (c', changes, ps)"
      "problems = ps @ (case verr of None \<Rightarrow> [] | Some err \<Rightarrow> [?p err])"
      by (auto simp: AddOrUpdateVirtualServerRoute_def Let_def)
    then show ?thesis
      unfolding rej using rebuildHosts_no_errors by (fastforce simp: reported_def split: option.splits)
  next
    case False
    with assms st startup_reported [of ?p verr c1 c' changes problems ?key] show ?thesis
      unfolding rej by (simp add: AddOrUpdateVirtualServerRoute_def Let_def)
  qed
qed

lemma AddOrUpdateTransportServer_reported:
  assumes "AddOrUpdateTransportServer env ts c = Some (c', changes, problems)"
  shows "reported (rejection env c (UpdateTransportServer ts)) changes problems"
proof -
  let ?p = "\<lambda>err. rejected (ObjTransportServer ts) (rejectedMessage transportServerKind (ts_ObjectMeta ts) err)"
  let ?key = "getResourceKeyWithKind transportServerKind (ts_ObjectMeta ts)"
  obtain c1 verr where st: "storeTransportServer env ts c = (c1, verr)"
    by (cases "storeTransportServer env ts c")
  then have rej: "rejection env c (UpdateTransportServer ts) = map_option (\<lambda>err. (?key, ?p err, err)) verr"
    by (auto simp: rejectionOf_store storeTransportServer_def Let_def split: if_splits option.splits)
  from assms st obtain b c2 ch ps where "rebuildBoth env b c1 = Some (c2, ch, ps)"
    "reportError ?key ?p verr (c2, ch, ps) = (c', changes, problems)"
    by (auto simp: AddOrUpdateTransportServer_def Let_def)
  then show ?thesis
    unfolding rej using reportError_reported rebuildBoth_no_errors by blast
qed

text \<open>
  C7. Every operation reports exactly the errors of validation: when the resource it is given is
  rejected, the error is put once, on the change that removes the resource or, without such a change,
  as the last problem; when nothing is rejected, no change and no problem is an error.
\<close>

theorem invalid_resource_reported:
  assumes "step env e c = Some (c', changes, problems)"
  shows "reported (rejection env c e) changes problems"
proof (cases e)
  case (UpdateIngress ing)
  with assms AddOrUpdateIngress_reported [of env ing c] show ?thesis
    by simp
next
  case (UpdateVirtualServer vs)
  with assms AddOrUpdateVirtualServer_reported [of env vs c] show ?thesis
    by simp
next
  case (UpdateVirtualServerRoute vsr)
  with assms AddOrUpdateVirtualServerRoute_reported [of env vsr c] show ?thesis
    by simp
next
  case (UpdateTransportServer ts)
  with assms AddOrUpdateTransportServer_reported [of env ts c] show ?thesis
    by simp
qed (use assms in \<open>auto simp: DeleteIngress_def DeleteVirtualServer_def DeleteVirtualServerRoute_def DeleteTransportServer_def
  AddOrUpdateGlobalConfiguration_def DeleteGlobalConfiguration_def CompleteStartup_def Let_def
  split: if_splits prod.splits intro: step_reported\<close>)

text \<open>An environment for the examples: all fields are accepted, and a TransportServer with one particular host is invalid.\<close>

definition exampleConfigEnv :: configEnv where
  "exampleConfigEnv =
     \<lparr>ce_vsr = exampleEnv, ce_ingress = \<lparr>chk_annotations = \<lambda>_ _. [], chk_path = \<lambda>_ _ _. []\<rparr>,
      ce_listener = plainListenerChecks, ce_tls = \<lambda>_ _. [], ce_externalDNS = \<lambda>_ _. [],
      ce_transportServer = \<lambda>ts. if ts_Host ts = ''invalid'' then [FieldError ErrInvalid [Child ''host'']] else [],
      ce_class = \<lambda>_. True\<rparr>"

definition invalidServer :: TransportServer where
  "invalidServer = (dnsServer ''a'' 1)\<lparr>ts_Spec := (ts_Spec (dnsServer ''a'' 1))\<lparr>tss_Host := ''invalid''\<rparr>\<rparr>"

abbreviation newConfiguration :: Configuration where
  "newConfiguration \<equiv> NewConfiguration False True False False False"

lemma invalid_step:
  "step exampleConfigEnv (UpdateTransportServer invalidServer) newConfiguration =
   Some (newConfiguration, [], [rejected (ObjTransportServer invalidServer) ''TransportServer d/a was rejected with error: invalid''])"
  by code_simp

theorem invalid_resource_reported_witness:
  "reported (rejection exampleConfigEnv newConfiguration (UpdateTransportServer invalidServer)) []
     [rejected (ObjTransportServer invalidServer) ''TransportServer d/a was rejected with error: invalid''] \<and>
   rejection exampleConfigEnv newConfiguration (UpdateTransportServer invalidServer) \<noteq> None"
proof -
  have "rejection exampleConfigEnv newConfiguration (UpdateTransportServer invalidServer) \<noteq> None"
    by code_simp
  then show ?thesis
    using invalid_resource_reported [OF invalid_step] by blast
qed

section \<open>A TransportServer that leaves TLS passthrough\<close>

text \<open>
  A TransportServer is updated from TLS passthrough to a listener. The rebuild of the listeners adds
  it and the rebuild of the hosts, which comes after, deletes it; the controller applies the changes
  in this order, so that the configuration of a TransportServer that holds a listener is removed.
\<close>

definition passthroughServer :: TransportServer where
  "passthroughServer = (dnsServer ''a'' 1)
     \<lparr>ts_Spec := (ts_Spec (dnsServer ''a'' 1))
       \<lparr>tss_Host := ''a.example.com'', tss_Listener := \<lparr>tsl_Name = TLSPassthroughListenerName, tsl_Protocol = TLSPassthroughListenerProtocol\<rparr>\<rparr>\<rparr>"

definition passthroughState :: Configuration where
  "passthroughState = newConfiguration
     \<lparr>cfg_startupComplete := True, cfg_globalConfiguration := Some dnsConfiguration,
      cfg_listenerMap := setGlobalConfigListenerMap (Some dnsConfiguration),
      cfg_transportServers := [(''d/a'', passthroughServer)],
      cfg_hosts := [(''a.example.com'', TransportServerRes (NewTransportServerConfiguration passthroughServer))]\<rparr>"

lemma passthrough_switch_lost:
  "case step exampleConfigEnv (UpdateTransportServer (dnsServer ''a'' 1)) passthroughState of
     None \<Rightarrow> False
   | Some (c', changes, problems) \<Rightarrow>
       map (\<lambda>d. (rc_Op d, changeKey d)) changes = [(AddOrUpdate, ''TransportServer/d/a''), (Delete, ''TransportServer/d/a'')] \<and>
       map (\<lambda>(h, tsc). getResourceKey (tscMeta tsc)) (cfg_listenerHosts c') = [''d/a'']"
  by code_simp

end
