(* ===== verification/Settled.thy ===== *)
theory Settled
  imports Config_Operations
begin

text \<open>
  What the two rebuilds of the \<^verbatim>\<open>Configuration\<close> read and write. The hosts and the problems that
  \<^verbatim>\<open>rebuildHosts\<close> computes are functions of the stores, so a second rebuild changes nothing; the same
  holds for \<^verbatim>\<open>rebuildListenerHosts\<close>. The invariant of the stores is kept by every way of storing and
  removing a resource.

  A Go map may be ranged over in another order each time. Statements that compare two rebuilds of the
  same stores are about rebuilds that see the maps in the same order.
\<close>

section \<open>What a rebuild of the hosts reads\<close>

definition sameInputs :: "Configuration \<Rightarrow> Configuration \<Rightarrow> bool" where
  "sameInputs c d =
     (cfg_ingresses c = cfg_ingresses d \<and> cfg_virtualServers c = cfg_virtualServers d \<and>
      cfg_virtualServerRoutes c = cfg_virtualServerRoutes d \<and> cfg_minionsByHost c = cfg_minionsByHost d \<and>
      cfg_globalConfiguration c = cfg_globalConfiguration d \<and> cfg_listenerMap c = cfg_listenerMap d \<and>
      cfg_isCertManagerEnabled c = cfg_isCertManagerEnabled d \<and>
      cfg_isTLSPassthroughEnabled c = cfg_isTLSPassthroughEnabled d \<and>
      (cfg_isTLSPassthroughEnabled c \<longrightarrow> cfg_transportServers c = cfg_transportServers d))"

lemma sameInputsD:
  assumes "sameInputs c d"
  shows "cfg_ingresses c = cfg_ingresses d" "cfg_virtualServers c = cfg_virtualServers d"
    "cfg_virtualServerRoutes c = cfg_virtualServerRoutes d" "cfg_minionsByHost c = cfg_minionsByHost d"
    "cfg_globalConfiguration c = cfg_globalConfiguration d" "cfg_listenerMap c = cfg_listenerMap d"
    "cfg_isCertManagerEnabled c = cfg_isCertManagerEnabled d"
    "cfg_isTLSPassthroughEnabled c = cfg_isTLSPassthroughEnabled d"
    "cfg_isTLSPassthroughEnabled d \<Longrightarrow> cfg_transportServers c = cfg_transportServers d"
  using assms by (auto simp: sameInputs_def)

lemma sameInputs_hosts: "sameInputs c d \<Longrightarrow> sameInputs (c\<lparr>cfg_hosts := h\<rparr>) (d\<lparr>cfg_hosts := h\<rparr>)"
  by (simp add: sameInputs_def)

lemma buildIngress_inputs: "sameInputs c d \<Longrightarrow> buildIngress c ing = buildIngress d ing"
  by (simp add: buildIngress_def isChallengeIngressFor_def convertIngressToVSR_def isChallengeIngressOwnerVs_def sameInputsD cong: option.case_cong if_cong list.case_cong)

lemma addIngresses_inputs: "sameInputs c d \<Longrightarrow> addIngresses c ings st = addIngresses d ings st"
  by (induction c ings st rule: addIngresses.induct) (simp_all add: buildIngress_inputs split: option.split ingressBuild.split)

lemma addVirtualServer_inputs: "sameInputs c d \<Longrightarrow> addVirtualServer env c = addVirtualServer env d"
  by (intro ext) (simp add: addVirtualServer_def buildVirtualServer_def sameInputsD)

lemma buildHosts_inputs: "sameInputs c d \<Longrightarrow> buildHostsAndResources env c = buildHostsAndResources env d"
  by (auto simp: buildHostsAndResources_def addIngresses_inputs addVirtualServer_inputs sameInputsD Let_def split: option.splits)

text \<open>The problems and warnings read the hosts as well.\<close>

lemma resourceProblem_inputs:
  "sameInputs c d \<Longrightarrow> cfg_hosts c = cfg_hosts d \<Longrightarrow> resourceProblem c r ps = resourceProblem d r ps"
  by (cases r) (simp_all add: hostTaken_def)

lemma addProblemsForResources_inputs:
  "sameInputs c d \<Longrightarrow> cfg_hosts c = cfg_hosts d \<Longrightarrow>
   addProblemsForResourcesWithoutActiveHost c rs ps = addProblemsForResourcesWithoutActiveHost d rs ps"
  by (induction c rs ps rule: addProblemsForResourcesWithoutActiveHost.induct)
    (simp_all add: resourceProblem_inputs [of _ d] split: option.split)

lemma orphanMinion_inputs: "sameInputs c d \<Longrightarrow> orphanMinion c = orphanMinion d"
  by (intro ext) (simp add: orphanMinion_def sameInputsD)

lemma listenerMisuse_inputs:
  assumes "sameInputs c d"
  shows "listenerMisuse c vs = listenerMisuse d vs"
  unfolding listenerMisuse_def sameInputsD [OF assms] ..

lemma orphanMinions_inputs:
  assumes "sameInputs c d" and "cfg_hosts c = cfg_hosts d"
  shows "addProblemsForOrphanMinions c ps = addProblemsForOrphanMinions d ps"
  unfolding addProblemsForOrphanMinions_def hasMaster_def orphanMinion_inputs [OF assms(1)] sameInputsD [OF assms(1)] assms(2) ..

lemma orphanVsrs_inputs:
  assumes "sameInputs c d" and "cfg_hosts c = cfg_hosts d"
  shows "addProblemsForOrphanOrIgnoredVsrs c ps = addProblemsForOrphanOrIgnoredVsrs d ps"
  unfolding addProblemsForOrphanOrIgnoredVsrs_def vsrProblem_def sameInputsD [OF assms(1)] assms(2) ..

lemma addWarnings_inputs:
  assumes "sameInputs c d"
  shows "addWarningsForVirtualServersWithMissConfiguredListeners c holders rs store =
    addWarningsForVirtualServersWithMissConfiguredListeners d holders rs store"
proof (induction rs arbitrary: store)
  case (Cons e rs)
  then show ?case
    by (cases e) (simp add: listenerMisuse_inputs [OF assms] split: option.split Resource.split)
qed simp

text \<open>The new hosts and problems are functions of the inputs; the other fields stay.\<close>

lemma rebuildHosts_inputs:
  assumes same: "sameInputs c d" and r: "rebuildHosts env c = Some (c', changes, problems)"
  shows "\<exists>changes' problems'. rebuildHosts env d =
    Some (d\<lparr>cfg_hosts := cfg_hosts c', cfg_hostProblems := cfg_hostProblems c'\<rparr>, changes', problems')"
proof -
  note s = sameInputs_hosts [OF same]
  show ?thesis
    using r
    by (auto simp: rebuildHosts_def Let_def buildHosts_inputs [OF same] addProblemsForResources_inputs [OF s]
        orphanMinions_inputs [OF s] orphanVsrs_inputs [OF s] addWarnings_inputs [OF s]
        split: option.splits prod.splits)
qed

lemma rebuildHosts_frame:
  "rebuildHosts env c = Some (c', changes, problems) \<Longrightarrow>
   c' = c\<lparr>cfg_hosts := cfg_hosts c', cfg_hostProblems := cfg_hostProblems c'\<rparr>"
  by (auto simp: rebuildHosts_def Let_def split: option.splits prod.splits)

section \<open>Well-formed hosts\<close>

text \<open>Stored objects and the resources built from them list the keys of their maps once.\<close>

definition wfMetas :: "Configuration \<Rightarrow> bool" where
  "wfMetas c = (\<forall>k ing. gget (cfg_ingresses c) k = Some ing \<longrightarrow> wfMeta (ing_ObjectMeta ing))"

definition wfStore :: "(string, Resource) gomap \<Rightarrow> bool" where
  "wfStore store = (\<forall>k r. gget store k = Some r \<longrightarrow> wfResource r)"

lemma wfResource_AddWarning [simp]: "wfResource (AddWarning w r) = wfResource r"
  by (cases r) simp_all

lemma wfStore_simps [simp]:
  "wfStore []"
  "wfStore store \<Longrightarrow> wfResource r \<Longrightarrow> wfStore (gput store k r)"
  "wfStore store \<Longrightarrow> wfStore (warnAt AddWarning w k store)"
  by (auto simp: wfStore_def warnAt_def split: option.splits)

lemma wfStore_claimHost: "wfStore (snd st) \<Longrightarrow> wfStore (snd (claimHost h k st))"
  by (cases st) (simp add: claimHost_def claimSlot_def split: option.splits)

lemma wfStore_register: "wfStore (snd st) \<Longrightarrow> wfResource r \<Longrightarrow> wfStore (snd (register (r, hosts) st))"
proof -
  have "wfStore (snd (fold (\<lambda>h. claimHost h k) hosts st'))" if "wfStore (snd st')" for k st'
    using that by (induction hosts arbitrary: st') (simp_all add: wfStore_claimHost)
  then show "wfStore (snd st) \<Longrightarrow> wfResource r \<Longrightarrow> wfStore (snd (register (r, hosts) st))"
    by (cases st) (simp add: register_def)
qed

definition wfMinions :: "(string, MinionConfiguration) gomap \<Rightarrow> bool" where
  "wfMinions configs = list_all (\<lambda>(k, mc). wfMeta (ing_ObjectMeta (mc_Ingress mc))) configs"

lemma list_all_gput: "list_all (\<lambda>(k, v). P v) m \<Longrightarrow> P v \<Longrightarrow> list_all (\<lambda>(k, v). P v) (gput m k v)"
  unfolding gput_def by (induction m) auto

lemma list_all_gget: "list_all (\<lambda>(k, v). P v) m \<Longrightarrow> gget m k = Some v \<Longrightarrow> P v"
  by (auto simp: list_all_iff dest!: gget_memD)

lemma wfMinions_setValidPath: "wfMinions configs \<Longrightarrow> wfMinions (setValidPath k p b configs)"
  unfolding setValidPath_def wfMinions_def
  by (cases "gget configs k") (auto intro!: list_all_gput dest: list_all_gget)

lemma wfMinions_claimPath: "wfMinions (ms_configs st) \<Longrightarrow> wfMinions (ms_configs (claimPath key path st))"
  by (simp add: claimPath_def wfMinions_setValidPath split: option.splits)

lemma wfMinions_addMinion:
  assumes "\<And>k ing. gget ingresses k = Some ing \<Longrightarrow> wfMeta (ing_ObjectMeta ing)"
    and "addMinion ingresses key st = Some st'" and "wfMinions (ms_configs st)"
  shows "wfMinions (ms_configs st')"
proof -
  have fold: "wfMinions (ms_configs (fold (\<lambda>p. claimPath key (hip_Path p)) ps st))" if "wfMinions (ms_configs st)" for ps st
    using that by (induction ps arbitrary: st) (simp_all add: wfMinions_claimPath)
  have "wfMinions (gput (ms_configs st) key (NewMinionConfiguration ing))" if "gget ingresses key = Some ing" for ing
    using assms(1) [OF that] assms(3) unfolding wfMinions_def by (intro list_all_gput) (simp_all add: NewMinionConfiguration_def)
  with assms(2,3) show ?thesis
    by (auto simp: addMinion_def intro!: fold split: option.splits list.splits)
qed

lemma wfMinions_addMinions:
  assumes "\<And>k ing. gget ingresses k = Some ing \<Longrightarrow> wfMeta (ing_ObjectMeta ing)"
  shows "addMinions ingresses ks st = Some st' \<Longrightarrow> wfMinions (ms_configs st) \<Longrightarrow> wfMinions (ms_configs st')"
  using wfMinions_addMinion [OF assms]
  by (induction ingresses ks st rule: addMinions.induct) (auto split: option.splits)

lemma wf_buildMinionConfigs:
  assumes "\<And>k ing. gget ingresses k = Some ing \<Longrightarrow> wfMeta (ing_ObjectMeta ing)"
    and "buildMinionConfigs ingresses idx host = Some (minions, warnings)"
  shows "list_all (\<lambda>mc. wfMeta (ing_ObjectMeta (mc_Ingress mc))) minions"
proof -
  obtain st where st: "addMinions ingresses (minionKeys idx host) \<lparr>ms_paths = [], ms_configs = [], ms_childWarnings = []\<rparr> = Some st"
    "minions = map snd (ms_configs st)"
    using assms(2) by (auto simp: buildMinionConfigs_def split: option.splits)
  have "wfMinions (ms_configs st)"
    by (rule wfMinions_addMinions [OF assms(1) st(1)]) (simp_all add: wfMinions_def)
  with st(2) show ?thesis
    by (auto simp: wfMinions_def list_all_iff)
qed

lemma wf_buildIngress:
  assumes "wfMetas c" and "wfMeta (ing_ObjectMeta ing)" and "buildIngress c ing = Some (Build ic)"
  shows "wfResource (IngressRes ic)"
proof -
  have "list_all (\<lambda>mc. wfMeta (ing_ObjectMeta (mc_Ingress mc))) minions"
    if "buildMinionConfigs (cfg_ingresses c) (cfg_minionsByHost c) host = Some (minions, warnings)" for host minions warnings
    by (rule wf_buildMinionConfigs [OF _ that]) (use assms(1) in \<open>simp add: wfMetas_def\<close>)
  with assms(2,3) show ?thesis
    by (auto simp: buildIngress_def NewMasterIngressConfiguration_def NewRegularIngressConfiguration_def
        split: if_splits option.splits list.splits)
qed

lemma wf_addIngresses:
  assumes "addIngresses c ings st = Some st'" and "wfMetas c" and "\<forall>ing \<in> set ings. wfMeta (ing_ObjectMeta ing)"
    and "wfStore (snd (fst st))"
  shows "wfStore (snd (fst st'))"
  using assms
proof (induction c ings st rule: addIngresses.induct)
  case (2 c ing ings st challenges)
  then show ?case
    by (auto split: option.splits ingressBuild.splits dest: wf_buildIngress intro: wfStore_register)
qed simp

text \<open>The entries of selectors.\<close>

lemma gwf_fold_gput: "gwf m \<Longrightarrow> gwf (fold (\<lambda>(k, v) m. gput m k v) kvs m)"
  by (induction kvs arbitrary: m) auto

lemma selectors_addUnseen [simp]: "col_vsrSelectors (addUnseen vs v col) = col_vsrSelectors col"
  by (simp add: addUnseen_def Let_def)

lemma selectors_fold_addUnseen [simp]: "col_vsrSelectors (fold (addUnseen vs) vsrs col) = col_vsrSelectors col"
  by (induction vsrs arbitrary: col) simp_all

lemma gwf_collectRoute: "gwf (col_vsrSelectors col) \<Longrightarrow> gwf (col_vsrSelectors (collectRoute env store vs ir col))"
  by (auto simp: collectRoute_def collectRegexNamedRoute_def collectNonRegexNamedRoute_def collectSelectorRoute_def
      Let_def gwf_fold_gput split: prod.splits option.splits)

lemma gwf_selectors:
  assumes "buildVirtualServerRoutes env store vs = (vsrs, selectors, warnings)"
  shows "gwf selectors"
proof -
  have "gwf (col_vsrSelectors (fold (collectRoute env store vs) irs col))" if "gwf (col_vsrSelectors col)" for irs col
    using that by (induction irs arbitrary: col) (simp_all add: gwf_collectRoute)
  then have "gwf (col_vsrSelectors (classifyAndCollectVSRs env store vs))"
    by (simp add: classifyAndCollectVSRs_def emptyCollection_def)
  with assms show ?thesis
    by (auto simp: buildVirtualServerRoutes_def Let_def syncVSRSelectors_def gwf_def comp_def case_prod_beta split: prod.splits)
qed

lemma wf_buildVirtualServer: "wfResource (VirtualServerRes (buildVirtualServer env c challenges vs))"
proof -
  obtain vsrs selectors warnings where b: "buildVirtualServerRoutes env (cfg_virtualServerRoutes c) vs = (vsrs, selectors, warnings)"
    using prod_cases3 by blast
  have "vsc_VirtualServerRouteSelectors (buildListenersForVSConfiguration gc lm vsc) = vsc_VirtualServerRouteSelectors vsc" for gc lm vsc
    by (simp add: buildListenersForVSConfiguration_def Let_def split: option.splits prod.splits)
  with gwf_selectors [OF b] b show ?thesis
    by (simp add: buildVirtualServer_def NewVirtualServerConfiguration_def)
qed

lemma wf_buildHosts:
  assumes "wfMetas c" and "buildHostsAndResources env c = Some (holders, store)"
  shows "wfStore store"
proof -
  obtain st challenges where a: "addIngresses c (sortedValues (cfg_ingresses c)) (([], []), []) = Some (st, challenges)"
    using assms(2) by (auto simp: buildHostsAndResources_def split: option.splits)
  have "\<forall>ing \<in> set (sortedValues (cfg_ingresses c)). wfMeta (ing_ObjectMeta ing)"
    using assms(1) by (auto simp: wfMetas_def set_sortedValues)
  then have "wfStore (snd st)"
    using wf_addIngresses [OF a assms(1)] by simp
  then have vs: "wfStore (snd (fold (addVirtualServer env c challenges) vss st))" for vss
    by (induction vss arbitrary: st)
      (simp_all add: addVirtualServer_def wfStore_register wf_buildVirtualServer del: wfResource.simps)
  have ts: "wfStore (snd (fold addPassthrough tss st'))" if "wfStore (snd st')" for tss st'
    using that by (induction tss arbitrary: st') (simp_all add: addPassthrough_def wfStore_register)
  show ?thesis
    using vs [of "sortedValues (cfg_virtualServers c)"] ts [OF vs [of "sortedValues (cfg_virtualServers c)"], of "sortedValues (cfg_transportServers c)"] assms(2) a
    by (simp add: buildHostsAndResources_def Let_def split: if_splits)
qed

lemma wf_setValidHosts: "setValidHosts holders k rules ic = Some ic' \<Longrightarrow> wfResource (IngressRes ic) \<Longrightarrow> wfResource (IngressRes ic')"
  by (induction holders k rules ic rule: setValidHosts.induct) (auto split: option.splits)

lemma wf_updateActiveHosts:
  "updateActiveHostsForIngresses holders resources = Some new \<Longrightarrow> list_all (\<lambda>(k, r). wfResource r) resources \<Longrightarrow>
   list_all (\<lambda>(k, r). wfResource r) new"
proof (induction holders resources arbitrary: new rule: updateActiveHostsForIngresses.induct)
  case (2 holders k r resources)
  then obtain r' rs where "(case r of
              IngressRes ic \<Rightarrow> map_option IngressRes (setValidHosts holders k (ing_Rules (ic_Ingress ic)) ic)
            | _ \<Rightarrow> Some r) = Some r'" "updateActiveHostsForIngresses holders resources = Some rs" "new = (k, r') # rs"
    by (auto split: option.splits)
  with 2 show ?case
    by (cases r) (auto dest: wf_setValidHosts)
qed simp

lemma wfStore_list: "list_all (\<lambda>(k, r). wfResource r) store \<Longrightarrow> wfStore store"
  by (auto simp: wfStore_def intro: list_all_gget)

lemma wfStore_resolve: "wfStore store \<Longrightarrow> wfStore (resolve holders store)"
  by (induction holders store rule: resolve.induct) (auto simp: wfStore_def gget_Cons split: option.splits if_splits)

lemma wf_rebuildHosts:
  assumes "keyedStores c" and "wfMetas c" and r: "rebuildHosts env c = Some (c', changes, problems)"
  shows "wfStore (cfg_hosts c')"
proof -
  obtain holders store0 store1 store c1 where b: "buildHostsAndResources env c = Some (holders, store0)"
    and u: "updateActiveHostsForIngresses holders store0 = Some store1"
    and w: "addWarningsForVirtualServersWithMissConfiguredListeners c1 holders store1 store1 = Some store"
    and h: "cfg_hosts c' = resolve holders store"
    using r by (auto simp: rebuildHosts_def Let_def split: option.splits prod.splits)
  have "gwf store0"
    using buildHosts_builtHosts [OF assms(1) b] by (simp add: builtHosts_def)
  then have "list_all (\<lambda>(k, r). wfResource r) store0"
    using wf_buildHosts [OF assms(2) b] by (auto simp: list_all_iff wfStore_def gget_iff)
  then have "wfStore store1"
    using wf_updateActiveHosts [OF u] wfStore_list by blast
  moreover have "wfStore store" if "wfStore store1" "warned store1 store"
    using that unfolding wfStore_def warned_def
  proof (intro allI impI)
    fix k r
    assume r: "gget store k = Some r" and wf: "\<forall>k r. gget store1 k = Some r \<longrightarrow> wfResource r"
      and ws: "\<forall>k. \<exists>ws. gget store k = map_option (fold AddWarning ws) (gget store1 k)"
    from ws r obtain ws r1 where "gget store1 k = Some r1" "r = fold AddWarning ws r1"
      by (metis map_option_eq_Some)
    moreover have "wfResource (fold AddWarning ws r1) = wfResource r1" for ws r1
      by (induction ws arbitrary: r1) simp_all
    ultimately show "wfResource r"
      using wf by simp
  qed
  ultimately show ?thesis
    unfolding h using addWarnings_warned [OF w] wfStore_resolve by blast
qed

section \<open>A second rebuild changes nothing\<close>

lemma detectChangesInProblems_same [simp]: "detectChangesInProblems ps ps = []"
proof -
  have "compareConfigurationProblems p p" for p
    by (simp add: compareConfigurationProblems_def)
  then have "(\<lambda>k. case gget ps k of None \<Rightarrow> None | Some newP \<Rightarrow>
      (case gget ps k of None \<Rightarrow> Some newP | Some oldP \<Rightarrow> if \<not> compareConfigurationProblems newP oldP then Some newP else None)) =
    (\<lambda>k. None)"
    by (auto split: option.splits)
  moreover have "List.map_filter (\<lambda>k. None) ks = []" for ks :: "string list"
    by (induction ks) (simp_all add: map_filter_simps)
  ultimately show ?thesis
    unfolding detectChangesInProblems_def by simp
qed

lemma squash_Nil [simp]: "squashResourceChanges [] = []"
  by (simp add: squashResourceChanges_def)

lemma createResourceChanges_Nil [simp]: "createResourceChanges res [] [] [] old new = []"
  by (simp add: createResourceChanges_def Let_def map_filter_simps)

lemma rebuildListenerHosts_again:
  assumes "rebuildListenerHosts c = (c', changes, problems)"
  shows "rebuildListenerHosts c' = (c', [], [])"
proof -
  have "detectChangesInListenerHosts m m = ([], [], [])" for m
    by (auto simp: detectChangesInListenerHosts_def isEqualTransportServer_def set_getSortedListenerHostKeys
        filter_empty_conv gkeys_gget split: option.splits)
  with assms show ?thesis
    by (auto simp: rebuildListenerHosts_def Let_def createResourceChangesForListeners_def
        addProblemsForTSConfigsWithoutActiveListener_def split: prod.splits)
qed

lemma fold_AddWarning_ports:
  "fold AddWarning ws (VirtualServerRes vsc) = VirtualServerRes vsc' \<Longrightarrow>
   vsc_HTTPPort vsc' = vsc_HTTPPort vsc \<and> vsc_HTTPSPort vsc' = vsc_HTTPSPort vsc \<and>
   vsc_HTTPIPv4 vsc' = vsc_HTTPIPv4 vsc \<and> vsc_HTTPIPv6 vsc' = vsc_HTTPIPv6 vsc"
  by (induction ws arbitrary: vsc) fastforce+

lemma fold_AddWarning_VS: "(\<exists>vsc'. fold AddWarning ws r = VirtualServerRes vsc') \<longleftrightarrow> (\<exists>vsc. r = VirtualServerRes vsc)"
proof (induction ws arbitrary: r)
  case (Cons w ws)
  then show ?case
    by (cases r) simp_all
qed simp

text \<open>Warnings make no updated host.\<close>

lemma updatedHost_warned:
  assumes "gget old h = map_option (fold AddWarning ws) (gget new h)" and "\<And>r. gget old h = Some r \<Longrightarrow> wfResource r"
  shows "updatedHost old new h = []"
proof (cases "gget new h")
  case (Some r)
  then have old: "gget old h = Some (fold AddWarning ws r)"
    using assms(1) by simp
  have "IsEqual s (fold AddWarning ws' r) = IsEqual s r" for s ws'
    by (induction ws' arbitrary: r) simp_all
  with IsEqual_refl [OF assms(2) [OF old]] have "IsEqual (fold AddWarning ws r) r"
    by simp
  with Some old fold_AddWarning_ports [of ws] show ?thesis
    by (auto simp: updatedHost_def split: Resource.splits)
qed (use assms in \<open>simp add: updatedHost_def\<close>)

lemma rebuildHosts_problems:
  "rebuildHosts env c = Some (c', changes, problems) \<Longrightarrow>
   problems = detectChangesInProblems (cfg_hostProblems c') (cfg_hostProblems c)"
  by (auto simp: rebuildHosts_def Let_def split: option.splits prod.splits)

lemma detectChanges_warned:
  assumes "\<And>h. \<exists>ws. gget old h = map_option (fold AddWarning ws) (gget new h)" and "wfStore old"
  shows "detectChangesInHosts old new = ([], [], [])"
proof -
  have none: "gget old h = None \<longleftrightarrow> gget new h = None" for h
    using assms(1) [of h] by auto
  have "updatedHost old new h = []" for h
  proof -
    obtain ws where "gget old h = map_option (fold AddWarning ws) (gget new h)"
      using assms(1) by blast
    then show ?thesis
      by (rule updatedHost_warned) (use assms(2) in \<open>simp add: wfStore_def\<close>)
  qed
  then show ?thesis
    using none by (simp add: detectChangesInHosts_def filter_empty_conv set_gkeys flip: none)
qed

lemma sameInputs_frame: "sameInputs c (c\<lparr>cfg_hosts := hs, cfg_hostProblems := ps\<rparr>)"
  by (simp add: sameInputs_def)

lemma rebuildHosts_again:
  assumes keyed: "keyedStores c" and ok: "ingressesOk c" and wf: "wfMetas c"
    and r: "rebuildHosts env c = Some (c', changes, problems)"
  shows "rebuildHosts env c' = Some (c', [], [])"
proof -
  note frame = rebuildHosts_frame [OF r]
  obtain hs ps where c': "c' = c\<lparr>cfg_hosts := hs, cfg_hostProblems := ps\<rparr>"
    using frame by metis
  obtain changes' problems' where again: "rebuildHosts env c' = Some (c', changes', problems')"
    using rebuildHosts_inputs [OF sameInputs_frame [where hs = hs and ps = ps] r] by (auto simp: c')
  have inv: "keyedStores c'" "ingressesOk c'"
    using keyed ok by (simp_all add: c' keyedStores_def ingressesOk_def)
  obtain holders store1 store pr chs qs where s: "activeHosts (holders, store1)" "activeHosts (holders, store)" "warned store1 store"
    and chs: "chs = squashResourceChanges (hostChanges.changesOf (cfg_hosts c') (resolve holders store1))"
    and eq: "rebuildHosts env c' = Some (c'\<lparr>cfg_hosts := resolve holders store, cfg_hostProblems := pr\<rparr>, map (relink store) chs, qs)"
    by (rule rebuildHosts_parts [OF inv, of env]) blast
  have "c' = c'\<lparr>cfg_hosts := resolve holders store, cfg_hostProblems := pr\<rparr>"
    using again unfolding eq by simp
  from arg_cong [OF this, of cfg_hosts] have h: "cfg_hosts c' = resolve holders store"
    by simp
  have "detectChangesInHosts (resolve holders store) (resolve holders store1) = ([], [], [])"
    using warned_hosts [OF _ _ s(3)] s(1,2) wf_rebuildHosts [OF keyed wf r]
    by (intro detectChanges_warned) (auto simp: activeHosts_def h)
  then have "chs = []"
    by (simp add: chs h hostChanges.changesOf_def)
  with again eq rebuildHosts_problems [OF again] show ?thesis
    by simp
qed

section \<open>The invariant of the stores\<close>

text \<open>Only valid resources with the class are stored; proxy values of upstreams are balanced.\<close>

definition onlyAccepted :: "configEnv \<Rightarrow> Configuration \<Rightarrow> bool" where
  "onlyAccepted env c =
     ((\<forall>k ing. gget (cfg_ingresses c) k = Some ing \<longrightarrow>
         ce_class env (ObjIngress ing) \<and> validateIngress (ce_ingress env) (cfg_allowEmptyIngressHost c) ing = []) \<and>
      (\<forall>k vs. gget (cfg_virtualServers c) k = Some vs \<longrightarrow>
         (\<exists>given. vs = balancedVS c given \<and> ce_class env (ObjVirtualServer given) \<and> ValidateVirtualServer env given = [])) \<and>
      (\<forall>k vsr. gget (cfg_virtualServerRoutes c) k = Some vsr \<longrightarrow>
         (\<exists>given. vsr = balancedVSR c given \<and> ce_class env (ObjVirtualServerRoute given) \<and>
            ValidateVirtualServerRoute (env_checks (ce_vsr env)) given = [])) \<and>
      (\<forall>k ts. gget (cfg_transportServers c) k = Some ts \<longrightarrow>
         ce_class env (ObjTransportServer ts) \<and> ce_transportServer env ts = []))"

text \<open>The listeners are the valid ones of the GlobalConfiguration, and the map of listeners is theirs.\<close>

definition listenersOk :: "configEnv \<Rightarrow> Configuration \<Rightarrow> bool" where
  "listenersOk env c =
     (cfg_listenerMap c = setGlobalConfigListenerMap (cfg_globalConfiguration c) \<and>
      (\<forall>gc. cfg_globalConfiguration c = Some gc \<longrightarrow>
         list_all (validSomewhere (ce_listener env) [Child ''spec'', Child ''listeners'']) (gc_Listeners gc) \<and>
         sorted_wrt compatible (gc_Listeners gc)))"

definition plainStored :: "Configuration \<Rightarrow> bool" where
  "plainStored c = (\<forall>k ts. gget (cfg_transportServers c) k = Some ts \<longrightarrow> plainName (ts_ObjectMeta ts))"

definition storesInv :: "configEnv \<Rightarrow> Configuration \<Rightarrow> bool" where
  "storesInv env c =
     (keyedStores c \<and> ingressesOk c \<and> wfMetas c \<and> plainStored c \<and> onlyAccepted env c \<and> listenersOk env c)"

lemma storesInvD:
  assumes "storesInv env c"
  shows "keyedStores c" "ingressesOk c" "wfMetas c" "plainStored c" "onlyAccepted env c" "listenersOk env c"
  using assms by (simp_all add: storesInv_def)

text \<open>
  What the API server guarantees of objects: the annotations list a key once, and names and
  namespaces have no slash.
\<close>

fun wfEvent :: "event \<Rightarrow> bool" where
  "wfEvent (UpdateIngress ing) = wfMeta (ing_ObjectMeta ing)"
| "wfEvent (UpdateTransportServer ts) = plainName (ts_ObjectMeta ts)"
| "wfEvent _ = True"

text \<open>The fields that the operations write besides the stores do not matter.\<close>

lemma storesInv_frame [simp]:
  "storesInv env (c\<lparr>cfg_hosts := hs\<rparr>) = storesInv env c"
  "storesInv env (c\<lparr>cfg_hostProblems := ps\<rparr>) = storesInv env c"
  "storesInv env (c\<lparr>cfg_listenerHosts := ls\<rparr>) = storesInv env c"
  "storesInv env (c\<lparr>cfg_listenerProblems := ps\<rparr>) = storesInv env c"
  "storesInv env (c\<lparr>cfg_startupComplete := b\<rparr>) = storesInv env c"
  by (simp_all add: storesInv_def keyedStores_def ingressesOk_def wfMetas_def plainStored_def onlyAccepted_def
      listenersOk_def balancedVS_def balancedVSR_def balanceUpstreamProxies_def)

lemma aggregate_None [simp]: "aggregate env errs = None \<longleftrightarrow> errs = []"
  by (simp add: aggregate_def)

lemmas storesInv_defs = storesInv_def keyedStores_def ingressesOk_def wfMetas_def plainStored_def onlyAccepted_def
  listenersOk_def balancedVS_def balancedVSR_def balanceUpstreamProxies_def

lemma storesInv_ingress_removed:
  assumes "storesInv env c"
  shows "storesInv env (c\<lparr>cfg_ingresses := gdel (cfg_ingresses c) key, cfg_minionsByHost := updateMinionIndex key None (cfg_minionsByHost c)\<rparr>)"
    and "storesInv env (c\<lparr>cfg_ingresses := gdel (cfg_ingresses c) key, cfg_minionsByHost := removeMinionFromIndex key (cfg_minionsByHost c)\<rparr>)"
  using assms unfolding storesInv_defs by (simp_all add: keyedBy_gdel updateMinionIndex_None removeMinion_indexInv)

lemma storesInv_ingress_stored:
  assumes "storesInv env c" and "wfMeta (ing_ObjectMeta ing)" and "ce_class env (ObjIngress ing)"
    and "validateIngress (ce_ingress env) (cfg_allowEmptyIngressHost c) ing = []" and "getResourceKey (ing_ObjectMeta ing) = key"
  shows "storesInv env (c\<lparr>cfg_ingresses := gput (cfg_ingresses c) key ing,
    cfg_minionsByHost := updateMinionIndex key (Some ing) (cfg_minionsByHost c)\<rparr>)"
  using assms validateIngress_okIngress [OF assms(4)] unfolding storesInv_defs
  by (simp add: keyedBy_gput updateMinionIndex_Some)

lemma storesInv_deleted:
  assumes "storesInv env c"
  shows "storesInv env (c\<lparr>cfg_virtualServers := gdel (cfg_virtualServers c) key\<rparr>)"
    and "storesInv env (c\<lparr>cfg_virtualServerRoutes := gdel (cfg_virtualServerRoutes c) key\<rparr>)"
    and "storesInv env (c\<lparr>cfg_transportServers := gdel (cfg_transportServers c) key\<rparr>)"
  using assms unfolding storesInv_defs by (simp_all add: keyedBy_gdel)

lemma storesInv_stored:
  assumes "storesInv env c"
  shows "ce_class env (ObjVirtualServer vs) \<Longrightarrow> ValidateVirtualServer env vs = [] \<Longrightarrow>
      storesInv env (c\<lparr>cfg_virtualServers := gput (cfg_virtualServers c) (getResourceKey (vs_ObjectMeta vs)) (balancedVS c vs)\<rparr>)"
    and "ce_class env (ObjVirtualServerRoute vsr) \<Longrightarrow> ValidateVirtualServerRoute (env_checks (ce_vsr env)) vsr = [] \<Longrightarrow>
      storesInv env (c\<lparr>cfg_virtualServerRoutes := gput (cfg_virtualServerRoutes c) (getResourceKey (vsr_ObjectMeta vsr)) (balancedVSR c vsr)\<rparr>)"
    and "ce_class env (ObjTransportServer ts) \<Longrightarrow> ce_transportServer env ts = [] \<Longrightarrow> plainName (ts_ObjectMeta ts) \<Longrightarrow>
      storesInv env (c\<lparr>cfg_transportServers := gput (cfg_transportServers c) (getResourceKey (ts_ObjectMeta ts)) ts\<rparr>)"
  using assms unfolding storesInv_defs by (auto simp: keyedBy_gput)

section \<open>Both rebuilds\<close>

definition heldOk :: "Configuration \<Rightarrow> bool" where
  "heldOk c =
     (hostsConsistent (cfg_hosts c) \<and> oneListener (cfg_listenerHosts c) \<and>
      (\<forall>h tsc. gget (cfg_listenerHosts c) h = Some tsc \<longrightarrow> plainName (tscMeta tsc)))"

definition listenersSettled :: "Configuration \<Rightarrow> bool" where
  "listenersSettled c = (rebuildListenerHosts c = (c, [], []))"

definition hostsSettled :: "configEnv \<Rightarrow> Configuration \<Rightarrow> bool" where
  "hostsSettled env c = (rebuildHosts (ce_vsr env) c = Some (c, [], []))"

lemma hosts_step:
  assumes "storesInv env c" and "heldOk c"
  obtains hs ps changes problems where
    "rebuildHosts (ce_vsr env) c = Some (c\<lparr>cfg_hosts := hs, cfg_hostProblems := ps\<rparr>, changes, problems)"
    "heldOk (c\<lparr>cfg_hosts := hs, cfg_hostProblems := ps\<rparr>)" "hostsSettled env (c\<lparr>cfg_hosts := hs, cfg_hostProblems := ps\<rparr>)"
    "distinct (map changeKey changes)" "applyChanges changes (deployed id (cfg_hosts c)) = deployed id hs"
proof -
  note inv = storesInvD [OF assms(1)]
  have h: "hostsConsistent (cfg_hosts c)"
    using assms(2) by (simp add: heldOk_def)
  obtain holders store0 store ps changes problems where
    r: "rebuildHosts (ce_vsr env) c = Some (c\<lparr>cfg_hosts := resolve holders store, cfg_hostProblems := ps\<rparr>, changes, problems)"
    and act: "activeHosts (holders, store)" and d: "distinct (map changeKey changes)"
    and a: "applyChanges changes (deployed id (cfg_hosts c)) = deployed id (resolve holders store)"
    by (rule rebuildHosts_spec [OF inv(1,2) h, of "ce_vsr env"]) blast
  show thesis
    by (rule that [OF r _ _ d a])
      (use activeHosts_consistent [OF act] assms(2) rebuildHosts_again [OF inv(1-3) r] in \<open>simp_all add: heldOk_def hostsSettled_def\<close>)
qed

lemma listeners_step:
  assumes "storesInv env c" and "heldOk c"
  obtains ls ps changes problems where
    "rebuildListenerHosts c = (c\<lparr>cfg_listenerHosts := ls, cfg_listenerProblems := ps\<rparr>, changes, problems)"
    "heldOk (c\<lparr>cfg_listenerHosts := ls, cfg_listenerProblems := ps\<rparr>)"
    "listenersSettled (c\<lparr>cfg_listenerHosts := ls, cfg_listenerProblems := ps\<rparr>)"
    "distinct (map changeKey changes)" "applyChanges changes (deployed TransportServerRes (cfg_listenerHosts c)) = deployed TransportServerRes ls"
proof -
  note inv = storesInvD [OF assms(1)]
  have k: "keyedBy ts_ObjectMeta (cfg_transportServers c)" "plainTSs c" "oneListener (cfg_listenerHosts c)"
    using assms(2) inv(1,4) by (simp_all add: heldOk_def plainTSs_def plainStored_def keyedStores_def)
  obtain ls configs ps changes problems where
    r: "rebuildListenerHosts c = (c\<lparr>cfg_listenerHosts := ls, cfg_listenerProblems := ps\<rparr>, changes, problems)"
    and one: "oneListener ls" and p: "plainTSs (c\<lparr>cfg_listenerHosts := ls, cfg_listenerProblems := ps\<rparr>)"
    and d: "distinct (map changeKey changes)"
    and a: "applyChanges changes (deployed TransportServerRes (cfg_listenerHosts c)) = deployed TransportServerRes ls"
    by (rule rebuildListenerHosts_spec [OF k]) blast
  show thesis
    by (rule that [OF r _ _ d a])
      (use one p assms(2) rebuildListenerHosts_again [OF r] in \<open>simp_all add: heldOk_def plainTSs_def listenersSettled_def\<close>)
qed

text \<open>What is settled stays settled when fields change that the rebuild does not read.\<close>

lemma listenersSettled_same:
  assumes "listenersSettled c" and "cfg_globalConfiguration d = cfg_globalConfiguration c"
    and "cfg_transportServers d = cfg_transportServers c" and "cfg_listenerHosts d = cfg_listenerHosts c"
    and "cfg_listenerProblems d = cfg_listenerProblems c"
  shows "listenersSettled d"
proof -
  obtain hosts configs where b: "buildListenerHostsAndTSConfigurations (cfg_globalConfiguration c) (cfg_transportServers c) = (hosts, configs)"
    by (cases "buildListenerHostsAndTSConfigurations (cfg_globalConfiguration c) (cfg_transportServers c)")
  let ?c = "c\<lparr>cfg_listenerHosts := hosts\<rparr>"
  obtain rem upd add where det: "detectChangesInListenerHosts (cfg_listenerHosts c) hosts = (rem, upd, add)"
    by (metis prod_cases3)
  let ?ps = "addProblemsForTSConfigsWithoutActiveListener ?c configs []"
  have "c = ?c\<lparr>cfg_listenerProblems := ?ps\<rparr>" and rest: "squashResourceChanges (createResourceChangesForListeners rem upd add (cfg_listenerHosts c) hosts) = []"
    "detectChangesInProblems ?ps (cfg_listenerProblems c) = []"
    using assms(1) b det by (auto simp: listenersSettled_def rebuildListenerHosts_def Let_def)
  from arg_cong [OF this(1), of cfg_listenerHosts] arg_cong [OF this(1), of cfg_listenerProblems]
  have h: "hosts = cfg_listenerHosts c" and p: "?ps = cfg_listenerProblems c"
    by simp_all
  then have "addProblemsForTSConfigsWithoutActiveListener (d\<lparr>cfg_listenerHosts := hosts\<rparr>) configs [] = cfg_listenerProblems c"
    by (simp add: addProblemsForTSConfigsWithoutActiveListener_def)
  with h show ?thesis
    using rest det by (simp add: listenersSettled_def rebuildListenerHosts_def b assms(2-5) p)
qed

lemma hostsSettled_same:
  assumes "hostsSettled env c" and "storesInv env d" and "sameInputs c d" and "cfg_hosts d = cfg_hosts c" and "cfg_hostProblems d = cfg_hostProblems c"
  shows "hostsSettled env d"
proof -
  have "d\<lparr>cfg_hosts := cfg_hosts c, cfg_hostProblems := cfg_hostProblems c\<rparr> = d"
    using assms(4,5) by simp
  then obtain changes problems where "rebuildHosts (ce_vsr env) d = Some (d, changes, problems)"
    using rebuildHosts_inputs [OF assms(3)] assms(1) unfolding hostsSettled_def by metis
  from rebuildHosts_again [OF storesInvD(1-3) [OF assms(2)] this] show ?thesis
    by (simp add: hostsSettled_def)
qed

end
