(* ===== verification/Config_Runs.thy ===== *)
theory Config_Runs
  imports Settled
begin

text \<open>
  Runs of the \<^verbatim>\<open>Configuration\<close>: sequences of its operations, started with \<^verbatim>\<open>NewConfiguration\<close>. No
  operation panics, the stores hold accepted resources only, and the states of a run are settled:
  hosts, listeners and problems are the ones a rebuild computes from the stored resources. Skipping
  the rebuilds before startup is complete makes no difference to the state.
\<close>

section \<open>The invariant of runs\<close>

definition configInv :: "configEnv \<Rightarrow> Configuration \<Rightarrow> bool" where
  "configInv env c =
     (storesInv env c \<and> heldOk c \<and> listenersSettled c \<and>
      (if cfg_startupComplete c then hostsSettled env c else cfg_hosts c = [] \<and> cfg_hostProblems c = []))"

lemma configInvD:
  assumes "configInv env c"
  shows "storesInv env c" "heldOk c" "listenersSettled c" "cfg_startupComplete c \<Longrightarrow> hostsSettled env c"
    "\<not> cfg_startupComplete c \<Longrightarrow> cfg_hosts c = []" "\<not> cfg_startupComplete c \<Longrightarrow> cfg_hostProblems c = []"
  using assms by (simp_all add: configInv_def)

text \<open>A state in which only stores have changed.\<close>

definition sameHeld :: "Configuration \<Rightarrow> Configuration \<Rightarrow> bool" where
  "sameHeld c d =
     (cfg_hosts d = cfg_hosts c \<and> cfg_hostProblems d = cfg_hostProblems c \<and> cfg_listenerHosts d = cfg_listenerHosts c \<and>
      cfg_listenerProblems d = cfg_listenerProblems c \<and> cfg_startupComplete d = cfg_startupComplete c \<and>
      cfg_isTLSPassthroughEnabled d = cfg_isTLSPassthroughEnabled c)"

definition sameListenerInputs :: "Configuration \<Rightarrow> Configuration \<Rightarrow> bool" where
  "sameListenerInputs c d =
     (cfg_globalConfiguration d = cfg_globalConfiguration c \<and> cfg_transportServers d = cfg_transportServers c)"

lemma sameHeld_heldOk: "sameHeld c d \<Longrightarrow> heldOk c \<Longrightarrow> heldOk d"
  by (simp add: sameHeld_def heldOk_def)

lemma startup_stored:
  assumes "configInv env c" and "storesInv env d" and "sameHeld c d" and "sameListenerInputs c d" and "\<not> cfg_startupComplete c"
  shows "configInv env d"
  using assms listenersSettled_same [OF configInvD(3) [OF assms(1)], of d] sameHeld_heldOk [OF assms(3)]
  by (simp add: configInv_def sameHeld_def sameListenerInputs_def)

lemma hosts_rebuilt:
  assumes c: "storesInv env d" "heldOk d" "listenersSettled d" and "cfg_startupComplete d"
  obtains d' changes problems where "rebuildHosts (ce_vsr env) d = Some (d', changes, problems)" "configInv env d'"
proof -
  obtain hs ps changes problems where r: "rebuildHosts (ce_vsr env) d = Some (d\<lparr>cfg_hosts := hs, cfg_hostProblems := ps\<rparr>, changes, problems)"
    and h: "heldOk (d\<lparr>cfg_hosts := hs, cfg_hostProblems := ps\<rparr>)" "hostsSettled env (d\<lparr>cfg_hosts := hs, cfg_hostProblems := ps\<rparr>)"
    by (rule hosts_step [OF c(1,2)])
  show thesis
    by (rule that [OF r]) (use assms h listenersSettled_same [OF c(3), of "d\<lparr>cfg_hosts := hs, cfg_hostProblems := ps\<rparr>"] in
        \<open>simp add: configInv_def\<close>)
qed

lemma stored_rebuilt:
  assumes "configInv env c" and "storesInv env d" and "sameHeld c d" and "sameListenerInputs c d" and "cfg_startupComplete c"
  obtains d' changes problems where "rebuildHosts (ce_vsr env) d = Some (d', changes, problems)" "configInv env d'"
proof (rule hosts_rebuilt [OF assms(2) sameHeld_heldOk [OF assms(3) configInvD(2) [OF assms(1)]]])
  show "listenersSettled d"
    using listenersSettled_same [OF configInvD(3) [OF assms(1)]] assms(3,4) by (simp add: sameHeld_def sameListenerInputs_def)
  show "cfg_startupComplete d"
    using assms(3,5) by (simp add: sameHeld_def)
qed

lemma both_rebuilt:
  assumes c: "configInv env c" and d: "storesInv env d" and same: "sameHeld c d"
    and b: "b \<longrightarrow> cfg_startupComplete c" "\<not> b \<longrightarrow> cfg_startupComplete c \<longrightarrow> sameInputs c d"
  obtains d' changes problems where "rebuildBoth env b d = Some (d', changes, problems)" "configInv env d'"
proof -
  obtain ls ps changes problems where r: "rebuildListenerHosts d = (d\<lparr>cfg_listenerHosts := ls, cfg_listenerProblems := ps\<rparr>, changes, problems)"
    and l: "heldOk (d\<lparr>cfg_listenerHosts := ls, cfg_listenerProblems := ps\<rparr>)" "listenersSettled (d\<lparr>cfg_listenerHosts := ls, cfg_listenerProblems := ps\<rparr>)"
    by (rule listeners_step [OF d sameHeld_heldOk [OF same configInvD(2) [OF c]]])
  let ?d = "d\<lparr>cfg_listenerHosts := ls, cfg_listenerProblems := ps\<rparr>"
  have s: "storesInv env ?d" "cfg_startupComplete ?d = cfg_startupComplete c"
    using d same by (simp_all add: sameHeld_def)
  show thesis
  proof (cases b)
    case True
    then have "cfg_startupComplete ?d"
      using b(1) s(2) by simp
    then obtain d' changes' problems' where "rebuildHosts (ce_vsr env) ?d = Some (d', changes', problems')" "configInv env d'"
      by (rule hosts_rebuilt [OF s(1) l])
    with True r show ?thesis
      by (intro that [of d']) (simp_all add: rebuildBoth_def)
  next
    case False
    have "hostsSettled env ?d" if "cfg_startupComplete c"
    proof (rule hostsSettled_same [OF configInvD(4) [OF c that] s(1)])
      show "sameInputs c ?d"
        using b(2) False that by (simp add: sameInputs_def)
    qed (use same in \<open>simp_all add: sameHeld_def\<close>)
    then have "configInv env ?d"
      using s l configInvD(5,6) [OF c] same by (simp add: configInv_def sameHeld_def)
    with False r show ?thesis
      by (intro that [of ?d]) (simp_all add: rebuildBoth_def)
  qed
qed

lemma storeIngress_inv:
  assumes "storesInv env c" and "wfMeta (ing_ObjectMeta ing)" and "storeIngress env ing c = (d, verr)"
  shows "storesInv env d \<and> sameHeld c d \<and> sameListenerInputs c d"
proof -
  have "storesInv env d"
    using assms storesInv_ingress_removed(1) [OF assms(1)] storesInv_ingress_stored [OF assms(1,2) _ _ refl]
    by (auto simp: storeIngress_def Let_def split: if_splits option.splits)
  with assms(3) show ?thesis
    by (auto simp: storeIngress_def Let_def sameHeld_def sameListenerInputs_def split: if_splits option.splits)
qed

lemma storeVirtualServer_inv:
  assumes "storesInv env c" and "storeVirtualServer env vs c = (d, verr)"
  shows "storesInv env d \<and> sameHeld c d \<and> sameListenerInputs c d"
proof -
  have "storesInv env d"
    using assms(2) storesInv_deleted(1) [OF assms(1)] storesInv_stored(1) [OF assms(1)]
    by (auto simp: storeVirtualServer_def Let_def split: if_splits option.splits)
  with assms(2) show ?thesis
    by (auto simp: storeVirtualServer_def Let_def sameHeld_def sameListenerInputs_def split: if_splits option.splits)
qed

lemma storeVirtualServerRoute_inv:
  assumes "storesInv env c" and "storeVirtualServerRoute env vsr c = (d, verr)"
  shows "storesInv env d \<and> sameHeld c d \<and> sameListenerInputs c d"
proof -
  have "storesInv env d"
    using assms(2) storesInv_deleted(2) [OF assms(1)] storesInv_stored(2) [OF assms(1)]
    by (auto simp: storeVirtualServerRoute_def Let_def split: if_splits option.splits)
  with assms(2) show ?thesis
    by (auto simp: storeVirtualServerRoute_def Let_def sameHeld_def sameListenerInputs_def split: if_splits option.splits)
qed

lemma storeTransportServer_inv:
  assumes "storesInv env c" and "plainName (ts_ObjectMeta ts)" and "storeTransportServer env ts c = (d, verr)"
  shows "storesInv env d \<and> sameHeld c d \<and> (\<not> cfg_isTLSPassthroughEnabled c \<longrightarrow> sameInputs c d)"
proof -
  have "storesInv env d"
    using assms(2,3) storesInv_deleted(3) [OF assms(1)] storesInv_stored(3) [OF assms(1)]
    by (auto simp: storeTransportServer_def Let_def split: if_splits option.splits)
  with assms(3) show ?thesis
    by (auto simp: storeTransportServer_def Let_def sameHeld_def sameInputs_def split: if_splits option.splits)
qed

lemma getValidListeners_valid:
  "list_all (validSomewhere chk fieldPath) (fst (getValidListeners chk ls fieldPath)) \<and>
   sorted_wrt compatible (fst (getValidListeners chk ls fieldPath))"
proof -
  let ?st0 = "\<lparr>lsn_names = [], lsn_ipv4 = [], lsn_ipv6 = [], lsn_valid = [], lsn_errs = []\<rparr>"
  have "listenerInv ?st0"
    by (simp add: listenerInv_def)
  from fold_checkListener [OF this, of chk fieldPath "enumerate 0 ls"] show ?thesis
    by (auto simp: getValidListeners_def Let_def listenerInv_def)
qed

lemma storesInv_globalConfiguration:
  assumes "storesInv env c"
  shows "storesInv env (c\<lparr>cfg_globalConfiguration := None, cfg_listenerMap := setGlobalConfigListenerMap None\<rparr>)"
    and "ValidateGlobalConfiguration (ce_listener env) gc = (gc', errs) \<Longrightarrow>
      storesInv env (c\<lparr>cfg_globalConfiguration := Some gc', cfg_listenerMap := setGlobalConfigListenerMap (Some gc')\<rparr>)"
  using assms getValidListeners_valid [of "ce_listener env" "[Child ''spec'', Child ''listeners'']"] unfolding storesInv_defs
  by (auto simp: ValidateGlobalConfiguration_def validateGlobalConfigurationSpec_def split: prod.splits) (metis fst_conv)+

text \<open>The outcome of an operation, in any case.\<close>

definition returnsInv :: "configEnv \<Rightarrow> outcome option \<Rightarrow> bool" where
  "returnsInv env out = (\<exists>c' changes problems. out = Some (c', changes, problems) \<and> configInv env c')"

lemma returnsInv_Some [simp]: "returnsInv env (Some (c, changes, problems)) = configInv env c"
  by (simp add: returnsInv_def)

lemma reportError_state: "reportError key p verr (c, changes, problems) = (c', changes', problems') \<Longrightarrow> c' = c"
  by (auto simp: reportError_def split: option.splits)

lemma returnsInv_reportError: "returnsInv env out \<Longrightarrow> returnsInv env (map_option (reportError key p verr) out)"
proof -
  assume "returnsInv env out"
  then obtain c changes problems where out: "out = Some (c, changes, problems)" "configInv env c"
    unfolding returnsInv_def by blast
  obtain c' changes' problems' where r: "reportError key p verr (c, changes, problems) = (c', changes', problems')"
    by (metis prod_cases3)
  with reportError_state [OF r] out show ?thesis
    by simp
qed

lemma returnsInv_stored:
  assumes "configInv env c" and d: "storesInv env d \<and> sameHeld c d \<and> sameListenerInputs c d"
  shows "\<not> cfg_startupComplete d \<Longrightarrow> configInv env d" and "cfg_startupComplete d \<Longrightarrow> returnsInv env (rebuildHosts (ce_vsr env) d)"
proof -
  have "cfg_startupComplete d = cfg_startupComplete c"
    using d by (simp add: sameHeld_def)
  then show "\<not> cfg_startupComplete d \<Longrightarrow> configInv env d" "cfg_startupComplete d \<Longrightarrow> returnsInv env (rebuildHosts (ce_vsr env) d)"
    using d startup_stored [OF assms(1), of d] stored_rebuilt [OF assms(1), of d] unfolding returnsInv_def by metis+
qed

lemma returnsInv_both:
  assumes "configInv env c" and "storesInv env d" and "sameHeld c d"
    and "b \<longrightarrow> cfg_startupComplete c" "\<not> b \<longrightarrow> cfg_startupComplete c \<longrightarrow> sameInputs c d"
  shows "returnsInv env (rebuildBoth env b d)"
  using both_rebuilt [OF assms] unfolding returnsInv_def by metis

lemma returnsInv_startup: "configInv env c \<Longrightarrow> returnsInv env (Some (startupOutcome p verr c))"
  by (simp add: startupOutcome_def)

lemma returnsInv_hosts:
  assumes "configInv env c" and "storesInv env d \<and> sameHeld c d \<and> sameListenerInputs c d"
  shows "returnsInv env (if \<not> cfg_startupComplete d then Some (startupOutcome p verr d)
    else map_option (reportError key p verr) (rebuildHosts (ce_vsr env) d))"
  using returnsInv_stored [OF assms] by (simp add: returnsInv_reportError returnsInv_startup)

lemma AddOrUpdate_inv:
  assumes c: "configInv env c"
  shows "wfMeta (ing_ObjectMeta ing) \<Longrightarrow> returnsInv env (AddOrUpdateIngress env ing c)"
    and "returnsInv env (AddOrUpdateVirtualServer env vs c)"
    and "returnsInv env (AddOrUpdateVirtualServerRoute env vsr c)"
    and "plainName (ts_ObjectMeta ts) \<Longrightarrow> returnsInv env (AddOrUpdateTransportServer env ts c)"
proof -
  note inv = configInvD(1) [OF c]
  {
    assume w: "wfMeta (ing_ObjectMeta ing)"
    obtain d verr where st: "storeIngress env ing c = (d, verr)"
      by (cases "storeIngress env ing c")
    show "returnsInv env (AddOrUpdateIngress env ing c)"
      unfolding AddOrUpdateIngress_def st Let_def case_prod_conv
      by (rule returnsInv_hosts [OF c storeIngress_inv [OF inv w st]])
  next
    obtain d verr where st: "storeVirtualServer env vs c = (d, verr)"
      by (cases "storeVirtualServer env vs c")
    show "returnsInv env (AddOrUpdateVirtualServer env vs c)"
      unfolding AddOrUpdateVirtualServer_def st Let_def case_prod_conv
      by (rule returnsInv_hosts [OF c storeVirtualServer_inv [OF inv st]])
  next
    obtain d verr where st: "storeVirtualServerRoute env vsr c = (d, verr)"
      by (cases "storeVirtualServerRoute env vsr c")
    from returnsInv_stored [OF c storeVirtualServerRoute_inv [OF inv st]] st
    show "returnsInv env (AddOrUpdateVirtualServerRoute env vsr c)"
      by (auto simp: AddOrUpdateVirtualServerRoute_def Let_def startupOutcome_def returnsInv_def)
  next
    assume w: "plainName (ts_ObjectMeta ts)"
    obtain d verr where st: "storeTransportServer env ts c = (d, verr)"
      by (cases "storeTransportServer env ts c")
    let ?b = "cfg_isTLSPassthroughEnabled c \<and> cfg_startupComplete c"
    note s = storeTransportServer_inv [OF inv w st]
    have "returnsInv env (rebuildBoth env ?b d)"
      by (rule returnsInv_both [OF c]) (use s in auto)
    then show "returnsInv env (AddOrUpdateTransportServer env ts c)"
      using st by (simp add: AddOrUpdateTransportServer_def returnsInv_reportError)
  }
qed

lemma Delete_inv:
  assumes c: "configInv env c"
  shows "returnsInv env (DeleteIngress env key c)" "returnsInv env (DeleteVirtualServer env key c)"
    "returnsInv env (DeleteVirtualServerRoute env key c)" "returnsInv env (DeleteTransportServer env key c)"
proof -
  note inv = configInvD(1) [OF c]
  let ?i = "c\<lparr>cfg_ingresses := gdel (cfg_ingresses c) key, cfg_minionsByHost := removeMinionFromIndex key (cfg_minionsByHost c)\<rparr>"
  let ?v = "c\<lparr>cfg_virtualServers := gdel (cfg_virtualServers c) key\<rparr>"
  let ?r = "c\<lparr>cfg_virtualServerRoutes := gdel (cfg_virtualServerRoutes c) key\<rparr>"
  let ?t = "c\<lparr>cfg_transportServers := gdel (cfg_transportServers c) key\<rparr>"
  have "storesInv env ?i \<and> sameHeld c ?i \<and> sameListenerInputs c ?i"
    using storesInv_ingress_removed(2) [OF inv] by (simp add: sameHeld_def sameListenerInputs_def)
  from returnsInv_stored [OF c this] c show "returnsInv env (DeleteIngress env key c)"
    by (simp add: DeleteIngress_def Let_def)
  have "storesInv env ?v \<and> sameHeld c ?v \<and> sameListenerInputs c ?v"
    using storesInv_deleted(1) [OF inv] by (simp add: sameHeld_def sameListenerInputs_def)
  from returnsInv_stored [OF c this] c show "returnsInv env (DeleteVirtualServer env key c)"
    by (simp add: DeleteVirtualServer_def Let_def)
  have "storesInv env ?r \<and> sameHeld c ?r \<and> sameListenerInputs c ?r"
    using storesInv_deleted(2) [OF inv] by (simp add: sameHeld_def sameListenerInputs_def)
  from returnsInv_stored [OF c this] c show "returnsInv env (DeleteVirtualServerRoute env key c)"
    by (simp add: DeleteVirtualServerRoute_def Let_def)
  have "returnsInv env (rebuildBoth env (cfg_isTLSPassthroughEnabled c \<and> cfg_startupComplete c) ?t)"
    by (rule returnsInv_both [OF c storesInv_deleted(3) [OF inv]]) (auto simp: sameHeld_def sameInputs_def)
  with c show "returnsInv env (DeleteTransportServer env key c)"
    by (simp add: DeleteTransportServer_def)
qed

lemma GlobalConfiguration_inv:
  assumes c: "configInv env c"
  shows "returnsInv env (map_option fst (AddOrUpdateGlobalConfiguration env gc c))" "returnsInv env (DeleteGlobalConfiguration env c)"
proof -
  note inv = configInvD(1) [OF c]
  obtain gc' errs where v: "ValidateGlobalConfiguration (ce_listener env) gc = (gc', errs)"
    by (cases "ValidateGlobalConfiguration (ce_listener env) gc")
  let ?g = "c\<lparr>cfg_globalConfiguration := Some gc', cfg_listenerMap := setGlobalConfigListenerMap (Some gc')\<rparr>"
  have "returnsInv env (rebuildBoth env (cfg_startupComplete c) ?g)"
    by (rule returnsInv_both [OF c storesInv_globalConfiguration(2) [OF inv v]]) (auto simp: sameHeld_def)
  with v show "returnsInv env (map_option fst (AddOrUpdateGlobalConfiguration env gc c))"
    by (auto simp: AddOrUpdateGlobalConfiguration_def returnsInv_def)
  show "returnsInv env (DeleteGlobalConfiguration env c)"
    unfolding DeleteGlobalConfiguration_def Let_def
    by (rule returnsInv_both [OF c storesInv_globalConfiguration(1) [OF inv]]) (auto simp: sameHeld_def)
qed

lemma CompleteStartup_inv:
  assumes c: "configInv env c"
  shows "returnsInv env (CompleteStartup env c)"
  unfolding CompleteStartup_def
proof (rule hosts_rebuilt [of env "c\<lparr>cfg_startupComplete := True\<rparr>"])
  show "listenersSettled (c\<lparr>cfg_startupComplete := True\<rparr>)"
    using listenersSettled_same [OF configInvD(3) [OF c]] by simp
  show "heldOk (c\<lparr>cfg_startupComplete := True\<rparr>)"
    using configInvD(2) [OF c] by (simp add: heldOk_def)
qed (use configInvD(1) [OF c] in \<open>auto simp: returnsInv_def\<close>)

lemma step_inv: "configInv env c \<Longrightarrow> wfEvent e \<Longrightarrow> returnsInv env (step env e c)"
  using AddOrUpdate_inv [of env c] Delete_inv [of env c] GlobalConfiguration_inv [of env c] CompleteStartup_inv [of env c]
  by (cases e) simp_all

section \<open>Reachable states\<close>

inductive reachable :: "configEnv \<Rightarrow> Configuration \<Rightarrow> bool" for env where
  start: "reachable env (NewConfiguration isPlus tlsPassthrough certManager autoadjust emptyHost)"
| operation: "reachable env c \<Longrightarrow> wfEvent e \<Longrightarrow> step env e c = Some (c', changes, problems) \<Longrightarrow> reachable env c'"

lemma configInv_new: "configInv env (NewConfiguration isPlus tlsPassthrough certManager autoadjust emptyHost)"
  by (simp add: configInv_def storesInv_defs NewConfiguration_def heldOk_def listenersSettled_def rebuildListenerHosts_def
      buildListenerHostsAndTSConfigurations_def detectChangesInListenerHosts_def getSortedListenerHostKeys_def
      createResourceChangesForListeners_def addProblemsForTSConfigsWithoutActiveListener_def setGlobalConfigListenerMap_def oneListener_def)

lemma reachable_inv: "reachable env c \<Longrightarrow> configInv env c"
proof (induction rule: reachable.induct)
  case (operation c e c' changes problems)
  with step_inv [of env c e] show ?case
    by simp
qed (rule configInv_new)

text \<open>
  C5. In every state of a run the stores hold only valid resources of the class, with balanced proxy
  values, under the keys of their metadata; the index of minions is the one of the stored minions;
  and the listeners are valid and compatible, with the map of listeners made from them.
\<close>

theorem reachable_stores:
  assumes "reachable env c"
  shows "onlyAccepted env c \<and> keyedStores c \<and> indexInv (cfg_ingresses c) (cfg_minionsByHost c) \<and> listenersOk env c"
  using storesInvD [OF configInvD(1) [OF reachable_inv [OF assms]]] by (simp add: ingressesOk_def)

text \<open>
  C4. No operation panics: in every state of a run, every operation on an object that the API server
  admits returns, and the new state is again one of a run.
\<close>

theorem operations_return:
  assumes "reachable env c" and "wfEvent e"
  shows "\<exists>c' changes problems. step env e c = Some (c', changes, problems) \<and> reachable env c'"
proof -
  obtain c' changes problems where "step env e c = Some (c', changes, problems)"
    using step_inv [OF reachable_inv [OF assms(1)] assms(2)] unfolding returnsInv_def by blast
  with reachable.operation [OF assms] show ?thesis
    by blast
qed


section \<open>Startup\<close>

text \<open>The states that a run goes through.\<close>

fun runs :: "configEnv \<Rightarrow> event list \<Rightarrow> Configuration \<Rightarrow> Configuration option" where
  "runs env [] c = Some c"
| "runs env (e # es) c = (case step env e c of None \<Rightarrow> None | Some (c', changes, problems) \<Rightarrow> runs env es c')"

lemma runs_append: "runs env (es @ fs) c = Option.bind (runs env es c) (runs env fs)"
  by (induction env es c rule: runs.induct) (auto split: option.splits)

lemma runs_reachable: "reachable env c \<Longrightarrow> list_all wfEvent es \<Longrightarrow> runs env es c = Some c' \<Longrightarrow> reachable env c'"
  by (induction es arbitrary: c) (auto split: option.splits dest: reachable.operation)

lemma runs_return: "configInv env c \<Longrightarrow> list_all wfEvent es \<Longrightarrow> \<exists>c'. runs env es c = Some c' \<and> configInv env c'"
proof (induction es arbitrary: c)
  case (Cons e es)
  then obtain d changes problems where "step env e c = Some (d, changes, problems)" "configInv env d"
    using step_inv [of env c e] unfolding returnsInv_def by auto
  with Cons show ?case
    by simp
qed simp

text \<open>The same state before startup: no host has been computed.\<close>

definition notStarted :: "Configuration \<Rightarrow> Configuration" where
  "notStarted c = c\<lparr>cfg_hosts := [], cfg_hostProblems := [], cfg_startupComplete := False\<rparr>"

lemma notStarted_simps [simp]:
  "cfg_ingresses (notStarted c) = cfg_ingresses c" "cfg_virtualServers (notStarted c) = cfg_virtualServers c"
  "cfg_virtualServerRoutes (notStarted c) = cfg_virtualServerRoutes c" "cfg_transportServers (notStarted c) = cfg_transportServers c"
  "cfg_minionsByHost (notStarted c) = cfg_minionsByHost c" "cfg_globalConfiguration (notStarted c) = cfg_globalConfiguration c"
  "cfg_listenerMap (notStarted c) = cfg_listenerMap c" "cfg_listenerHosts (notStarted c) = cfg_listenerHosts c"
  "cfg_listenerProblems (notStarted c) = cfg_listenerProblems c" "cfg_allowEmptyIngressHost (notStarted c) = cfg_allowEmptyIngressHost c"
  "cfg_isDirectiveAutoadjustEnabled (notStarted c) = cfg_isDirectiveAutoadjustEnabled c"
  "\<not> cfg_startupComplete (notStarted c)"
  by (simp_all add: notStarted_def)

lemma notStarted_store:
  "storeIngress env ing c = (d, verr) \<Longrightarrow> storeIngress env ing (notStarted c) = (notStarted d, verr)"
  "storeVirtualServer env vs c = (d, verr) \<Longrightarrow> storeVirtualServer env vs (notStarted c) = (notStarted d, verr)"
  "storeVirtualServerRoute env vsr c = (d, verr) \<Longrightarrow> storeVirtualServerRoute env vsr (notStarted c) = (notStarted d, verr)"
  "storeTransportServer env ts c = (d, verr) \<Longrightarrow> storeTransportServer env ts (notStarted c) = (notStarted d, verr)"
  by (auto simp: storeIngress_def storeVirtualServer_def storeVirtualServerRoute_def storeTransportServer_def Let_def
      balancedVS_def balancedVSR_def balanceUpstreamProxies_def notStarted_def aggregate_def split: if_splits option.splits)

lemma notStarted_startup:
  "storeIngress env ing c = (d, verr) \<Longrightarrow> cfg_startupComplete d = cfg_startupComplete c"
  "storeVirtualServer env vs c = (d, verr) \<Longrightarrow> cfg_startupComplete d = cfg_startupComplete c"
  "storeVirtualServerRoute env vsr c = (d, verr) \<Longrightarrow> cfg_startupComplete d = cfg_startupComplete c"
  "storeTransportServer env ts c = (d, verr) \<Longrightarrow> cfg_startupComplete d = cfg_startupComplete c"
  by (auto simp: storeIngress_def storeVirtualServer_def storeVirtualServerRoute_def storeTransportServer_def Let_def
      split: if_splits option.splits)

lemma notStarted_rebuildHosts:
  assumes "rebuildHosts env c = Some (c', changes, problems)"
  shows "notStarted c' = notStarted c" "cfg_startupComplete c' = cfg_startupComplete c"
proof -
  obtain hs ps where "c' = c\<lparr>cfg_hosts := hs, cfg_hostProblems := ps\<rparr>"
    using rebuildHosts_frame [OF assms] by metis
  then show "notStarted c' = notStarted c" "cfg_startupComplete c' = cfg_startupComplete c"
    by (simp_all add: notStarted_def)
qed

lemma notStarted_rebuildListeners:
  assumes "rebuildListenerHosts c = (c', changes, problems)"
  shows "rebuildListenerHosts (notStarted c) = (notStarted c', changes, problems)" "cfg_startupComplete c' = cfg_startupComplete c"
  using assms by (auto simp: rebuildListenerHosts_def Let_def addProblemsForTSConfigsWithoutActiveListener_def notStarted_def split: prod.splits)

lemma notStarted_both:
  assumes "rebuildBoth env b c = Some (c', changes, problems)"
  shows "\<exists>changes' problems'. rebuildBoth env False (notStarted c) = Some (notStarted c', changes', problems')"
    "cfg_startupComplete c' = cfg_startupComplete c"
proof -
  obtain d ch ps where l: "rebuildListenerHosts c = (d, ch, ps)"
    by (metis prod_cases3)
  note n = notStarted_rebuildListeners [OF l]
  have "notStarted c' = notStarted d \<and> cfg_startupComplete c' = cfg_startupComplete d"
    using assms l notStarted_rebuildHosts by (auto simp: rebuildBoth_def split: if_splits)
  with n show "\<exists>changes' problems'. rebuildBoth env False (notStarted c) = Some (notStarted c', changes', problems')"
    "cfg_startupComplete c' = cfg_startupComplete c"
    by (simp_all add: rebuildBoth_def)
qed

lemma reportError_any: "\<exists>changes' problems'. reportError key p verr (c, changes, problems) = (c, changes', problems')"
  by (metis reportError_state prod_cases3)

lemma notStarted_AddOrUpdate:
  assumes started: "cfg_startupComplete c"
  shows "AddOrUpdateIngress env ing c = Some (c', changes, problems) \<Longrightarrow>
      (\<exists>changes' problems'. AddOrUpdateIngress env ing (notStarted c) = Some (notStarted c', changes', problems')) \<and> cfg_startupComplete c'"
    and "AddOrUpdateVirtualServer env vs c = Some (c', changes, problems) \<Longrightarrow>
      (\<exists>changes' problems'. AddOrUpdateVirtualServer env vs (notStarted c) = Some (notStarted c', changes', problems')) \<and> cfg_startupComplete c'"
    and "AddOrUpdateVirtualServerRoute env vsr c = Some (c', changes, problems) \<Longrightarrow>
      (\<exists>changes' problems'. AddOrUpdateVirtualServerRoute env vsr (notStarted c) = Some (notStarted c', changes', problems')) \<and> cfg_startupComplete c'"
    and "AddOrUpdateTransportServer env ts c = Some (c', changes, problems) \<Longrightarrow>
      (\<exists>changes' problems'. AddOrUpdateTransportServer env ts (notStarted c) = Some (notStarted c', changes', problems')) \<and> cfg_startupComplete c'"
proof -
  {
    assume a: "AddOrUpdateIngress env ing c = Some (c', changes, problems)"
    obtain d verr where st: "storeIngress env ing c = (d, verr)"
      by (cases "storeIngress env ing c")
    have "cfg_startupComplete d"
      using notStarted_startup(1) [OF st] started by simp
    with a st obtain changes' problems' where "rebuildHosts (ce_vsr env) d = Some (c', changes', problems')"
      by (auto simp: AddOrUpdateIngress_def Let_def dest: reportError_state)
    from notStarted_rebuildHosts [OF this] \<open>cfg_startupComplete d\<close> notStarted_store(1) [OF st]
    show "(\<exists>changes' problems'. AddOrUpdateIngress env ing (notStarted c) = Some (notStarted c', changes', problems')) \<and> cfg_startupComplete c'"
      by (simp add: AddOrUpdateIngress_def startupOutcome_def)
  next
    assume a: "AddOrUpdateVirtualServer env vs c = Some (c', changes, problems)"
    obtain d verr where st: "storeVirtualServer env vs c = (d, verr)"
      by (cases "storeVirtualServer env vs c")
    have "cfg_startupComplete d"
      using notStarted_startup(2) [OF st] started by simp
    with a st obtain changes' problems' where "rebuildHosts (ce_vsr env) d = Some (c', changes', problems')"
      by (auto simp: AddOrUpdateVirtualServer_def Let_def dest: reportError_state)
    from notStarted_rebuildHosts [OF this] \<open>cfg_startupComplete d\<close> notStarted_store(2) [OF st]
    show "(\<exists>changes' problems'. AddOrUpdateVirtualServer env vs (notStarted c) = Some (notStarted c', changes', problems')) \<and> cfg_startupComplete c'"
      by (simp add: AddOrUpdateVirtualServer_def startupOutcome_def)
  next
    assume a: "AddOrUpdateVirtualServerRoute env vsr c = Some (c', changes, problems)"
    obtain d verr where st: "storeVirtualServerRoute env vsr c = (d, verr)"
      by (cases "storeVirtualServerRoute env vsr c")
    have "cfg_startupComplete d"
      using notStarted_startup(3) [OF st] started by simp
    with a st obtain changes' problems' where "rebuildHosts (ce_vsr env) d = Some (c', changes', problems')"
      by (auto simp: AddOrUpdateVirtualServerRoute_def Let_def)
    from notStarted_rebuildHosts [OF this] \<open>cfg_startupComplete d\<close> notStarted_store(3) [OF st]
    show "(\<exists>changes' problems'. AddOrUpdateVirtualServerRoute env vsr (notStarted c) = Some (notStarted c', changes', problems')) \<and> cfg_startupComplete c'"
      by (simp add: AddOrUpdateVirtualServerRoute_def startupOutcome_def)
  next
    assume a: "AddOrUpdateTransportServer env ts c = Some (c', changes, problems)"
    obtain d verr where st: "storeTransportServer env ts c = (d, verr)"
      by (cases "storeTransportServer env ts c")
    from a st obtain b changes' problems' where "rebuildBoth env b d = Some (c', changes', problems')"
      by (auto simp: AddOrUpdateTransportServer_def Let_def dest: reportError_state)
    from notStarted_both [OF this] notStarted_startup(4) [OF st] started notStarted_store(4) [OF st]
    show "(\<exists>changes' problems'. AddOrUpdateTransportServer env ts (notStarted c) = Some (notStarted c', changes', problems')) \<and> cfg_startupComplete c'"
      by (auto simp: AddOrUpdateTransportServer_def reportError_any)
  }
qed

lemma notStarted_rebuilt:
  assumes "rebuildHosts env d = Some (c', changes, problems)" and "cfg_startupComplete d"
  shows "notStarted d = notStarted c' \<and> cfg_startupComplete c'"
  using notStarted_rebuildHosts [OF assms(1)] assms(2) by simp

lemma notStarted_Delete:
  assumes started: "cfg_startupComplete c"
  shows "DeleteIngress env key c = Some (c', changes, problems) \<Longrightarrow>
      (\<exists>changes' problems'. DeleteIngress env key (notStarted c) = Some (notStarted c', changes', problems')) \<and> cfg_startupComplete c'"
    and "DeleteVirtualServer env key c = Some (c', changes, problems) \<Longrightarrow>
      (\<exists>changes' problems'. DeleteVirtualServer env key (notStarted c) = Some (notStarted c', changes', problems')) \<and> cfg_startupComplete c'"
    and "DeleteVirtualServerRoute env key c = Some (c', changes, problems) \<Longrightarrow>
      (\<exists>changes' problems'. DeleteVirtualServerRoute env key (notStarted c) = Some (notStarted c', changes', problems')) \<and> cfg_startupComplete c'"
    and "DeleteTransportServer env key c = Some (c', changes, problems) \<Longrightarrow>
      (\<exists>changes' problems'. DeleteTransportServer env key (notStarted c) = Some (notStarted c', changes', problems')) \<and> cfg_startupComplete c'"
proof -
  have i: "notStarted c\<lparr>cfg_ingresses := x, cfg_minionsByHost := y\<rparr> = notStarted (c\<lparr>cfg_ingresses := x, cfg_minionsByHost := y\<rparr>)"
    and v: "notStarted c\<lparr>cfg_virtualServers := vs\<rparr> = notStarted (c\<lparr>cfg_virtualServers := vs\<rparr>)"
    and r: "notStarted c\<lparr>cfg_virtualServerRoutes := vsrs\<rparr> = notStarted (c\<lparr>cfg_virtualServerRoutes := vsrs\<rparr>)"
    and t: "notStarted c\<lparr>cfg_transportServers := ts\<rparr> = notStarted (c\<lparr>cfg_transportServers := ts\<rparr>)" for x y vs vsrs ts
    by (simp_all add: notStarted_def)
  show "DeleteIngress env key c = Some (c', changes, problems) \<Longrightarrow>
      (\<exists>changes' problems'. DeleteIngress env key (notStarted c) = Some (notStarted c', changes', problems')) \<and> cfg_startupComplete c'"
    using started notStarted_rebuilt by (fastforce simp: DeleteIngress_def Let_def i split: if_splits)
  show "DeleteVirtualServer env key c = Some (c', changes, problems) \<Longrightarrow>
      (\<exists>changes' problems'. DeleteVirtualServer env key (notStarted c) = Some (notStarted c', changes', problems')) \<and> cfg_startupComplete c'"
    using started notStarted_rebuilt by (fastforce simp: DeleteVirtualServer_def Let_def v split: if_splits)
  show "DeleteVirtualServerRoute env key c = Some (c', changes, problems) \<Longrightarrow>
      (\<exists>changes' problems'. DeleteVirtualServerRoute env key (notStarted c) = Some (notStarted c', changes', problems')) \<and> cfg_startupComplete c'"
    using started notStarted_rebuilt by (fastforce simp: DeleteVirtualServerRoute_def Let_def r split: if_splits)
  show "DeleteTransportServer env key c = Some (c', changes, problems) \<Longrightarrow>
      (\<exists>changes' problems'. DeleteTransportServer env key (notStarted c) = Some (notStarted c', changes', problems')) \<and> cfg_startupComplete c'"
    using started by (auto simp: DeleteTransportServer_def t split: if_splits dest: notStarted_both)
qed

lemma notStarted_GlobalConfiguration:
  assumes started: "cfg_startupComplete c"
  shows "map_option fst (AddOrUpdateGlobalConfiguration env gc c) = Some (c', changes, problems) \<Longrightarrow>
      (\<exists>changes' problems'. map_option fst (AddOrUpdateGlobalConfiguration env gc (notStarted c)) = Some (notStarted c', changes', problems')) \<and> cfg_startupComplete c'"
    and "DeleteGlobalConfiguration env c = Some (c', changes, problems) \<Longrightarrow>
      (\<exists>changes' problems'. DeleteGlobalConfiguration env (notStarted c) = Some (notStarted c', changes', problems')) \<and> cfg_startupComplete c'"
proof -
  have g: "notStarted c\<lparr>cfg_globalConfiguration := x, cfg_listenerMap := y\<rparr> = notStarted (c\<lparr>cfg_globalConfiguration := x, cfg_listenerMap := y\<rparr>)" for x y
    by (simp add: notStarted_def)
  show "map_option fst (AddOrUpdateGlobalConfiguration env gc c) = Some (c', changes, problems) \<Longrightarrow>
      (\<exists>changes' problems'. map_option fst (AddOrUpdateGlobalConfiguration env gc (notStarted c)) = Some (notStarted c', changes', problems')) \<and> cfg_startupComplete c'"
    using started by (auto simp: AddOrUpdateGlobalConfiguration_def g split: prod.splits dest: notStarted_both)
  show "DeleteGlobalConfiguration env c = Some (c', changes, problems) \<Longrightarrow>
      (\<exists>changes' problems'. DeleteGlobalConfiguration env (notStarted c) = Some (notStarted c', changes', problems')) \<and> cfg_startupComplete c'"
    using started by (auto simp: DeleteGlobalConfiguration_def g dest: notStarted_both)
qed

lemma step_notStarted:
  assumes "step env e c = Some (c', changes, problems)" and "e \<noteq> StartupDone" and "cfg_startupComplete c"
  shows "(\<exists>changes' problems'. step env e (notStarted c) = Some (notStarted c', changes', problems')) \<and> cfg_startupComplete c'"
  using assms(1,2) notStarted_AddOrUpdate [OF assms(3)] notStarted_Delete [OF assms(3)] notStarted_GlobalConfiguration [OF assms(3)]
  by (cases e) simp_all

lemma runs_notStarted:
  "runs env es c = Some c' \<Longrightarrow> StartupDone \<notin> set es \<Longrightarrow> cfg_startupComplete c \<Longrightarrow>
   runs env es (notStarted c) = Some (notStarted c') \<and> cfg_startupComplete c'"
proof (induction es arbitrary: c)
  case (Cons e es)
  then obtain d changes problems where d: "step env e c = Some (d, changes, problems)" "runs env es d = Some c'"
    by (auto split: option.splits)
  with step_notStarted [OF d(1)] Cons.prems Cons.IH [OF d(2)] show ?case
    by auto
qed simp

lemma CompleteStartup_notStarted:
  assumes "configInv env c" and "cfg_startupComplete c"
  shows "\<exists>changes problems. CompleteStartup env (notStarted c) = Some (c, changes, problems)"
proof -
  let ?d = "(notStarted c)\<lparr>cfg_startupComplete := True\<rparr>"
  have "sameInputs c ?d"
    by (simp add: sameInputs_def notStarted_def)
  moreover have "rebuildHosts (ce_vsr env) c = Some (c, [], [])"
    using configInvD(4) [OF assms] by (simp add: hostsSettled_def)
  moreover have "?d\<lparr>cfg_hosts := cfg_hosts c, cfg_hostProblems := cfg_hostProblems c\<rparr> = c"
    using assms(2) by (simp add: notStarted_def)
  ultimately show ?thesis
    using rebuildHosts_inputs [of c ?d "ce_vsr env" c "[]" "[]"] by (simp add: CompleteStartup_def)
qed


section \<open>An example run\<close>

definition exampleEvents :: "event list" where
  "exampleEvents = [UpdateVirtualServer exampleVS, UpdateIngress exampleIngress]"

definition exampleState :: Configuration where
  "exampleState = the (runs exampleConfigEnv (exampleEvents @ [StartupDone]) newConfiguration)"

lemma example_run: "runs exampleConfigEnv (exampleEvents @ [StartupDone]) newConfiguration = Some exampleState"
proof -
  have "(case runs exampleConfigEnv (exampleEvents @ [StartupDone]) newConfiguration of None \<Rightarrow> False | Some _ \<Rightarrow> True)"
    by code_simp
  then show ?thesis
    by (auto simp: exampleState_def split: option.splits)
qed

lemma example_events: "list_all wfEvent exampleEvents" "StartupDone \<notin> set exampleEvents"
  by (simp_all add: exampleEvents_def exampleIngress_def wfMeta_def zero_defs)

lemma example_reachable: "reachable exampleConfigEnv exampleState"
  by (rule runs_reachable [OF reachable.start _ example_run]) (simp add: example_events)

lemma example_facts:
  "gkeys (cfg_ingresses exampleState) = [''d/a'']" "cfg_startupComplete exampleState" "distinct (configUIDs exampleState)"
  by code_simp+

theorem reachable_stores_witness:
  "onlyAccepted exampleConfigEnv exampleState \<and> gkeys (cfg_ingresses exampleState) = [''d/a'']"
  using reachable_stores [OF example_reachable] example_facts(1) by blast

theorem operations_return_witness:
  "\<exists>c' changes problems. step exampleConfigEnv (RemoveIngress ''d/a'') exampleState = Some (c', changes, problems) \<and>
     reachable exampleConfigEnv c'"
  using operations_return [OF example_reachable, of "RemoveIngress ''d/a''"] by simp



end
