(* ===== verification/Served_Resources.thy ===== *)
theory Served_Resources
  imports Config_Runs
begin

text \<open>
  What a run serves. The changes that an operation returns are the difference between the resources
  that are served before and after it, and a host is served by the winner among the stored resources
  that claim it.
\<close>

section \<open>The changes are the difference\<close>

definition servedKeys :: "Configuration \<Rightarrow> string set" where
  "servedKeys c = deployed id (cfg_hosts c) \<union> deployed TransportServerRes (cfg_listenerHosts c)"

lemma applyChanges_append: "applyChanges (xs @ ys) D = applyChanges ys (applyChanges xs D)"
  by (simp add: applyChanges_def)

text \<open>Resources that no change deletes can be set aside.\<close>

lemma applyChanges_union:
  assumes "distinct (map changeKey cs)" and "\<And>d. d \<in> set cs \<Longrightarrow> rc_Op d = Delete \<Longrightarrow> changeKey d \<notin> E"
  shows "applyChanges cs (D \<union> E) = applyChanges cs D \<union> E"
  using assms(2) by (auto simp: set_eq_iff applyChanges_distinct [OF assms(1)])

lemma applyChanges_marked:
  assumes "markError key err cs = Some cs'"
  shows "applyChanges cs' D = applyChanges cs D"
proof -
  obtain before d after where "cs = before @ d # after" "cs' = before @ d\<lparr>rc_Error := err\<rparr> # after"
    using markError_Some [OF assms] by blast
  moreover have "applyChange (d\<lparr>rc_Error := err\<rparr>) = applyChange d"
    by (rule ext) (simp add: applyChange_def split: Operation.split)
  ultimately show ?thesis
    by (simp add: applyChanges_def)
qed

lemma applyChanges_reported:
  "reportError key p verr (c, changes, problems) = (c', changes', problems') \<Longrightarrow> applyChanges changes' D = applyChanges changes D"
  by (auto simp: reportError_def applyChanges_marked split: option.splits)

text \<open>A deleted resource was deployed before and is not any more.\<close>

lemma deleted_keys:
  assumes d: "distinct (map changeKey cs)" and "d \<in> set cs" and "rc_Op d = Delete"
  shows "changeKey d \<notin> applyChanges cs D"
proof
  assume "changeKey d \<in> applyChanges cs D"
  then obtain e where "e \<in> set cs" "changeKey e = changeKey d" "rc_Op e = AddOrUpdate"
    unfolding applyChanges_distinct [OF d] using assms(2,3) by blast
  moreover from this have "e = d"
    using inj_onD [of changeKey "set cs" e d] d assms(2) by (simp add: distinct_map)
  ultimately show False
    using assms(3) by simp
qed

text \<open>A served resource comes from a stored object.\<close>

lemma hosts_created:
  assumes c: "configInv env c" and k: "k \<in> deployed id (cfg_hosts c)"
  shows "\<exists>b. comesFrom c b \<and> GetKeyWithKind b = k"
proof (cases "cfg_startupComplete c")
  case True
  note inv = storesInvD [OF configInvD(1) [OF c]]
  obtain holders store0 store pr chs qs where b: "buildHostsAndResources (ce_vsr env) c = Some (holders, store0)"
    and act: "activeHosts (holders, store)"
    and eq: "rebuildHosts (ce_vsr env) c = Some (c\<lparr>cfg_hosts := resolve holders store, cfg_hostProblems := pr\<rparr>, chs, qs)"
    by (rule rebuildHosts_parts [OF inv(1,2), of "ce_vsr env"]) blast
  have "c = c\<lparr>cfg_hosts := resolve holders store, cfg_hostProblems := pr\<rparr>"
    using configInvD(4) [OF c True] eq by (simp add: hostsSettled_def)
  from arg_cong [OF this, of cfg_hosts] have "cfg_hosts c = resolve holders store"
    by simp
  with k deployed_resolve [of holders store] act obtain h where h: "gget holders h = Some k"
    by (auto simp: activeHosts_def)
  obtain rs where rs: "createdResources (ce_vsr env) c = Some rs" and d: "distinct (map GetKeyWithKind rs)"
    and ci: "resourceClaims.claimInv hostWarning (baseResource rs) (hostClaimsOf rs) (holders, store0)"
    and keys: "gkeys store0 = map GetKeyWithKind rs"
    using buildHosts_inv [OF inv(1) b] .
  have "builtHosts (holders, store0)"
    by (rule buildHosts_builtHosts [OF inv(1) b])
  from builtHostsD(5) [OF this h] obtain r where r: "gget store0 k = Some r"
    by blast
  with built_resource [OF ci d keys r] createdResources_comesFrom [OF rs] show ?thesis
    by blast
next
  case False
  with k configInvD(5) [OF c] show ?thesis
    by (simp add: deployed_def)
qed

lemma slotOf_not_passthrough:
  assumes "listenersOk env c" and "slotOf (cfg_globalConfiguration c) ts = Some s"
  shows "\<not> passthrough ts"
proof -
  obtain gc l where gc: "cfg_globalConfiguration c = Some gc"
    and l: "find (\<lambda>l. tsl_Name (ts_Listener ts) = lst_Name l \<and> tsl_Protocol (ts_Listener ts) = lst_Protocol l) (gc_Listeners gc) = Some l"
    using assms(2) by (auto simp: slotOf_def findListener_def split: if_splits option.splits)
  from find_SomeD [OF l] assms(1) gc have "lst_Name l \<noteq> TLSPassthroughListenerName" "tsl_Name (ts_Listener ts) = lst_Name l"
    by (auto simp: listenersOk_def list_all_iff validSomewhere_def validateListener_def validateGlobalConfigurationListenerName_def
        split: if_splits)
  moreover have "onListener ts"
    using assms(2) by (simp add: slotOf_def split: if_splits)
  ultimately show ?thesis
    by (simp add: passthrough_def onListener_def)
qed

text \<open>A TransportServer that holds a listener is stored and not one for TLS passthrough.\<close>

lemma listeners_stored:
  assumes inv: "storesInv env c" and set: "listenersSettled c" and k: "k \<in> deployed TransportServerRes (cfg_listenerHosts c)"
  shows "\<exists>ts. gget (cfg_transportServers c) (getResourceKey (ts_ObjectMeta ts)) = Some ts \<and> \<not> passthrough ts \<and>
    k = getResourceKeyWithKind transportServerKind (ts_ObjectMeta ts)"
proof -
  obtain hosts configs where b: "buildListenerHostsAndTSConfigurations (cfg_globalConfiguration c) (cfg_transportServers c) = (hosts, configs)"
    by (cases "buildListenerHostsAndTSConfigurations (cfg_globalConfiguration c) (cfg_transportServers c)")
  have "cfg_listenerHosts (fst (rebuildListenerHosts c)) = hosts"
    by (simp add: rebuildListenerHosts_def b Let_def split: prod.splits)
  with set have "cfg_listenerHosts c = hosts"
    by (simp add: listenersSettled_def)
  with k obtain h tsc where h: "gget hosts h = Some tsc" "k = GetKeyWithKind (TransportServerRes tsc)"
    by (auto simp: deployed_def)
  have keyed: "keyedBy ts_ObjectMeta (cfg_transportServers c)"
    using storesInvD(1) [OF inv] by (simp add: keyedStores_def)
  from built_listeners(2) [OF keyed b h(1)] built_listeners(1) [OF keyed b]
  have "gget (cfg_transportServers c) (getResourceKey (tscMeta tsc)) = Some (tsc_TransportServer tsc)"
    "slotOf (cfg_globalConfiguration c) (tsc_TransportServer tsc) = Some h"
    by auto
  with slotOf_not_passthrough [OF storesInvD(6) [OF inv] this(2)] h(2) show ?thesis
    by (intro exI [of _ "tsc_TransportServer tsc"]) (simp add: tscMeta_def getResourceKeyWithKind_def getResourceKey_def)
qed

lemma hosts_and_listeners:
  assumes c: "configInv env c" and d: "storesInv env d" "listenersSettled d"
    and stored: "\<And>ts. gget (cfg_transportServers d) (getResourceKey (ts_ObjectMeta ts)) = Some ts \<Longrightarrow> \<not> passthrough ts \<Longrightarrow>
      getResourceKeyWithKind transportServerKind (ts_ObjectMeta ts) \<in> deployed id (cfg_hosts c) \<Longrightarrow>
      gget (cfg_transportServers c) (getResourceKey (ts_ObjectMeta ts)) = Some ts"
  shows "deployed id (cfg_hosts c) \<inter> deployed TransportServerRes (cfg_listenerHosts d) = {}"
proof -
  have False if k: "k \<in> deployed id (cfg_hosts c)" "k \<in> deployed TransportServerRes (cfg_listenerHosts d)" for k
  proof -
    obtain ts where ts: "gget (cfg_transportServers d) (getResourceKey (ts_ObjectMeta ts)) = Some ts" "\<not> passthrough ts"
      "k = getResourceKeyWithKind transportServerKind (ts_ObjectMeta ts)"
      using listeners_stored [OF d k(2)] by blast
    have old: "gget (cfg_transportServers c) (getResourceKey (ts_ObjectMeta ts)) = Some ts"
      using stored [OF ts(1,2)] k(1) ts(3) by simp
    obtain b where b: "comesFrom c b" "GetKeyWithKind b = k"
      using hosts_created [OF c k(1)] by blast
    then obtain tsc where tsc: "b = TransportServerRes tsc"
      using ts(3) by (cases b) (auto simp: getResourceKeyWithKind_def getResourceKey_def ingressKind_def virtualServerKind_def transportServerKind_def)
    with b obtain k' where k': "gget (cfg_transportServers c) k' = Some (tsc_TransportServer tsc)" "passthrough (tsc_TransportServer tsc)"
      by auto
    have "k' = getResourceKey (ts_ObjectMeta (tsc_TransportServer tsc))"
      using keyedByD [OF _ k'(1)] storesInvD(1) [OF configInvD(1) [OF c]] by (auto simp: keyedStores_def)
    moreover have "getResourceKeyWithKind transportServerKind (ts_ObjectMeta (tsc_TransportServer tsc)) =
        getResourceKeyWithKind transportServerKind (ts_ObjectMeta ts)"
      using b(2) ts(3) unfolding tsc GetKeyWithKind_getResourceKeyWithKind(3) by (rule trans)
    then have "getResourceKey (ts_ObjectMeta (tsc_TransportServer tsc)) = getResourceKey (ts_ObjectMeta ts)"
      by (simp add: getResourceKeyWithKind_def getResourceKey_def)
    ultimately have "tsc_TransportServer tsc = ts"
      using old k'(1) by (metis option.inject)
    with k'(2) ts(2) show False
      by simp
  qed
  then show ?thesis
    by blast
qed

lemma hosts_changes:
  assumes inv: "storesInv env d" "heldOk d" and apart: "deployed id (cfg_hosts d) \<inter> deployed TransportServerRes (cfg_listenerHosts d) = {}"
    and r: "rebuildHosts (ce_vsr env) d = Some (d', changes, problems)"
  shows "applyChanges changes (servedKeys d) = servedKeys d'"
proof -
  obtain hs ps where d': "d' = d\<lparr>cfg_hosts := hs, cfg_hostProblems := ps\<rparr>" and dist: "distinct (map changeKey changes)"
    and a: "applyChanges changes (deployed id (cfg_hosts d)) = deployed id hs"
    by (rule hosts_step [OF inv]) (use r in auto)
  obtain holders store1 store pr chs qs where act: "activeHosts (holders, store)"
    and chs: "chs = squashResourceChanges (hostChanges.changesOf (cfg_hosts d) (resolve holders store1))"
    and eq: "rebuildHosts (ce_vsr env) d = Some (d\<lparr>cfg_hosts := resolve holders store, cfg_hostProblems := pr\<rparr>, map (relink store) chs, qs)"
    by (rule rebuildHosts_parts [OF storesInvD(1,2) [OF inv(1)], of "ce_vsr env"]) blast
  have key: "changeKey (relink store e) = changeKey e" for e
    using act builtHostsD(3) [of holders store] by (auto simp: relink_def activeHosts_def split: option.splits)
  have old: "changeKey e \<in> deployed id (cfg_hosts d)" if e: "e \<in> set changes" "rc_Op e = Delete" for e
  proof -
    obtain f where f: "f \<in> set chs" "e = relink store f"
      using e(1) eq r by auto
    obtain rem upd add where det: "detectChangesInHosts (cfg_hosts d) (resolve holders store1) = (rem, upd, add)"
      by (metis prod_cases3)
    have "f \<in> set (hostChanges.changesOf (cfg_hosts d) (resolve holders store1))"
      using f(1) squash_subset unfolding chs by blast
    moreover have "rc_Op f = Delete"
      using e(2) f(2) by (simp add: relink_def split: option.splits)
    ultimately have "changeKey f \<in> deployed id (cfg_hosts d)"
      unfolding hostChanges.set_changesOf [OF det] by (auto simp: change_def dest: deployedI [where res = id])
    with f(2) key show ?thesis
      by simp
  qed
  have "applyChanges changes (servedKeys d) = deployed id hs \<union> deployed TransportServerRes (cfg_listenerHosts d)"
    unfolding servedKeys_def a [symmetric] by (rule applyChanges_union [OF dist]) (use old apart in blast)
  then show ?thesis
    by (simp add: d' servedKeys_def)
qed

lemma listeners_changes:
  assumes inv: "storesInv env d" "heldOk d" and apart: "deployed id (cfg_hosts d) \<inter> deployed TransportServerRes (cfg_listenerHosts d) = {}"
    and r: "rebuildListenerHosts d = (d', changes, problems)"
  shows "applyChanges changes (servedKeys d) = servedKeys d'"
proof -
  obtain ls ps where d': "d' = d\<lparr>cfg_listenerHosts := ls, cfg_listenerProblems := ps\<rparr>" and dist: "distinct (map changeKey changes)"
    and a: "applyChanges changes (deployed TransportServerRes (cfg_listenerHosts d)) = deployed TransportServerRes ls"
    by (rule listeners_step [OF inv]) (use r in auto)
  obtain hosts configs where b: "buildListenerHostsAndTSConfigurations (cfg_globalConfiguration d) (cfg_transportServers d) = (hosts, configs)"
    by (cases "buildListenerHostsAndTSConfigurations (cfg_globalConfiguration d) (cfg_transportServers d)")
  obtain rem upd add where det: "detectChangesInListenerHosts (cfg_listenerHosts d) hosts = (rem, upd, add)"
    by (metis prod_cases3)
  have ch: "changes = map (relinkTS configs) (squashResourceChanges (listenerChanges.changesOf (cfg_listenerHosts d) hosts))"
    using r by (simp add: rebuildListenerHosts_def b det Let_def createResourceChangesForListeners_def listenerChanges.changesOf_def)
  have keyed: "keyedBy ts_ObjectMeta (cfg_transportServers d)" and plain: "plainTSs d"
    using storesInvD(1,4) [OF inv(1)] inv(2) by (simp_all add: keyedStores_def plainTSs_def heldOk_def plainStored_def)
  have new: "plainName (tscMeta tsc)" if "gget hosts h = Some tsc" for h tsc
    using built_listeners [OF keyed b] that storesInvD(4) [OF inv(1)] by (fastforce simp: plainStored_def tscMeta_def)
  have old: "changeKey e \<in> deployed TransportServerRes (cfg_listenerHosts d)" if e: "e \<in> set changes" "rc_Op e = Delete" for e
  proof -
    obtain f where f: "f \<in> set (squashResourceChanges (listenerChanges.changesOf (cfg_listenerHosts d) hosts))" "e = relinkTS configs f"
      using e(1) ch by auto
    obtain h tsc where tsc: "rc_Resource f = TransportServerRes tsc" "gget (cfg_listenerHosts d) h = Some tsc \<or> gget hosts h = Some tsc"
      using changes_from_listeners [OF f(1)] by blast
    then have "plainName (tscMeta tsc)"
      using plain new by (auto simp: plainTSs_def)
    then have "e = f"
      using relinkTS_no_effect [OF keyed plain b, of f tsc] tsc(1) f(2) by simp
    moreover have "f \<in> set (listenerChanges.changesOf (cfg_listenerHosts d) hosts)"
      using f(1) squash_subset by blast
    ultimately show ?thesis
      using e(2) unfolding listenerChanges.set_changesOf [OF det] by (auto simp: change_def dest: deployedI [where res = TransportServerRes])
  qed
  have "applyChanges changes (deployed TransportServerRes (cfg_listenerHosts d) \<union> deployed id (cfg_hosts d)) =
      deployed TransportServerRes ls \<union> deployed id (cfg_hosts d)"
    unfolding a [symmetric] by (rule applyChanges_union [OF dist]) (use old apart in blast)
  then show ?thesis
    by (simp add: d' servedKeys_def Un_commute)
qed

lemma servedKeys_same: "sameHeld c d \<Longrightarrow> servedKeys d = servedKeys c"
  by (simp add: sameHeld_def servedKeys_def)

lemma apart_inv:
  assumes "configInv env c"
  shows "deployed id (cfg_hosts c) \<inter> deployed TransportServerRes (cfg_listenerHosts c) = {}"
  by (rule hosts_and_listeners [OF assms configInvD(1,3) [OF assms]])

lemma stored_changes:
  assumes c: "configInv env c" and d: "storesInv env d" "sameHeld c d"
    and r: "rebuildHosts (ce_vsr env) d = Some (d', changes, problems)"
  shows "applyChanges changes (servedKeys c) = servedKeys d'"
  using hosts_changes [OF d(1) sameHeld_heldOk [OF d(2) configInvD(2) [OF c]] _ r] apart_inv [OF c] d(2) servedKeys_same [OF d(2)]
  by (simp add: sameHeld_def)

lemma both_changes:
  assumes c: "configInv env c" and d: "storesInv env d" "sameHeld c d"
    and stored: "\<And>ts. gget (cfg_transportServers d) (getResourceKey (ts_ObjectMeta ts)) = Some ts \<Longrightarrow> \<not> passthrough ts \<Longrightarrow>
      getResourceKeyWithKind transportServerKind (ts_ObjectMeta ts) \<in> deployed id (cfg_hosts c) \<Longrightarrow>
      gget (cfg_transportServers c) (getResourceKey (ts_ObjectMeta ts)) = Some ts"
    and r: "rebuildBoth env b d = Some (d', changes, problems)"
  shows "applyChanges changes (servedKeys c) = servedKeys d'"
proof -
  have held: "heldOk d"
    by (rule sameHeld_heldOk [OF d(2) configInvD(2) [OF c]])
  obtain ls ps ch1 ps1 where l: "rebuildListenerHosts d = (d\<lparr>cfg_listenerHosts := ls, cfg_listenerProblems := ps\<rparr>, ch1, ps1)"
    and l': "heldOk (d\<lparr>cfg_listenerHosts := ls, cfg_listenerProblems := ps\<rparr>)" "listenersSettled (d\<lparr>cfg_listenerHosts := ls, cfg_listenerProblems := ps\<rparr>)"
    by (rule listeners_step [OF d(1) held])
  let ?d = "d\<lparr>cfg_listenerHosts := ls, cfg_listenerProblems := ps\<rparr>"
  have inv: "storesInv env ?d"
    using d(1) by simp
  have hosts: "cfg_hosts d = cfg_hosts c" "cfg_listenerHosts d = cfg_listenerHosts c"
    using d(2) by (simp_all add: sameHeld_def)
  have one: "applyChanges ch1 (servedKeys c) = servedKeys ?d"
    using listeners_changes [OF d(1) held _ l] apart_inv [OF c] servedKeys_same [OF d(2)] by (simp add: hosts)
  have apart: "deployed id (cfg_hosts ?d) \<inter> deployed TransportServerRes (cfg_listenerHosts ?d) = {}"
    using hosts_and_listeners [OF c inv l'(2)] stored by (simp add: hosts)
  show ?thesis
  proof (cases b)
    case True
    with r l obtain ch2 ps2 where "rebuildHosts (ce_vsr env) ?d = Some (d', ch2, ps2)" "changes = ch1 @ ch2"
      by (auto simp: rebuildBoth_def)
    with hosts_changes [OF inv l'(1) apart this(1)] one show ?thesis
      by (simp add: applyChanges_append)
  next
    case False
    with r l one show ?thesis
      by (auto simp: rebuildBoth_def)
  qed
qed

lemma hosts_outcome_changes:
  assumes c: "configInv env c" and d: "storesInv env d \<and> sameHeld c d \<and> sameListenerInputs c d"
    and out: "(if \<not> cfg_startupComplete d then Some (startupOutcome p verr d)
      else map_option (reportError key p verr) (rebuildHosts (ce_vsr env) d)) = Some (c', changes, problems)"
  shows "applyChanges changes (servedKeys c) = servedKeys c'"
proof (cases "cfg_startupComplete d")
  case True
  with out obtain c1 ch ps where r: "rebuildHosts (ce_vsr env) d = Some (c1, ch, ps)"
    and e: "reportError key p verr (c1, ch, ps) = (c', changes, problems)"
    by auto
  have "applyChanges ch (servedKeys c) = servedKeys c1"
    by (rule stored_changes [OF c _ _ r]) (use d in auto)
  with applyChanges_reported [OF e] reportError_state [OF e] show ?thesis
    by simp
next
  case False
  with out servedKeys_same [of c d] d show ?thesis
    by (auto simp: startupOutcome_def applyChanges_def)
qed

lemma delete_outcome_changes:
  assumes c: "configInv env c" and d: "storesInv env d \<and> sameHeld c d \<and> sameListenerInputs c d"
    and out: "(if absent then Some (c, [], []) else if \<not> cfg_startupComplete d then Some (d, [], []) else rebuildHosts (ce_vsr env) d) =
      Some (c', changes, problems)"
  shows "applyChanges changes (servedKeys c) = servedKeys c'"
proof (cases "absent \<or> \<not> cfg_startupComplete d")
  case True
  with out servedKeys_same [of c d] d show ?thesis
    by (auto simp: applyChanges_def split: if_splits)
next
  case False
  with out stored_changes [OF c _ _, of d c' changes problems] d show ?thesis
    by simp
qed

lemma AddOrUpdate_changes:
  assumes c: "configInv env c"
  shows "wfMeta (ing_ObjectMeta ing) \<Longrightarrow> AddOrUpdateIngress env ing c = Some (c', changes, problems) \<Longrightarrow>
      applyChanges changes (servedKeys c) = servedKeys c'"
    and "AddOrUpdateVirtualServer env vs c = Some (c', changes, problems) \<Longrightarrow> applyChanges changes (servedKeys c) = servedKeys c'"
    and "AddOrUpdateVirtualServerRoute env vsr c = Some (c', changes, problems) \<Longrightarrow> applyChanges changes (servedKeys c) = servedKeys c'"
proof -
  note inv = configInvD(1) [OF c]
  {
    assume w: "wfMeta (ing_ObjectMeta ing)" and o: "AddOrUpdateIngress env ing c = Some (c', changes, problems)"
    obtain d verr where st: "storeIngress env ing c = (d, verr)"
      by (cases "storeIngress env ing c")
    show "applyChanges changes (servedKeys c) = servedKeys c'"
      by (rule hosts_outcome_changes [OF c storeIngress_inv [OF inv w st] o [unfolded AddOrUpdateIngress_def st Let_def case_prod_conv]])
  next
    assume o: "AddOrUpdateVirtualServer env vs c = Some (c', changes, problems)"
    obtain d verr where st: "storeVirtualServer env vs c = (d, verr)"
      by (cases "storeVirtualServer env vs c")
    show "applyChanges changes (servedKeys c) = servedKeys c'"
      by (rule hosts_outcome_changes [OF c storeVirtualServer_inv [OF inv st] o [unfolded AddOrUpdateVirtualServer_def st Let_def case_prod_conv]])
  next
    assume o: "AddOrUpdateVirtualServerRoute env vsr c = Some (c', changes, problems)"
    obtain d verr where st: "storeVirtualServerRoute env vsr c = (d, verr)"
      by (cases "storeVirtualServerRoute env vsr c")
    note d = storeVirtualServerRoute_inv [OF inv st]
    have "(if False then Some (c, [], []) else if \<not> cfg_startupComplete d then Some (d, [], []) else rebuildHosts (ce_vsr env) d) =
        Some (c', changes, if cfg_startupComplete d then snd (snd (the (rebuildHosts (ce_vsr env) d))) else [])"
      using o st by (auto simp: AddOrUpdateVirtualServerRoute_def Let_def startupOutcome_def split: if_splits)
    then show "applyChanges changes (servedKeys c) = servedKeys c'"
      by (rule delete_outcome_changes [OF c d])
  }
qed

lemma storeTransportServer_gget:
  assumes "storeTransportServer env ts c = (d, verr)"
  shows "gget (cfg_transportServers d) (getResourceKey (ts_ObjectMeta ts)) \<in> {None, Some ts}"
    and "k \<noteq> getResourceKey (ts_ObjectMeta ts) \<Longrightarrow> gget (cfg_transportServers d) k = gget (cfg_transportServers c) k"
  using assms by (auto simp: storeTransportServer_def Let_def split: if_splits option.splits)

lemma AddOrUpdateTransportServer_changes:
  assumes c: "configInv env c" and w: "plainName (ts_ObjectMeta ts)"
    and leaves: "\<not> (getResourceKeyWithKind transportServerKind (ts_ObjectMeta ts) \<in> deployed id (cfg_hosts c) \<and> \<not> passthrough ts)"
    and o: "AddOrUpdateTransportServer env ts c = Some (c', changes, problems)"
  shows "applyChanges changes (servedKeys c) = servedKeys c'"
proof -
  obtain d verr where st: "storeTransportServer env ts c = (d, verr)"
    by (cases "storeTransportServer env ts c")
  let ?b = "cfg_isTLSPassthroughEnabled c \<and> cfg_startupComplete c"
  obtain c1 ch ps where r: "rebuildBoth env ?b d = Some (c1, ch, ps)"
    and e: "reportError (getResourceKeyWithKind transportServerKind (ts_ObjectMeta ts))
      (\<lambda>err. rejected (ObjTransportServer ts) (rejectedMessage transportServerKind (ts_ObjectMeta ts) err)) verr (c1, ch, ps) = (c', changes, problems)"
    using o unfolding AddOrUpdateTransportServer_def st Let_def case_prod_conv by (auto simp only: map_option_eq_Some)
  have d: "storesInv env d" "sameHeld c d"
    using storeTransportServer_inv [OF configInvD(1) [OF c] w st] by simp_all
  have stored: "gget (cfg_transportServers c) (getResourceKey (ts_ObjectMeta ts')) = Some ts'"
    if t: "gget (cfg_transportServers d) (getResourceKey (ts_ObjectMeta ts')) = Some ts'" "\<not> passthrough ts'"
      "getResourceKeyWithKind transportServerKind (ts_ObjectMeta ts') \<in> deployed id (cfg_hosts c)" for ts'
  proof (cases "getResourceKey (ts_ObjectMeta ts') = getResourceKey (ts_ObjectMeta ts)")
    case True
    then have "ts' = ts"
      using t(1) storeTransportServer_gget(1) [OF st] by (metis empty_iff insert_iff option.distinct(1) option.inject)
    with t(2,3) leaves show ?thesis
      by blast
  next
    case False
    with storeTransportServer_gget(2) [OF st] t(1) show ?thesis
      by metis
  qed
  have "applyChanges ch (servedKeys c) = servedKeys c1"
    by (rule both_changes [OF c d stored r])
  with applyChanges_reported [OF e, of "servedKeys c"] reportError_state [OF e] show ?thesis
    by simp
qed

lemma Delete_changes:
  assumes c: "configInv env c"
  shows "DeleteIngress env key c = Some (c', changes, problems) \<Longrightarrow> applyChanges changes (servedKeys c) = servedKeys c'"
    and "DeleteVirtualServer env key c = Some (c', changes, problems) \<Longrightarrow> applyChanges changes (servedKeys c) = servedKeys c'"
    and "DeleteVirtualServerRoute env key c = Some (c', changes, problems) \<Longrightarrow> applyChanges changes (servedKeys c) = servedKeys c'"
    and "DeleteTransportServer env key c = Some (c', changes, problems) \<Longrightarrow> applyChanges changes (servedKeys c) = servedKeys c'"
proof -
  note inv = configInvD(1) [OF c]
  show "DeleteIngress env key c = Some (c', changes, problems) \<Longrightarrow> applyChanges changes (servedKeys c) = servedKeys c'"
    unfolding DeleteIngress_def Let_def
    by (rule delete_outcome_changes [OF c]) (simp_all add: storesInv_ingress_removed(2) [OF inv] sameHeld_def sameListenerInputs_def)
  show "DeleteVirtualServer env key c = Some (c', changes, problems) \<Longrightarrow> applyChanges changes (servedKeys c) = servedKeys c'"
    unfolding DeleteVirtualServer_def Let_def
    by (rule delete_outcome_changes [OF c]) (simp_all add: storesInv_deleted(1) [OF inv] sameHeld_def sameListenerInputs_def)
  show "DeleteVirtualServerRoute env key c = Some (c', changes, problems) \<Longrightarrow> applyChanges changes (servedKeys c) = servedKeys c'"
    unfolding DeleteVirtualServerRoute_def Let_def
    by (rule delete_outcome_changes [OF c]) (simp_all add: storesInv_deleted(2) [OF inv] sameHeld_def sameListenerInputs_def)
  assume o: "DeleteTransportServer env key c = Some (c', changes, problems)"
  show "applyChanges changes (servedKeys c) = servedKeys c'"
  proof (cases "gget (cfg_transportServers c) key = None")
    case True
    with o show ?thesis
      by (auto simp: DeleteTransportServer_def applyChanges_def)
  next
    case False
    let ?d = "c\<lparr>cfg_transportServers := gdel (cfg_transportServers c) key\<rparr>"
    have "sameHeld c ?d"
      by (simp add: sameHeld_def)
    then show ?thesis
      by (rule both_changes [OF c storesInv_deleted(3) [OF inv]])
        (use False o in \<open>auto simp: DeleteTransportServer_def split: if_splits\<close>)
  qed
qed

lemma GlobalConfiguration_changes:
  assumes c: "configInv env c"
  shows "map_option fst (AddOrUpdateGlobalConfiguration env gc c) = Some (c', changes, problems) \<Longrightarrow>
      applyChanges changes (servedKeys c) = servedKeys c'"
    and "DeleteGlobalConfiguration env c = Some (c', changes, problems) \<Longrightarrow> applyChanges changes (servedKeys c) = servedKeys c'"
proof -
  note inv = configInvD(1) [OF c]
  {
    assume o: "map_option fst (AddOrUpdateGlobalConfiguration env gc c) = Some (c', changes, problems)"
    obtain gc' errs where v: "ValidateGlobalConfiguration (ce_listener env) gc = (gc', errs)"
      by (cases "ValidateGlobalConfiguration (ce_listener env) gc")
    let ?g = "c\<lparr>cfg_globalConfiguration := Some gc', cfg_listenerMap := setGlobalConfigListenerMap (Some gc')\<rparr>"
    have "sameHeld c ?g"
      by (simp add: sameHeld_def)
    then show "applyChanges changes (servedKeys c) = servedKeys c'"
      by (rule both_changes [OF c storesInv_globalConfiguration(2) [OF inv v]])
        (use o v in \<open>auto simp: AddOrUpdateGlobalConfiguration_def\<close>)
  next
    assume o: "DeleteGlobalConfiguration env c = Some (c', changes, problems)"
    let ?g = "c\<lparr>cfg_globalConfiguration := None, cfg_listenerMap := setGlobalConfigListenerMap None\<rparr>"
    have "sameHeld c ?g"
      by (simp add: sameHeld_def)
    then show "applyChanges changes (servedKeys c) = servedKeys c'"
      by (rule both_changes [OF c storesInv_globalConfiguration(1) [OF inv]])
        (use o in \<open>auto simp: DeleteGlobalConfiguration_def Let_def\<close>)
  }
qed

lemma CompleteStartup_changes:
  assumes c: "configInv env c" and o: "CompleteStartup env c = Some (c', changes, problems)"
  shows "applyChanges changes (servedKeys c) = servedKeys c'"
proof -
  let ?d = "c\<lparr>cfg_startupComplete := True\<rparr>"
  have "heldOk ?d" "storesInv env ?d"
    using configInvD(1,2) [OF c] by (simp_all add: heldOk_def)
  from hosts_changes [OF this(2,1) _ o [unfolded CompleteStartup_def]] apart_inv [OF c] show ?thesis
    by (simp add: servedKeys_def)
qed

text \<open>The one event for which the changes are wrong: a TransportServer with a host leaves TLS passthrough.\<close>

fun leavesPassthrough :: "Configuration \<Rightarrow> event \<Rightarrow> bool" where
  "leavesPassthrough c (UpdateTransportServer ts) =
     (getResourceKeyWithKind transportServerKind (ts_ObjectMeta ts) \<in> deployed id (cfg_hosts c) \<and> \<not> passthrough ts)"
| "leavesPassthrough c _ = False"


section \<open>Who serves a host\<close>

lemma Wins_AddWarnings: "Wins (fold AddWarning ws r) (fold AddWarning ws' r') = Wins r r'"
proof -
  have "Wins (fold AddWarning ws r) r' = Wins r r'" for r r'
    by (induction ws arbitrary: r) simp_all
  moreover have "Wins r (fold AddWarning ws' r') = Wins r r'" for r r'
    by (induction ws' arbitrary: r') simp_all
  ultimately show ?thesis
    by simp
qed

text \<open>The resources of a rebuild are the created ones with warnings.\<close>

lemma stored_created:
  assumes keyed: "keyedStores c" and b: "buildHostsAndResources env c = Some (holders, store)" and rs: "createdResources env c = Some rs"
  shows "gget store k = Some s \<Longrightarrow> \<exists>a \<in> set rs. \<exists>ws. GetKeyWithKind a = k \<and> s = fold AddWarning ws a"
    and "r \<in> set rs \<Longrightarrow> \<exists>ws. gget store (GetKeyWithKind r) = Some (fold AddWarning ws r)"
proof -
  obtain rs' where rs': "createdResources env c = Some rs'" and d: "distinct (map GetKeyWithKind rs')"
    and ci: "resourceClaims.claimInv hostWarning (baseResource rs') (hostClaimsOf rs') (holders, store)"
    and keys: "gkeys store = map GetKeyWithKind rs'"
    using buildHosts_inv [OF keyed b] .
  have eq: "rs' = rs"
    using rs rs' by simp
  have from_rs: "\<exists>a \<in> set rs. \<exists>ws. GetKeyWithKind a = k \<and> s = fold AddWarning ws a" if "gget store k = Some s" for k s
    using built_resource [OF ci d keys that] eq by blast
  then show "gget store k = Some s \<Longrightarrow> \<exists>a \<in> set rs. \<exists>ws. GetKeyWithKind a = k \<and> s = fold AddWarning ws a" .
  assume r: "r \<in> set rs"
  then have "GetKeyWithKind r \<in> set (gkeys store)"
    by (simp add: keys eq)
  then obtain s where s: "gget store (GetKeyWithKind r) = Some s"
    by (auto simp: gkeys_gget)
  from from_rs [OF s] obtain a ws where a: "a \<in> set rs" "GetKeyWithKind a = GetKeyWithKind r" "s = fold AddWarning ws a"
    by blast
  moreover have "a = r"
    using inj_onD [of GetKeyWithKind "set rs" a r] d a(1,2) r by (simp add: eq distinct_map)
  ultimately show "\<exists>ws. gget store (GetKeyWithKind r) = Some (fold AddWarning ws r)"
    using s by blast
qed

lemma built_owner:
  assumes keyed: "keyedStores c" and uids: "distinct (configUIDs c)"
    and b: "buildHostsAndResources env c = Some (holders, store)" and rs: "createdResources env c = Some rs" and r: "r \<in> set rs"
  shows "gget holders h = Some (GetKeyWithKind r) \<longleftrightarrow>
    h \<in> set (hostsOf r) \<and> (\<forall>r' \<in> set rs. h \<in> set (hostsOf r') \<and> GetKeyWithKind r' \<noteq> GetKeyWithKind r \<longrightarrow> Wins r r')"
proof -
  note from_rs = stored_created(1) [OF keyed b rs] and to_store = stored_created(2) [OF keyed b rs]
  have built: "builtHosts (holders, store)"
    by (rule buildHosts_builtHosts [OF keyed b])
  obtain ws where ws: "gget store (GetKeyWithKind r) = Some (fold AddWarning ws r)"
    using to_store [OF r] by blast
  have "gget holders h = Some (GetKeyWithKind r) \<longleftrightarrow> gget (resolve holders store) h = Some (fold AddWarning ws r)"
    using ws by (simp add: resolve_hosts [OF built])
  also have "\<dots> \<longleftrightarrow> h \<in> set (hostsOf r) \<and>
      (\<forall>k' s. gget store k' = Some s \<and> h \<in> set (hostsOf s) \<and> k' \<noteq> GetKeyWithKind r \<longrightarrow> Wins (fold AddWarning ws r) s)"
    unfolding hosts_owned [OF keyed uids b] ownsHost_def using ws by simp
  also have "\<dots> \<longleftrightarrow> h \<in> set (hostsOf r) \<and> (\<forall>r' \<in> set rs. h \<in> set (hostsOf r') \<and> GetKeyWithKind r' \<noteq> GetKeyWithKind r \<longrightarrow> Wins r r')"
    (is "_ \<and> ?A \<longleftrightarrow> _ \<and> ?B")
  proof -
    have ?B if A: ?A
    proof (intro ballI impI)
      fix r'
      assume r': "r' \<in> set rs" "h \<in> set (hostsOf r') \<and> GetKeyWithKind r' \<noteq> GetKeyWithKind r"
      obtain ws' where "gget store (GetKeyWithKind r') = Some (fold AddWarning ws' r')"
        using to_store [OF r'(1)] by blast
      moreover have "h \<in> set (hostsOf (fold AddWarning ws' r'))"
        using r'(2) by (simp only: AddWarnings_simps)
      ultimately have "Wins (fold AddWarning ws r) (fold AddWarning ws' r')"
        using A r'(2) by blast
      then show "Wins r r'"
        by (simp only: Wins_AddWarnings)
    qed
    moreover have ?A if B: ?B
    proof (intro allI impI)
      fix k' s
      assume s: "gget store k' = Some s \<and> h \<in> set (hostsOf s) \<and> k' \<noteq> GetKeyWithKind r"
      then obtain a ws' where "a \<in> set rs" "GetKeyWithKind a = k'" "s = fold AddWarning ws' a"
        using from_rs by blast
      with s B show "Wins (fold AddWarning ws r) s"
        by (simp add: Wins_AddWarnings)
    qed
    ultimately show ?thesis
      by blast
  qed
  finally show ?thesis .
qed

text \<open>
  C2. Who serves a host. In every state of a run after startup, when the stored resources have
  distinct UIDs, a resource serves a host exactly when it claims the host and wins against every other
  resource that claims it, and every host that is claimed is served.
\<close>

theorem reachable_host_owner:
  assumes "reachable env c" and started: "cfg_startupComplete c" and uids: "distinct (configUIDs c)"
  shows "\<exists>rs. createdResources (ce_vsr env) c = Some rs \<and>
    (\<forall>r \<in> set rs. \<forall>h. (\<exists>s. gget (cfg_hosts c) h = Some s \<and> GetKeyWithKind s = GetKeyWithKind r) \<longleftrightarrow>
       h \<in> set (hostsOf r) \<and> (\<forall>r' \<in> set rs. h \<in> set (hostsOf r') \<and> GetKeyWithKind r' \<noteq> GetKeyWithKind r \<longrightarrow> Wins r r')) \<and>
    (\<forall>r \<in> set rs. \<forall>h \<in> set (hostsOf r). gget (cfg_hosts c) h \<noteq> None)"
proof -
  note c = reachable_inv [OF assms(1)]
  note inv = storesInvD [OF configInvD(1) [OF c]]
  obtain holders store0 store pr chs qs where b: "buildHostsAndResources (ce_vsr env) c = Some (holders, store0)"
    and act: "activeHosts (holders, store)"
    and eq: "rebuildHosts (ce_vsr env) c = Some (c\<lparr>cfg_hosts := resolve holders store, cfg_hostProblems := pr\<rparr>, chs, qs)"
    by (rule rebuildHosts_parts [OF inv(1,2), of "ce_vsr env"]) blast
  have "c = c\<lparr>cfg_hosts := resolve holders store, cfg_hostProblems := pr\<rparr>"
    using configInvD(4) [OF c started] eq by (simp add: hostsSettled_def)
  from arg_cong [OF this, of cfg_hosts] have hosts: "cfg_hosts c = resolve holders store"
    by simp
  have built: "builtHosts (holders, store)"
    using act by (simp add: activeHosts_def)
  have held: "(\<exists>s. gget (cfg_hosts c) h = Some s \<and> GetKeyWithKind s = k) \<longleftrightarrow> gget holders h = Some k" for h k
    using resolve_held [OF built] unfolding hosts by (auto simp: resolve_hosts [OF built])
  obtain rs where rs: "createdResources (ce_vsr env) c = Some rs"
    using buildHosts_inv [OF inv(1) b] .
  have "gget (cfg_hosts c) h \<noteq> None" if r: "r \<in> set rs" "h \<in> set (hostsOf r)" for r h
  proof -
    obtain ws where "gget store0 (GetKeyWithKind r) = Some (fold AddWarning ws r)"
      using stored_created(2) [OF inv(1) b rs r(1)] by blast
    from builtHostsD(4) [OF buildHosts_builtHosts [OF inv(1) b] this, of h] r(2) obtain k where "gget holders h = Some k"
      by auto
    with held [of h k] show ?thesis
      by auto
  qed
  with rs built_owner [OF inv(1) uids b rs] show ?thesis
    unfolding held by blast
qed

section \<open>The example run\<close>


theorem reachable_host_owner_witness:
  "\<exists>rs. createdResources (ce_vsr exampleConfigEnv) exampleState = Some rs \<and>
    (\<forall>r \<in> set rs. \<forall>h \<in> set (hostsOf r). gget (cfg_hosts exampleState) h \<noteq> None)"
  using reachable_host_owner [OF example_reachable example_facts(2,3)] by blast

end
