(* ===== verification/Go_Runes.thy ===== *)
theory Go_Runes
  imports Go_Prelude
begin

text \<open>
  The runes of a Go string: \<^verbatim>\<open>for _, char := range value\<close> decodes UTF-8 and yields the replacement
  rune U+FFFD, of width one, for every byte that starts no valid encoding
  (\<^verbatim>\<open>utf8.DecodeRuneInString\<close>). Runes are natural numbers.
\<close>

definition replacementRune :: nat where
  "replacementRune = 65533"

definition byteIn :: "nat \<Rightarrow> nat \<Rightarrow> char \<Rightarrow> bool" where
  "byteIn lo hi c = (lo \<le> of_char c \<and> of_char c \<le> hi)"

text \<open>The value of a continuation byte, and the range of the second byte after a leading one.\<close>

definition low6 :: "char \<Rightarrow> nat" where
  "low6 c = of_char c - 128"

definition secondByte :: "nat \<Rightarrow> char \<Rightarrow> bool" where
  "secondByte b =
     (if b = 224 then byteIn 160 191 else if b = 237 then byteIn 128 159
      else if b = 240 then byteIn 144 191 else if b = 244 then byteIn 128 143
      else byteIn 128 191)"

text \<open>The rune at the head of the string and its width in bytes.\<close>

fun decodeRune :: "string \<Rightarrow> nat \<times> nat" where
  "decodeRune [] = (replacementRune, 0)"
| "decodeRune (c # s) =
     (let b = of_char c; bad = (replacementRune, 1)
      in if b < 128 then (b, 1)
         else if 194 \<le> b \<and> b \<le> 223 then
           (case s of
              c1 # _ \<Rightarrow> if byteIn 128 191 c1 then ((b - 192) * 64 + low6 c1, 2) else bad
            | _ \<Rightarrow> bad)
         else if 224 \<le> b \<and> b \<le> 239 then
           (case s of
              c1 # c2 # _ \<Rightarrow>
                if secondByte b c1 \<and> byteIn 128 191 c2
                then ((b - 224) * 4096 + low6 c1 * 64 + low6 c2, 3) else bad
            | _ \<Rightarrow> bad)
         else if 240 \<le> b \<and> b \<le> 244 then
           (case s of
              c1 # c2 # c3 # _ \<Rightarrow>
                if secondByte b c1 \<and> byteIn 128 191 c2 \<and> byteIn 128 191 c3
                then ((b - 240) * 262144 + low6 c1 * 4096 + low6 c2 * 64 + low6 c3, 4) else bad
            | _ \<Rightarrow> bad)
         else bad)"

declare decodeRune.simps(2) [simp del]

text \<open>Every rune has at least one byte, so the rest after it is shorter.\<close>

fun runes :: "string \<Rightarrow> nat list" where
  "runes [] = []"
| "runes (c # s) = (case decodeRune (c # s) of (r, w) \<Rightarrow> r # runes (drop (w - 1) s))"

text \<open>\<^verbatim>\<open>strings.Builder.WriteRune\<close>: surrogates and runes out of range become the replacement rune.\<close>

definition encodeRune :: "nat \<Rightarrow> string" where
  "encodeRune r0 =
     (let r = (if (55296 \<le> r0 \<and> r0 \<le> 57343) \<or> 1114111 < r0 then replacementRune else r0)
      in map char_of
           (if r < 128 then [r]
            else if r < 2048 then [192 + r div 64, 128 + r mod 64]
            else if r < 65536 then [224 + r div 4096, 128 + r div 64 mod 64, 128 + r mod 64]
            else [240 + r div 262144, 128 + r div 4096 mod 64, 128 + r div 64 mod 64, 128 + r mod 64]))"

text \<open>\<^verbatim>\<open>utf8.ValidString\<close>: no byte decodes to the replacement rune with width one.\<close>

fun validString :: "string \<Rightarrow> bool" where
  "validString [] = True"
| "validString (c # s) =
     (case decodeRune (c # s) of (r, w) \<Rightarrow> (r \<noteq> replacementRune \<or> w \<noteq> 1) \<and> validString (drop (w - 1) s))"

section \<open>Facts on the decoding\<close>

abbreviation asciiByte :: "char \<Rightarrow> bool" where
  "asciiByte c \<equiv> (of_char c :: nat) < 128"

lemma decodeRune_ascii: "asciiByte c \<Longrightarrow> decodeRune (c # s) = (of_char c, 1)"
  by (simp add: decodeRune.simps(2) Let_def)

lemma byteIn_high: "byteIn lo hi c \<Longrightarrow> 128 \<le> lo \<Longrightarrow> \<not> asciiByte c"
  by (auto simp: byteIn_def)

lemma secondByte_high: "secondByte b c \<Longrightarrow> \<not> asciiByte c"
  by (auto simp: secondByte_def split: if_splits dest: byteIn_high)

text \<open>A byte that is not ASCII starts a rune that is not ASCII, and no byte of it is.\<close>

lemma decodeRune_high:
  assumes "\<not> asciiByte c" and "decodeRune (c # s) = (r, w)"
  shows "128 \<le> r" and "1 \<le> w" and "w \<le> Suc (length s)" and "\<forall>x \<in> set (take (w - 1) s). \<not> asciiByte x"
  using assms
  by (auto simp: decodeRune.simps(2) Let_def replacementRune_def low6_def byteIn_def secondByte_def
      split: if_splits list.splits)

lemma runes_ascii [simp]: "asciiByte c \<Longrightarrow> runes (c # s) = of_char c # runes s"
  by (simp add: decodeRune_ascii)

text \<open>
  A loop over the runes is a loop over the bytes, when the loop does not tell runes apart that are
  not ASCII and a second such rune changes nothing.
\<close>

lemma fold_runes:
  assumes inv: "\<And>r st. I st \<Longrightarrow> I (f r st)" and high: "\<And>r st. I st \<Longrightarrow> 128 \<le> r \<Longrightarrow> f r st = f 128 st"
    and twice: "\<And>st. I st \<Longrightarrow> f 128 (f 128 st) = f 128 st" and "I st"
  shows "fold f (runes s) st = fold f (map of_char s) st"
  using \<open>I st\<close>
proof (induction s arbitrary: st rule: runes.induct)
  case (2 c s)
  have IH: "fold f (runes (drop (w - 1) s)) st = fold f (map of_char (drop (w - 1) s)) st"
    if "decodeRune (c # s) = (r, w)" "I st" for r w st
    using 2 that by simp
  show ?case
  proof (cases "asciiByte c")
    case True
    then show ?thesis
      using IH [of "of_char c" 1] inv [OF \<open>I st\<close>] by (simp add: decodeRune_ascii)
  next
    case False
    obtain r w where d: "decodeRune (c # s) = (r, w)"
      by fastforce
    note h = decodeRune_high [OF False d]
    have skip: "fold f (map of_char xs) (f 128 st) = f 128 st" if "\<forall>x \<in> set xs. \<not> asciiByte x" for xs :: string
      using that
    proof (induction xs)
      case (Cons x xs)
      then have "f (of_char x) (f 128 st) = f 128 st"
        using high [of "f 128 st" "of_char x"] twice inv \<open>I st\<close> by simp
      with Cons show ?case
        by simp
    qed simp
    have "fold f (map of_char (c # s)) st = fold f (map of_char s) (f 128 st)"
      using high [of st "of_char c"] False \<open>I st\<close> by simp
    also have "\<dots> = fold f (map of_char (drop (w - 1) s)) (fold f (map of_char (take (w - 1) s)) (f 128 st))"
      by (metis append_take_drop_id comp_apply fold_append map_append)
    also have "\<dots> = fold f (map of_char (drop (w - 1) s)) (f 128 st)"
      using skip [OF h(4)] by simp
    finally show ?thesis
      using d IH [OF d] high [OF _ h(1)] inv \<open>I st\<close> by simp
  qed
qed simp

text \<open>Encoding the runes of valid UTF-8 gives the string back.\<close>

lemma digit64: "y < 64 \<Longrightarrow> (x * 64 + y) div 64 = x" "y < 64 \<Longrightarrow> (x * 64 + y) mod 64 = y" for x y :: nat
  by simp_all

lemma div64: "n div 4096 = n div 64 div 64" "n div 262144 = n div 64 div 64 div 64" for n :: nat
  by (simp_all add: div_mult2_eq [symmetric])

lemma horner64:
  "x * 4096 + y * 64 + z = (x * 64 + y) * 64 + z" "x * 262144 + y * 4096 + z * 64 + t = ((x * 64 + y) * 64 + z) * 64 + t"
  for x y z t :: nat
  by simp_all

lemma digits3:
  fixes x y z :: nat
  assumes "r = x * 4096 + y * 64 + z" and "y < 64" "z < 64"
  shows "r div 4096 = x" "r div 64 mod 64 = y" "r mod 64 = z"
  using assms(2,3) by (simp_all only: assms(1) div64 horner64 digit64)

lemma digits4:
  fixes x y z t :: nat
  assumes "r = x * 262144 + y * 4096 + z * 64 + t" and "y < 64" "z < 64" "t < 64"
  shows "r div 262144 = x" "r div 4096 mod 64 = y" "r div 64 mod 64 = z" "r mod 64 = t"
  using assms(2-4) by (simp_all only: assms(1) div64 horner64 digit64)

lemma low6_cont: "byteIn 128 191 c \<Longrightarrow> low6 c < 64 \<and> char_of (128 + low6 c) = c"
  by (auto simp: byteIn_def low6_def)

lemma secondByte_cont: "secondByte b c \<Longrightarrow> byteIn 128 191 c"
  by (auto simp: secondByte_def byteIn_def split: if_splits)

lemma encode2:
  assumes "194 \<le> b" "b \<le> 223" "byteIn 128 191 c1"
  shows "encodeRune ((b - 192) * 64 + low6 c1) = [char_of b, c1]"
proof -
  let ?r = "(b - 192) * 64 + low6 c1"
  note l = low6_cont [OF assms(3)]
  have "128 \<le> ?r" "?r < 2048"
    using assms(1,2) l by auto
  with l assms(1) show ?thesis
    by (simp add: encodeRune_def Let_def digit64)
qed

lemma encode3:
  assumes "224 \<le> b" "b \<le> 239" "secondByte b c1" "byteIn 128 191 c2"
  shows "encodeRune ((b - 224) * 4096 + low6 c1 * 64 + low6 c2) = [char_of b, c1, c2]"
proof -
  define r where "r = (b - 224) * 4096 + low6 c1 * 64 + low6 c2"
  note l = low6_cont [OF secondByte_cont [OF assms(3)]] low6_cont [OF assms(4)]
  have first: "b = 224 \<Longrightarrow> 32 \<le> low6 c1" and sur: "b = 237 \<Longrightarrow> low6 c1 < 32"
    using assms(3) by (auto simp: secondByte_def byteIn_def low6_def)
  have "2048 \<le> r" "r < 65536"
    using assms(1,2) l first unfolding r_def by (cases "b = 224"; simp; arith)+
  moreover have "\<not> (55296 \<le> r \<and> r \<le> 57343)"
  proof (cases "b = 237")
    case True
    then show ?thesis using sur l by (simp add: r_def)
  next
    case False
    then have "b - 224 \<le> 12 \<or> 14 \<le> b - 224"
      using assms(1) by arith
    then show ?thesis using l unfolding r_def by arith
  qed
  moreover have "r div 4096 = b - 224" "r div 64 mod 64 = low6 c1" "r mod 64 = low6 c2"
    using digits3 [OF r_def] l by blast+
  ultimately have "encodeRune r = [char_of b, c1, c2]"
    using l assms(1) by (auto simp: encodeRune_def Let_def)
  then show ?thesis
    by (simp only: r_def)
qed

lemma encode4:
  assumes "240 \<le> b" "b \<le> 244" "secondByte b c1" "byteIn 128 191 c2" "byteIn 128 191 c3"
  shows "encodeRune ((b - 240) * 262144 + low6 c1 * 4096 + low6 c2 * 64 + low6 c3) = [char_of b, c1, c2, c3]"
proof -
  define r where "r = (b - 240) * 262144 + low6 c1 * 4096 + low6 c2 * 64 + low6 c3"
  note l = low6_cont [OF secondByte_cont [OF assms(3)]] low6_cont [OF assms(4)] low6_cont [OF assms(5)]
  have first: "b = 240 \<Longrightarrow> 16 \<le> low6 c1" and last: "b = 244 \<Longrightarrow> low6 c1 < 16"
    using assms(3) by (auto simp: secondByte_def byteIn_def low6_def)
  have "65536 \<le> r"
    using assms(1) first unfolding r_def by (cases "b = 240") (simp, arith)+
  moreover have "r \<le> 1114111"
    using assms(2) last l unfolding r_def by (cases "b = 244") (simp, arith)+
  moreover have "r div 262144 = b - 240" "r div 4096 mod 64 = low6 c1" "r div 64 mod 64 = low6 c2" "r mod 64 = low6 c3"
    using digits4 [OF r_def] l by blast+
  ultimately have "encodeRune r = [char_of b, c1, c2, c3]"
    using l assms(1) by (auto simp: encodeRune_def Let_def)
  then show ?thesis
    by (simp only: r_def)
qed

lemma encode_decodeRune:
  assumes "decodeRune (c # s) = (r, w)" and "r \<noteq> replacementRune \<or> w \<noteq> 1"
  shows "encodeRune r = take w (c # s)"
  using assms encode2 [of "of_char c"] encode3 [of "of_char c"] encode4 [of "of_char c"]
  by (auto simp: decodeRune.simps(2) Let_def encodeRune_def [of "of_char c"] split: if_splits list.splits)

lemma encode_runes: "validString s \<Longrightarrow> concat (map encodeRune (runes s)) = s"
proof (induction s rule: runes.induct)
  case (2 c s)
  obtain r w where d: "decodeRune (c # s) = (r, w)"
    by fastforce
  with 2 have v: "r \<noteq> replacementRune \<or> w \<noteq> 1" "validString (drop (w - 1) s)"
    by auto
  have "1 \<le> w"
    using d decodeRune_ascii decodeRune_high(2) by (cases "asciiByte c") fastforce+
  then have "take w (c # s) @ drop (w - 1) s = c # s"
    by (cases w) auto
  with 2 d v show ?case
    by (simp add: encode_decodeRune [OF d v(1)])
qed simp

end
