(* ===== verification/Nginx_Values.thy ===== *)
theory Nginx_Values
  imports Go_Runes Go_Numbers
begin

text \<open>
  The checks of \<^verbatim>\<open>internal/validation/nginx.go\<close> on values that are rendered into the NGINX
  configuration: \<^verbatim>\<open>ValidateDirectiveValue\<close> with its scanner, the checks for quoted values and
  single tokens, \<^verbatim>\<open>ValidateTLSProtocols\<close> and \<^verbatim>\<open>UnescapeNGINXToken\<close>.

  The scanner is shown to accept exactly the texts of a token grammar: words and quoted arguments
  with white space between them, in which every delimiter of a directive is quoted, escaped or
  part of a braced variable.
\<close>

section \<open>The scanner\<close>

datatype directiveError =
    EmptyValue | DirectiveDelimiter | NoSpaceAfterQuote | Unbalanced | LineBreak | UnescapedQuote
  | TrailingBackslash | NotSingleToken | InvalidUTF8 | NotPrintable | NoProtocol | UnsupportedProtocol string

abbreviation rune :: "char \<Rightarrow> nat" where
  "rune c \<equiv> of_char c"

abbreviation backslash :: char where "backslash \<equiv> CHR 0x5C"
abbreviation dquote :: char where "dquote \<equiv> CHR 0x22"
abbreviation squote :: char where "squote \<equiv> CHR 0x27"

record directiveScanner =
  ds_quote :: nat
  ds_escaped :: bool
  ds_tokenBoundary :: bool
  ds_needSpace :: bool

definition insideQuote :: "nat \<Rightarrow> directiveScanner \<Rightarrow> directiveScanner" where
  "insideQuote char s =
     (if char = rune backslash then s\<lparr>ds_escaped := True\<rparr>
      else if char = ds_quote s then s\<lparr>ds_quote := 0, ds_needSpace := True\<rparr>
      else s)"

definition isNginxSpace :: "nat \<Rightarrow> bool" where
  "isNginxSpace char = (char = 32 \<or> char = 9 \<or> char = 13 \<or> char = 10)"

definition isQuoteRune :: "nat \<Rightarrow> bool" where
  "isQuoteRune char = (char = rune squote \<or> char = rune dquote)"

definition isDelimiterRune :: "nat \<Rightarrow> bool" where
  "isDelimiterRune char = (char = rune CHR ''#'' \<or> char \<in> {rune CHR '';'', rune CHR ''{'', rune CHR ''}''})"

definition isForbiddenRune :: "nat \<Rightarrow> bool" where
  "isForbiddenRune char = (char = 13 \<or> char = 10 \<or> char = rune CHR 0x60)"

definition outsideQuote :: "nat \<Rightarrow> directiveScanner \<Rightarrow> directiveError + directiveScanner" where
  "outsideQuote char s =
     (if ds_needSpace s then
        if \<not> isNginxSpace char then Inl NoSpaceAfterQuote
        else Inr (s\<lparr>ds_needSpace := False, ds_tokenBoundary := True\<rparr>)
      else if isNginxSpace char then Inr (s\<lparr>ds_tokenBoundary := True\<rparr>)
      else if char = rune backslash then Inr (s\<lparr>ds_escaped := True, ds_tokenBoundary := False\<rparr>)
      else if isQuoteRune char then
        Inr ((if ds_tokenBoundary s then s\<lparr>ds_quote := char\<rparr> else s)\<lparr>ds_tokenBoundary := False\<rparr>)
      else if isDelimiterRune char then Inl DirectiveDelimiter
      else Inr (s\<lparr>ds_tokenBoundary := False\<rparr>))"

definition nextRune :: "nat \<Rightarrow> directiveScanner \<Rightarrow> directiveError + directiveScanner" where
  "nextRune char s =
     (if isForbiddenRune char then Inl DirectiveDelimiter
      else if ds_escaped s then Inr (s\<lparr>ds_escaped := False, ds_tokenBoundary := False\<rparr>)
      else if ds_quote s \<noteq> 0 then Inr (insideQuote char s)
      else outsideQuote char s)"

definition atEnd :: "directiveScanner \<Rightarrow> directiveError option" where
  "atEnd s = (if ds_escaped s \<or> ds_quote s \<noteq> 0 then Some Unbalanced else None)"

section \<open>Braced variables\<close>

definition isNginxVariableStart :: "char \<Rightarrow> bool" where
  "isNginxVariableStart c = (c = CHR ''_'' \<or> byteIn 65 90 c \<or> byteIn 97 122 c)"

definition isNginxVariableChar :: "char \<Rightarrow> bool" where
  "isNginxVariableChar c = (isNginxVariableStart c \<or> byteIn 48 57 c)"

fun backslashesBefore :: "string \<Rightarrow> nat \<Rightarrow> nat" where
  "backslashesBefore v 0 = 0"
| "backslashesBefore v (Suc i) = (if v ! i = backslash then Suc (backslashesBefore v i) else 0)"

definition isEscaped :: "string \<Rightarrow> nat \<Rightarrow> bool" where
  "isEscaped v i = (backslashesBefore v i mod 2 \<noteq> 0)"

function skipVariable :: "string \<Rightarrow> nat \<Rightarrow> nat" where
  "skipVariable v e = (if e < length v \<and> isNginxVariableChar (v ! e) then skipVariable v (Suc e) else e)"
  by pat_completeness auto
termination
  by (relation "measure (\<lambda>(v, e). length v - e)") auto

declare skipVariable.simps [simp del]

definition bracedNginxVariableEnd :: "string \<Rightarrow> nat \<Rightarrow> nat option" where
  "bracedNginxVariableEnd v start =
     (if start + 3 > length v \<or> v ! start \<noteq> CHR ''$'' \<or> v ! (start + 1) \<noteq> CHR ''{'' \<or> isEscaped v start \<or>
         \<not> isNginxVariableStart (v ! (start + 2)) then None
      else
        (let end = skipVariable v (start + 3)
         in if end = length v \<or> v ! end \<noteq> CHR ''}'' then None else Some (end + 1)))"

lemma skipVariable_le: "e \<le> skipVariable v e"
  by (induction v e rule: skipVariable.induct) (subst skipVariable.simps, auto)

lemma bracedEnd_progress: "bracedNginxVariableEnd v i = Some e \<Longrightarrow> i < e"
  using skipVariable_le [of "i + 3" v] by (auto simp: bracedNginxVariableEnd_def Let_def split: if_splits)

function maskFrom :: "string \<Rightarrow> nat \<Rightarrow> string" where
  "maskFrom v i =
     (if i < length v then
        (case bracedNginxVariableEnd v i of
           Some e \<Rightarrow> ''$variable'' @ maskFrom v e
         | None \<Rightarrow> v ! i # maskFrom v (Suc i))
      else [])"
  by pat_completeness auto
termination
  by (relation "measure (\<lambda>(v, i). length v - i)") (auto dest: bracedEnd_progress)

declare maskFrom.simps [simp del]

definition maskBracedNginxVariables :: "string \<Rightarrow> string" where
  "maskBracedNginxVariables v = maskFrom v 0"

section \<open>The checks\<close>

definition scanStep :: "nat \<Rightarrow> directiveError + directiveScanner \<Rightarrow> directiveError + directiveScanner" where
  "scanStep char st = (case st of Inl e \<Rightarrow> Inl e | Inr s \<Rightarrow> nextRune char s)"

definition startScanner :: directiveScanner where
  "startScanner = \<lparr>ds_quote = 0, ds_escaped = False, ds_tokenBoundary = True, ds_needSpace = False\<rparr>"

definition ValidateDirectiveValue :: "string \<Rightarrow> directiveError option" where
  "ValidateDirectiveValue v =
     (if trimSpace v = [] then Some EmptyValue
      else case fold scanStep (runes (maskBracedNginxVariables v)) (Inr startScanner) of
             Inl e \<Rightarrow> Some e
           | Inr s \<Rightarrow> atEnd s)"

definition ValidateDirectiveToken :: "string \<Rightarrow> directiveError option" where
  "ValidateDirectiveToken v =
     (if v = [] then Some EmptyValue
      else case ValidateDirectiveValue v of
             Some e \<Rightarrow> Some e
           | None \<Rightarrow>
               if list_ex (\<lambda>c. c \<in> {CHR ''#'', backslash, CHR '' '', CHR 0x09}) v then Some NotSingleToken else None)"

text \<open>
  The loop of \<^verbatim>\<open>ValidateSingleQuotedDirectiveValue\<close> and \<^verbatim>\<open>ValidateQuotedDirectiveValue\<close>, which differ
  in the quote.
\<close>

fun quotedLoop :: "char \<Rightarrow> bool \<Rightarrow> nat list \<Rightarrow> directiveError option" where
  "quotedLoop q escaped [] = (if escaped then Some TrailingBackslash else None)"
| "quotedLoop q escaped (char # rs) =
     (if char = 13 \<or> char = 10 then Some LineBreak
      else if escaped then quotedLoop q False rs
      else if char = rune backslash then quotedLoop q True rs
      else if char = rune q then Some UnescapedQuote
      else quotedLoop q escaped rs)"

definition ValidateSingleQuotedDirectiveValue :: "string \<Rightarrow> directiveError option" where
  "ValidateSingleQuotedDirectiveValue v = quotedLoop squote False (runes v)"

definition ValidateQuotedDirectiveValue :: "string \<Rightarrow> directiveError option" where
  "ValidateQuotedDirectiveValue v = quotedLoop dquote False (runes v)"

text \<open>\<^verbatim>\<open>unicode.IsPrint\<close>, a table of the Go library, is a parameter.\<close>

definition ValidateRawQuotedDirectiveValue :: "(nat \<Rightarrow> bool) \<Rightarrow> string \<Rightarrow> directiveError option" where
  "ValidateRawQuotedDirectiveValue isPrint v =
     (if \<not> validString v then Some InvalidUTF8
      else if list_ex (\<lambda>r. \<not> isPrint r) (runes v) then Some NotPrintable
      else None)"

text \<open>\<^verbatim>\<open>strings.FieldsFunc\<close> with a predicate that holds of ASCII characters only.\<close>

function fieldsBy :: "(char \<Rightarrow> bool) \<Rightarrow> string \<Rightarrow> string list" where
  "fieldsBy sep [] = []"
| "fieldsBy sep (c # s) =
     (if sep c then fieldsBy sep s
      else (c # takeWhile (\<lambda>x. \<not> sep x) s) # fieldsBy sep (dropWhile (\<lambda>x. \<not> sep x) s))"
  by pat_completeness auto
termination
  by (relation "measure (\<lambda>(sep, s). length s)") (auto simp: le_imp_less_Suc length_dropWhile_le)

definition validTLSProtocols :: "string list" where
  "validTLSProtocols = [''sslv2'', ''sslv3'', ''tlsv1'', ''tlsv1.1'', ''tlsv1.2'', ''tlsv1.3'']"

definition ValidateTLSProtocols :: "string \<Rightarrow> directiveError option" where
  "ValidateTLSProtocols v =
     (let protocols = fieldsBy (\<lambda>c. isNginxSpace (rune c)) v
      in if protocols = [] then Some NoProtocol
         else map_option UnsupportedProtocol (find (\<lambda>p. toLower p \<notin> set validTLSProtocols) protocols))"

fun unescapeRunes :: "nat list \<Rightarrow> nat list" where
  "unescapeRunes [] = []"
| "unescapeRunes [r] = [r]"
| "unescapeRunes (r # next # rs) =
     (if r \<noteq> rune backslash then r # unescapeRunes (next # rs)
      else if next \<in> {rune dquote, rune squote, rune backslash} then next # unescapeRunes rs
      else if next = rune CHR ''t'' then 9 # unescapeRunes rs
      else if next = rune CHR ''r'' then 13 # unescapeRunes rs
      else if next = rune CHR ''n'' then 10 # unescapeRunes rs
      else rune backslash # next # unescapeRunes rs)"

definition UnescapeNGINXToken :: "string \<Rightarrow> string" where
  "UnescapeNGINXToken v = concat (map encodeRune (unescapeRunes (runes v)))"

section \<open>Masking on the rest of the text\<close>

text \<open>A braced variable at the head of a text: its name and the text after it.\<close>

definition bracedVariable :: "string \<Rightarrow> (string \<times> string) option" where
  "bracedVariable cs =
     (case cs of
        d # b # c # r \<Rightarrow>
          if d = CHR ''$'' \<and> b = CHR ''{'' \<and> isNginxVariableStart c then
            (case dropWhile isNginxVariableChar r of
               e # rest \<Rightarrow> if e = CHR ''}'' then Some (c # takeWhile isNginxVariableChar r, rest) else None
             | [] \<Rightarrow> None)
          else None
      | _ \<Rightarrow> None)"

definition variableName :: "string \<Rightarrow> bool" where
  "variableName n = (n \<noteq> [] \<and> isNginxVariableStart (hd n) \<and> list_all isNginxVariableChar n)"

lemma close_no_variable: "\<not> isNginxVariableChar CHR ''}''"
  by (simp add: isNginxVariableChar_def isNginxVariableStart_def byteIn_def)

lemma bracedVariable_iff:
  "bracedVariable cs = Some (n, rest) \<longleftrightarrow> cs = ''${'' @ n @ CHR ''}'' # rest \<and> variableName n"
proof
  assume "bracedVariable cs = Some (n, rest)"
  then obtain c r where cs: "cs = CHR ''$'' # CHR ''{'' # c # r" "isNginxVariableStart c"
    and r: "dropWhile isNginxVariableChar r = CHR ''}'' # rest" "n = c # takeWhile isNginxVariableChar r"
    by (auto simp: bracedVariable_def split: list.splits if_splits)
  have "r = takeWhile isNginxVariableChar r @ CHR ''}'' # rest"
    using takeWhile_dropWhile_id [of isNginxVariableChar r] r(1) by simp
  moreover have "variableName n"
    using cs(2) r(2) set_takeWhileD by (fastforce simp: variableName_def list_all_iff isNginxVariableChar_def)
  ultimately show "cs = ''${'' @ n @ CHR ''}'' # rest \<and> variableName n"
    using cs(1) r(2) by simp
next
  assume a: "cs = ''${'' @ n @ CHR ''}'' # rest \<and> variableName n"
  then obtain c m where n: "n = c # m" "isNginxVariableStart c" "\<forall>x \<in> set m. isNginxVariableChar x"
    by (cases n) (auto simp: variableName_def list_all_iff)
  then have "takeWhile isNginxVariableChar (m @ CHR ''}'' # rest) = m"
    "dropWhile isNginxVariableChar (m @ CHR ''}'' # rest) = CHR ''}'' # rest"
    using close_no_variable by (auto simp: takeWhile_append2 dropWhile_append2)
  with a n show "bracedVariable cs = Some (n, rest)"
    by (simp add: bracedVariable_def)
qed

function maskList :: "bool \<Rightarrow> string \<Rightarrow> string" where
  "maskList esc [] = []"
| "maskList esc (c # cs) =
     (case (if esc then None else bracedVariable (c # cs)) of
        Some (n, rest) \<Rightarrow> ''$variable'' @ maskList False rest
      | None \<Rightarrow> c # maskList (c = backslash \<and> \<not> esc) cs)"
  by pat_completeness auto
termination
  by (relation "measure (\<lambda>(esc, cs). length cs)") (auto simp: bracedVariable_iff split: if_splits)

declare maskList.simps(2) [simp del]

lemma skipVariable_eq: "e \<le> length v \<Longrightarrow> skipVariable v e = e + length (takeWhile isNginxVariableChar (drop e v))"
proof (induction v e rule: skipVariable.induct)
  case (1 v e)
  show ?case
  proof (cases "e < length v")
    case True
    then have "drop e v = v ! e # drop (Suc e) v"
      by (simp add: Cons_nth_drop_Suc)
    with 1 True show ?thesis
      by (subst skipVariable.simps) simp
  qed (use 1 in \<open>subst skipVariable.simps, simp\<close>)
qed

lemma isEscaped_Suc: "i < length v \<Longrightarrow> isEscaped v (Suc i) = (v ! i = backslash \<and> \<not> isEscaped v i)"
  by (simp add: isEscaped_def) presburger

lemma bracedEnd_eq:
  assumes "i < length v"
  shows "bracedNginxVariableEnd v i =
    (if isEscaped v i then None else map_option (\<lambda>(n, rest). length v - length rest) (bracedVariable (drop i v)))"
proof (cases "i + 3 \<le> length v")
  case False
  then have "bracedVariable (drop i v) = None"
    by (auto simp: bracedVariable_def split: list.splits dest!: arg_cong [where f = length])
  with False show ?thesis
    by (simp add: bracedNginxVariableEnd_def)
next
  case True
  have d: "drop i v = v ! i # v ! (i + 1) # v ! (i + 2) # drop (i + 3) v"
    using True by (metis (no_types, lifting) Cons_nth_drop_Suc One_nat_def Suc_le_lessD add.commute add_2_eq_Suc
        add_Suc_right numeral_3_eq_3 order_less_le_trans plus_1_eq_Suc lessI add.right_neutral less_SucI)
  let ?e = "skipVariable v (i + 3)"
  have e: "?e = i + 3 + length (takeWhile isNginxVariableChar (drop (i + 3) v))"
    by (rule skipVariable_eq [OF True])
  have rest: "dropWhile isNginxVariableChar (drop (i + 3) v) = drop ?e v"
    unfolding e by (simp add: dropWhile_eq_drop add.commute)
  have "?e \<le> length v"
    unfolding e using length_takeWhile_le [of isNginxVariableChar "drop (i + 3) v"] True by simp
  then show ?thesis
    using True by (cases "?e = length v")
      (auto simp: bracedNginxVariableEnd_def bracedVariable_def d rest Let_def Cons_nth_drop_Suc [symmetric] split: list.splits)
qed

lemma maskFrom_list: "i \<le> length v \<Longrightarrow> maskFrom v i = maskList (isEscaped v i) (drop i v)"
proof (induction v i rule: maskFrom.induct)
  case (1 v i)
  show ?case
  proof (cases "i < length v")
    case True
    then have d: "drop i v = v ! i # drop (Suc i) v"
      by (simp add: Cons_nth_drop_Suc)
    show ?thesis
    proof (cases "bracedNginxVariableEnd v i")
      case None
      then have "(if isEscaped v i then None else bracedVariable (v ! i # drop (Suc i) v)) = None"
        by (auto simp: bracedEnd_eq [OF True] d split: if_splits)
      with 1(1) [OF True None] True d show ?thesis
        by (subst maskFrom.simps) (simp add: None maskList.simps(2) isEscaped_Suc)
    next
      case (Some e)
      then obtain n rest where b: "\<not> isEscaped v i" "bracedVariable (drop i v) = Some (n, rest)" "e = length v - length rest"
        by (auto simp: bracedEnd_eq [OF True] split: if_splits)
      then have v: "v = take i v @ ''${'' @ n @ CHR ''}'' # rest"
        using bracedVariable_iff by (metis append_take_drop_id)
      define p where "p = take i v @ ''${'' @ n"
      have p: "v = p @ CHR ''}'' # rest"
        using v by (simp add: p_def)
      have e: "e = Suc (length p)"
        using b(3) unfolding p by simp
      have "\<not> isEscaped v e"
        unfolding e by (subst isEscaped_Suc) (simp_all add: p)
      moreover have "e \<le> length v" "drop e v = rest"
        unfolding e p by simp_all
      ultimately have "maskFrom v e = maskList False rest"
        using 1(2) [OF True Some] by simp
      with b d True Some show ?thesis
        by (subst maskFrom.simps) (simp add: maskList.simps(2))
    qed
  next
    case False
    with 1(3) show ?thesis
      by (subst maskFrom.simps) simp
  qed
qed

section \<open>Scanning byte by byte\<close>

text \<open>The states the scanner can be in.\<close>

definition scanner :: "nat \<Rightarrow> bool \<Rightarrow> bool \<Rightarrow> bool \<Rightarrow> directiveScanner" where
  "scanner q e b n = \<lparr>ds_quote = q, ds_escaped = e, ds_tokenBoundary = b, ds_needSpace = n\<rparr>"

abbreviation boundary :: directiveScanner where "boundary \<equiv> scanner 0 False True False"
abbreviation inWord :: directiveScanner where "inWord \<equiv> scanner 0 False False False"
abbreviation inQuote :: "char \<Rightarrow> directiveScanner" where "inQuote q \<equiv> scanner (rune q) False False False"
abbreviation afterQuote :: directiveScanner where "afterQuote \<equiv> scanner 0 False False True"

abbreviation isQuote :: "char \<Rightarrow> bool" where
  "isQuote q \<equiv> isQuoteRune (rune q)"

abbreviation badByte :: "char \<Rightarrow> bool" where
  "badByte c \<equiv> isForbiddenRune (rune c)"

abbreviation spaceByte :: "char \<Rightarrow> bool" where
  "spaceByte c \<equiv> isNginxSpace (rune c)"

abbreviation delimiter :: "char \<Rightarrow> bool" where
  "delimiter c \<equiv> isDelimiterRune (rune c)"

lemma rune_backslash: "rune c = rune backslash \<longleftrightarrow> c = backslash"
  by (rule of_char_eq_iff)

lemma high_runes:
  assumes "128 \<le> r"
  shows "\<not> isNginxSpace r" "\<not> isQuoteRune r" "\<not> isDelimiterRune r" "\<not> isForbiddenRune r" "r \<noteq> rune backslash"
  using assms by (auto simp: isNginxSpace_def isQuoteRune_def isDelimiterRune_def isForbiddenRune_def)

definition accepted :: "directiveError + directiveScanner \<Rightarrow> bool" where
  "accepted st = (case st of Inl e \<Rightarrow> False | Inr s \<Rightarrow> atEnd s = None)"

text \<open>Does the scanner accept the rest of the text?\<close>

definition accepts :: "directiveScanner \<Rightarrow> string \<Rightarrow> bool" where
  "accepts s cs = accepted (fold scanStep (map rune (maskList (ds_escaped s) cs)) (Inr s))"

lemma scanStep_simps [simp]: "scanStep r (Inr s) = nextRune r s" "scanStep r (Inl e) = Inl e"
  by (simp_all add: scanStep_def)

lemma accepted_Inl [simp]: "\<not> accepted (Inl e)"
  by (simp add: accepted_def)

lemma scan_Inl [simp]: "fold scanStep rs (Inl e) = Inl e"
  by (induction rs) (simp_all add: scanStep_def)

text \<open>An open quote is one of the two, and white space is only needed outside.\<close>

definition scannerInv :: "directiveScanner \<Rightarrow> bool" where
  "scannerInv s = ((ds_quote s = 0 \<or> isQuoteRune (ds_quote s)) \<and> (ds_needSpace s \<longrightarrow> \<not> ds_escaped s \<and> ds_quote s = 0))"

lemma scannerInv_outsideQuote:
  assumes "outsideQuote r s = Inr s'" "scannerInv s" "\<not> ds_escaped s" "ds_quote s = 0"
  shows "scannerInv s'"
  using assms by (auto simp: outsideQuote_def scannerInv_def split: if_splits)

lemma scannerInv_insideQuote:
  assumes "scannerInv s" "\<not> ds_escaped s" "ds_quote s \<noteq> 0"
  shows "scannerInv (insideQuote r s)"
  using assms by (auto simp: insideQuote_def scannerInv_def)

lemma scannerInv_next:
  assumes "nextRune r s = Inr s'" "scannerInv s"
  shows "scannerInv s'"
proof -
  have "scannerInv (s\<lparr>ds_escaped := False, ds_tokenBoundary := False\<rparr>)" if "ds_escaped s"
    using assms(2) that by (auto simp: scannerInv_def)
  with assms scannerInv_outsideQuote [of r s s'] scannerInv_insideQuote [of s r] show ?thesis
    by (auto simp: nextRune_def split: if_splits)
qed

lemma high_step:
  assumes "128 \<le> r" and "scannerInv s"
  shows "nextRune r s =
    (if ds_escaped s then Inr (s\<lparr>ds_escaped := False, ds_tokenBoundary := False\<rparr>) else if ds_quote s \<noteq> 0 then Inr s
     else if ds_needSpace s then Inl NoSpaceAfterQuote else Inr (s\<lparr>ds_tokenBoundary := False\<rparr>))"
proof -
  have "ds_quote s \<noteq> 0 \<Longrightarrow> r \<noteq> ds_quote s"
    using assms high_runes(2) by (auto simp: scannerInv_def)
  with high_runes [OF assms(1)] show ?thesis
    by (simp add: nextRune_def insideQuote_def outsideQuote_def)
qed

lemma scan_bytes:
  "fold scanStep (runes cs) (Inr startScanner) = fold scanStep (map rune cs) (Inr startScanner)"
proof (rule fold_runes [where I = "\<lambda>st. case st of Inl e \<Rightarrow> True | Inr s \<Rightarrow> scannerInv s"])
  fix r :: nat and st :: "directiveError + directiveScanner"
  assume I: "case st of Inl e \<Rightarrow> True | Inr s \<Rightarrow> scannerInv s"
  show "case scanStep r st of Inl e \<Rightarrow> True | Inr s \<Rightarrow> scannerInv s"
    using I scannerInv_next by (auto simp: scanStep_def split: sum.splits)
  show "scanStep r st = scanStep 128 st" if "128 \<le> r"
    using I high_step [OF that] high_step [of 128] by (auto simp: scanStep_def split: sum.splits)
  show "scanStep 128 (scanStep 128 st) = scanStep 128 st"
  proof (cases st)
    case (Inr s)
    with I have s: "scannerInv s"
      by simp
    then have "scannerInv (s\<lparr>ds_escaped := False, ds_tokenBoundary := False\<rparr>)" "scannerInv (s\<lparr>ds_tokenBoundary := False\<rparr>)"
      by (auto simp: scannerInv_def)
    with s Inr high_step [of 128] show ?thesis
      by (auto simp: scanStep_def scannerInv_def)
  qed (simp add: scanStep_def)
qed (simp add: startScanner_def scannerInv_def)

lemma scanner_simps [simp]:
  "ds_quote (scanner q e b n) = q" "ds_escaped (scanner q e b n) = e"
  "ds_tokenBoundary (scanner q e b n) = b" "ds_needSpace (scanner q e b n) = n"
  "(scanner q e b n)\<lparr>ds_tokenBoundary := b'\<rparr> = scanner q e b' n"
  by (simp_all add: scanner_def)

lemma startScanner_boundary: "startScanner = boundary"
  by (simp add: startScanner_def scanner_def)

lemma accepts_ValidateDirectiveValue: "ValidateDirectiveValue v = None \<longleftrightarrow> trimSpace v \<noteq> [] \<and> accepts boundary v"
proof -
  have "maskBracedNginxVariables v = maskList False v"
    using maskFrom_list [of 0 v] by (simp add: maskBracedNginxVariables_def isEscaped_def)
  then have "ValidateDirectiveValue v =
      (if trimSpace v = [] then Some EmptyValue
       else case fold scanStep (map rune (maskList False v)) (Inr boundary) of Inl e \<Rightarrow> Some e | Inr s \<Rightarrow> atEnd s)"
    by (simp only: ValidateDirectiveValue_def scan_bytes) (simp only: startScanner_boundary)
  then show ?thesis
    by (auto simp: accepts_def accepted_def split: sum.splits)
qed

text \<open>One step, for a byte that starts no braced variable.\<close>

lemma accepts_Nil [simp]: "accepts (scanner q e b n) [] \<longleftrightarrow> \<not> e \<and> q = 0"
  by (auto simp: accepts_def accepted_def atEnd_def scanner_def)

lemma nextRune_escaped: "nextRune (rune c) s = Inr s' \<Longrightarrow> ds_escaped s' = (c = backslash \<and> \<not> ds_escaped s)"
  unfolding rune_backslash [symmetric]
  by (auto simp: nextRune_def insideQuote_def outsideQuote_def isNginxSpace_def [of 92] simp del: of_char_eq_iff
      split: if_splits)

lemma accepts_Cons:
  assumes "ds_escaped s \<or> bracedVariable (c # cs) = None"
  shows "accepts s (c # cs) = (case nextRune (rune c) s of Inl e \<Rightarrow> False | Inr s' \<Rightarrow> accepts s' cs)"
proof -
  have "maskList (ds_escaped s) (c # cs) = c # maskList (c = backslash \<and> \<not> ds_escaped s) cs"
    using assms by (auto simp: maskList.simps(2))
  then have "accepts s (c # cs) = accepted (fold scanStep (map rune (maskList (c = backslash \<and> \<not> ds_escaped s) cs)) (nextRune (rune c) s))"
    by (simp add: accepts_def scanStep_def)
  then show ?thesis
    using nextRune_escaped [of c s] by (auto simp: accepts_def accepted_def split: sum.splits)
qed

lemma nextRune_boundary:
  "nextRune (rune c) boundary =
    (if badByte c then Inl DirectiveDelimiter else if spaceByte c then Inr boundary
     else if c = backslash then Inr (scanner 0 True False False)
     else if isQuote c then Inr (inQuote c)
     else if delimiter c then Inl DirectiveDelimiter else Inr inWord)"
  unfolding rune_backslash [symmetric] nextRune_def outsideQuote_def scanner_def by simp

lemma nextRune_inWord:
  "nextRune (rune c) inWord =
    (if badByte c then Inl DirectiveDelimiter else if spaceByte c then Inr boundary
     else if c = backslash then Inr (scanner 0 True False False)
     else if isQuote c then Inr inWord
     else if delimiter c then Inl DirectiveDelimiter else Inr inWord)"
  unfolding rune_backslash [symmetric] nextRune_def outsideQuote_def scanner_def by simp

lemma nextRune_inQuote:
  "isQuote q \<Longrightarrow> nextRune (rune c) (inQuote q) =
    (if badByte c then Inl DirectiveDelimiter
     else if c = backslash then Inr (scanner (rune q) True False False)
     else if c = q then Inr afterQuote else Inr (inQuote q))"
  unfolding rune_backslash [symmetric] nextRune_def insideQuote_def scanner_def by (auto simp: isQuoteRune_def)

lemma nextRune_afterQuote:
  "nextRune (rune c) afterQuote =
    (if badByte c then Inl DirectiveDelimiter else if spaceByte c then Inr boundary else Inl NoSpaceAfterQuote)"
  unfolding nextRune_def outsideQuote_def scanner_def by simp

lemma nextRune_escape:
  "nextRune (rune c) (scanner q True False False) =
    (if badByte c then Inl DirectiveDelimiter else Inr (scanner q False False False))"
  unfolding nextRune_def scanner_def by simp

lemma nextRune_backslash:
  "nextRune 92 boundary = Inr (scanner 0 True False False)" "nextRune 92 inWord = Inr (scanner 0 True False False)"
  "isQuote q \<Longrightarrow> nextRune 92 (inQuote q) = Inr (scanner (rune q) True False False)"
  using nextRune_boundary [of backslash] nextRune_inWord [of backslash] nextRune_inQuote [of q backslash]
  by (simp_all add: isForbiddenRune_def isNginxSpace_def)

text \<open>A braced variable is one part of a word, or of what is quoted.\<close>

lemma masked_variable:
  assumes "\<not> ds_escaped s" and "\<not> ds_needSpace s" and "scannerInv s"
  shows "fold scanStep (map rune ''$variable'') (Inr s) = Inr (if ds_quote s = 0 then s\<lparr>ds_tokenBoundary := False\<rparr> else s)"
proof -
  have step: "nextRune (rune c) s = Inr (if ds_quote s = 0 then s\<lparr>ds_tokenBoundary := False\<rparr> else s)"
    if "c \<in> set ''$variable''" "\<not> ds_escaped s" "\<not> ds_needSpace s" "scannerInv s" for c s
  proof -
    have "\<not> isNginxSpace (rune c)" "\<not> isQuoteRune (rune c)" "\<not> isDelimiterRune (rune c)" "\<not> isForbiddenRune (rune c)"
      "rune c \<noteq> rune backslash"
      using that(1) by (auto simp: isNginxSpace_def isQuoteRune_def isDelimiterRune_def isForbiddenRune_def)
    with that(2-) show ?thesis
      by (auto simp: nextRune_def insideQuote_def outsideQuote_def scannerInv_def)
  qed
  have "fold scanStep (map rune cs) (Inr s) = Inr (if ds_quote s = 0 then s\<lparr>ds_tokenBoundary := False\<rparr> else s)"
    if "cs \<noteq> []" "set cs \<subseteq> set ''$variable''" "\<not> ds_escaped s" "\<not> ds_needSpace s" "scannerInv s" for cs s
    using that
  proof (induction cs arbitrary: s)
    case (Cons c cs)
    let ?s = "if ds_quote s = 0 then s\<lparr>ds_tokenBoundary := False\<rparr> else s"
    have "nextRune (rune c) s = Inr ?s"
      using Cons.prems by (intro step) auto
    moreover have "scannerInv ?s"
      using Cons.prems by (auto simp: scannerInv_def)
    ultimately show ?case
      using Cons.IH [of ?s] Cons.prems by (cases "cs = []") (auto simp: scanStep_def)
  qed simp
  from this [of "''$variable''" s] assms show ?thesis
    by simp
qed

lemma accepts_variable:
  assumes "bracedVariable cs = Some (n, rest)" and "\<not> ds_escaped s" and "\<not> ds_needSpace s" and "scannerInv s"
  shows "accepts s cs = accepts (if ds_quote s = 0 then s\<lparr>ds_tokenBoundary := False\<rparr> else s) rest"
proof -
  obtain c cs' where c: "cs = c # cs'"
    using assms(1) by (cases cs) (auto simp: bracedVariable_def)
  have "maskList (ds_escaped s) cs = ''$variable'' @ maskList False rest"
    using assms(1,2) unfolding c by (simp add: maskList.simps(2))
  moreover have "ds_escaped (if ds_quote s = 0 then s\<lparr>ds_tokenBoundary := False\<rparr> else s) = False"
    using assms(2) by simp
  ultimately show ?thesis
    unfolding accepts_def by (simp only: map_append fold_append comp_apply masked_variable [OF assms(2-4)])
qed

lemma scannerInv_states [simp]: "scannerInv boundary" "scannerInv inWord" "isQuote q \<Longrightarrow> scannerInv (inQuote q)"
  by (simp_all add: scannerInv_def)

section \<open>The grammar of accepted values\<close>

datatype atom = Plain char | Escaped char | Braced string
datatype token = Word "atom list" | Quoted char "atom list"

fun atomText :: "atom \<Rightarrow> string" where
  "atomText (Plain c) = [c]"
| "atomText (Escaped c) = [backslash, c]"
| "atomText (Braced n) = ''${'' @ n @ ''}''"

definition atomsText :: "atom list \<Rightarrow> string" where
  "atomsText as = concat (map atomText as)"

fun tokenText :: "token \<Rightarrow> string" where
  "tokenText (Word as) = atomsText as"
| "tokenText (Quoted q as) = q # atomsText as @ [q]"

text \<open>
  In a word, no white space and no delimiter of a directive stands for itself. In a quoted argument
  only the quote and the backslash do not.
\<close>

fun wordAtom :: "atom \<Rightarrow> bool" where
  "wordAtom (Plain c) = (\<not> spaceByte c \<and> \<not> delimiter c \<and> c \<noteq> backslash)"
| "wordAtom (Escaped c) = True"
| "wordAtom (Braced n) = variableName n"

fun quotedAtom :: "char \<Rightarrow> atom \<Rightarrow> bool" where
  "quotedAtom q (Plain c) = (c \<noteq> q \<and> c \<noteq> backslash)"
| "quotedAtom q (Escaped c) = True"
| "quotedAtom q (Braced n) = False"

fun startsQuote :: "atom list \<Rightarrow> bool" where
  "startsQuote (Plain c # _) = isQuote c"
| "startsQuote _ = False"

fun okToken :: "token \<Rightarrow> bool" where
  "okToken (Word as) = (as \<noteq> [] \<and> list_all wordAtom as \<and> \<not> startsQuote as)"
| "okToken (Quoted q as) = (isQuote q \<and> list_all (quotedAtom q) as)"

text \<open>Tokens with the white space before each of them; only the first one may have none.\<close>

fun spacedText :: "(string \<times> token) list \<Rightarrow> string \<Rightarrow> string" where
  "spacedText [] trail = trail"
| "spacedText ((sp, t) # ts) trail = sp @ tokenText t @ spacedText ts trail"

definition spaces :: "string \<Rightarrow> bool" where
  "spaces = list_all spaceByte"

definition okTokens :: "(string \<times> token) list \<Rightarrow> bool" where
  "okTokens ts = (list_all (\<lambda>(sp, t). spaces sp \<and> okToken t) ts \<and> list_all (\<lambda>(sp, t). sp \<noteq> []) (tl ts))"

definition directiveArguments :: "string \<Rightarrow> bool" where
  "directiveArguments v = (\<exists>ts trail. v = spacedText ts trail \<and> okTokens ts \<and> spaces trail)"

text \<open>No byte of an accepted value is a line break or a backtick.\<close>

lemma scan_forbidden: "accepted (fold scanStep (map rune cs) (Inr s)) \<Longrightarrow> list_all (\<lambda>c. \<not> badByte c) cs"
proof (induction cs arbitrary: s)
  case (Cons c cs)
  then show ?case
    by (cases "nextRune (rune c) s") (auto simp: nextRune_def split: if_splits)
qed simp

lemma variable_bytes:
  assumes "isNginxVariableChar c"
  shows "\<not> badByte c" "c \<noteq> backslash" "\<not> isQuote c" "c \<noteq> CHR ''$''" "c \<noteq> CHR ''{''"
  using assms
  by (auto simp: isNginxVariableChar_def isNginxVariableStart_def isForbiddenRune_def isQuoteRune_def byteIn_def)

lemma maskList_forbidden: "list_all (\<lambda>c. \<not> badByte c) (maskList esc cs) \<Longrightarrow> list_all (\<lambda>c. \<not> badByte c) cs"
proof (induction esc cs rule: maskList.induct)
  case (2 esc c cs)
  show ?case
  proof (cases "if esc then None else bracedVariable (c # cs)")
    case None
    with 2 show ?thesis
      by (simp add: maskList.simps(2))
  next
    case (Some a)
    then obtain n rest where a: "a = (n, rest)" "bracedVariable (c # cs) = Some (n, rest)"
      by (cases a) (auto split: if_splits)
    then have "c # cs = ''${'' @ n @ CHR ''}'' # rest" "list_all isNginxVariableChar n"
      by (auto simp: bracedVariable_iff variableName_def)
    moreover have "list_all (\<lambda>c. \<not> badByte c) rest"
      using 2(2) [OF Some] 2(3) Some a by (simp add: maskList.simps(2))
    ultimately show ?thesis
      using variable_bytes(1) by (auto simp: list_all_iff isForbiddenRune_def)
  qed
qed simp

lemma accepts_clean: "accepts s cs \<Longrightarrow> list_all (\<lambda>c. \<not> badByte c) cs"
  unfolding accepts_def by (drule scan_forbidden, erule maskList_forbidden)

subsection \<open>Texts of the grammar are accepted\<close>

abbreviation clean :: "string \<Rightarrow> bool" where
  "clean cs \<equiv> list_all (\<lambda>c. \<not> badByte c) cs"

definition separated :: "string \<Rightarrow> bool" where
  "separated rest = (case rest of [] \<Rightarrow> True | c # _ \<Rightarrow> spaceByte c)"

lemma not_braced: "c \<noteq> CHR ''$'' \<or> (case cs of [] \<Rightarrow> True | d # _ \<Rightarrow> d \<noteq> CHR ''{'') \<Longrightarrow> bracedVariable (c # cs) = None"
  by (auto simp: bracedVariable_def split: list.splits)

lemma word_next:
  assumes "list_all wordAtom as" and "separated rest"
  shows "case atomsText as @ rest of [] \<Rightarrow> True | d # _ \<Rightarrow> d \<noteq> CHR ''{''"
proof (cases as)
  case Nil
  then show ?thesis
    using assms(2) by (auto simp: separated_def atomsText_def isNginxSpace_def split: list.splits)
next
  case (Cons a as')
  then show ?thesis
    using assms(1) by (cases a) (auto simp: atomsText_def isDelimiterRune_def)
qed

lemma atomsText_simps [simp]: "atomsText [] = []" "atomsText (a # as) = atomText a @ atomsText as"
  by (simp_all add: atomsText_def)

text \<open>The first atom of a word, from the two states in which a word may go on.\<close>

lemma accepts_atom:
  assumes "wordAtom a" "clean (atomText a)" "case cs of [] \<Rightarrow> True | d # _ \<Rightarrow> d \<noteq> CHR ''{''"
    and "s = inWord \<or> (s = boundary \<and> \<not> startsQuote [a])"
  shows "accepts s (atomText a @ cs) = accepts inWord cs"
proof (cases a)
  case (Plain c)
  have b: "bracedVariable (c # cs) = None"
    by (rule not_braced) (use assms(3) in blast)
  from assms Plain show ?thesis
    by (auto simp: accepts_Cons [OF disjI2 [OF b]] nextRune_boundary nextRune_inWord split: if_splits)
next
  case (Escaped c)
  have b: "bracedVariable (backslash # c # cs) = None"
    by (rule not_braced) simp
  have "accepts s (backslash # c # cs) = accepts (scanner 0 True False False) (c # cs)"
    using assms(4) by (auto simp: accepts_Cons [OF disjI2 [OF b]] nextRune_backslash)
  also have "\<dots> = accepts inWord cs"
    using assms(2) Escaped by (simp add: accepts_Cons nextRune_escape)
  finally show ?thesis
    using Escaped by simp
next
  case (Braced n)
  then have "bracedVariable (atomText a @ cs) = Some (n, cs)"
    using assms(1) by (simp add: bracedVariable_iff)
  from accepts_variable [OF this, of s] assms(4) show ?thesis
    by auto
qed

lemma accepts_word:
  "list_all wordAtom as \<Longrightarrow> clean (atomsText as) \<Longrightarrow> separated rest \<Longrightarrow> accepts inWord (atomsText as @ rest) = accepts inWord rest"
proof (induction as)
  case (Cons a as)
  then show ?case
    using accepts_atom [of a "atomsText as @ rest" inWord] word_next [of as rest] by simp
qed simp

lemma quote_bytes:
  assumes "isQuote q"
  shows "q \<noteq> CHR ''{''" "q \<noteq> CHR ''}''" "q \<noteq> CHR ''$''" "q \<noteq> backslash" "\<not> badByte q" "\<not> spaceByte q" "\<not> delimiter q" "rune q \<noteq> 0"
  using assms by (auto simp: isQuoteRune_def isForbiddenRune_def isNginxSpace_def isDelimiterRune_def)

lemma brace_bytes: "\<not> badByte CHR ''{''" "\<not> badByte CHR ''}''"
  by (simp_all add: isForbiddenRune_def)

lemma accepts_quoted_plain:
  assumes q: "isQuote q" and c: "c \<noteq> q" "c \<noteq> backslash" "\<not> badByte c"
  shows "accepts (inQuote q) (c # cs) = accepts (inQuote q) cs"
proof -
  have step: "accepts (inQuote q) (c # cs) = accepts (inQuote q) cs"
    if "bracedVariable (c # cs) = None" "c \<noteq> q" "c \<noteq> backslash" "\<not> badByte c" for c cs
    using that q by (simp add: accepts_Cons nextRune_inQuote)
  show ?thesis
  proof (cases "bracedVariable (c # cs)")
    case (Some a)
    then obtain n rest where "bracedVariable (c # cs) = Some (n, rest)"
      by (cases a) auto
    note v = accepts_variable [OF this, of "inQuote q"] and b = this [unfolded bracedVariable_iff]
    have skip: "accepts (inQuote q) (m @ CHR ''}'' # rest) = accepts (inQuote q) rest"
      if "list_all isNginxVariableChar m" for m
      using that
    proof (induction m)
      case Nil
      have "bracedVariable (CHR ''}'' # rest) = None"
        by (rule not_braced) simp
      then show ?case
        using step [of "CHR ''}''" rest] quote_bytes(2) [OF q] brace_bytes by auto
    next
      case (Cons d m)
      then have d: "isNginxVariableChar d"
        by simp
      have "bracedVariable (d # m @ CHR ''}'' # rest) = None"
        by (rule not_braced) (use variable_bytes(4) [OF d] in blast)
      then show ?case
        using step [of d "m @ CHR ''}'' # rest"] variable_bytes [OF d] q Cons by auto
    qed
    have "bracedVariable (CHR ''{'' # n @ CHR ''}'' # rest) = None"
      by (rule not_braced) simp
    then have "accepts (inQuote q) (CHR ''{'' # n @ CHR ''}'' # rest) = accepts (inQuote q) rest"
      using step [of "CHR ''{''" "n @ CHR ''}'' # rest"] skip [of n] b quote_bytes(1) [OF q] brace_bytes
      by (auto simp: variableName_def)
    moreover have "cs = CHR ''{'' # n @ CHR ''}'' # rest"
      using b by simp
    moreover have "accepts (inQuote q) (c # cs) = accepts (inQuote q) rest"
      using v q quote_bytes(8) [OF q] by simp
    ultimately show ?thesis
      by simp
  qed (use step c in blast)
qed

lemma accepts_quoted:
  assumes "isQuote q"
  shows "list_all (quotedAtom q) as \<Longrightarrow> clean (atomsText as) \<Longrightarrow>
    accepts (inQuote q) (atomsText as @ q # rest) = accepts afterQuote rest"
proof (induction as)
  case Nil
  have "bracedVariable (q # rest) = None"
    by (rule not_braced) (use quote_bytes(3) [OF assms] in blast)
  with quote_bytes [OF assms] show ?case
    by (simp add: accepts_Cons nextRune_inQuote [OF assms])
next
  case (Cons a as)
  then have IH: "accepts (inQuote q) (atomsText as @ q # rest) = accepts afterQuote rest"
    by simp
  show ?case
  proof (cases a)
    case (Plain c)
    with Cons.prems IH show ?thesis
      by (simp add: accepts_quoted_plain [OF assms])
  next
    case (Escaped c)
    have "bracedVariable (backslash # c # atomsText as @ q # rest) = None"
      by (rule not_braced) simp
    then show ?thesis
      using Cons.prems IH Escaped
      by (simp add: accepts_Cons nextRune_backslash(3) [OF assms] nextRune_escape)
  qed (use Cons.prems in simp)
qed

text \<open>White space leads to a token boundary from every state outside of quotes.\<close>

lemma accepts_space:
  assumes "spaceByte c" "\<not> badByte c" "s \<in> {boundary, inWord, afterQuote}"
  shows "accepts s (c # cs) = accepts boundary cs"
proof -
  have "c \<noteq> CHR ''$''"
    using assms(1) by (auto simp: isNginxSpace_def)
  then have "bracedVariable (c # cs) = None"
    by (intro not_braced) blast
  with assms show ?thesis
    by (auto simp: accepts_Cons nextRune_boundary nextRune_inWord nextRune_afterQuote)
qed

lemma accepts_separated:
  assumes "separated cs" "clean cs" "s \<in> {inWord, afterQuote}"
  shows "accepts s cs = accepts boundary cs"
  using assms accepts_space by (cases cs) (auto simp: separated_def)

lemma accepts_spaces: "spaces sp \<Longrightarrow> clean sp \<Longrightarrow> accepts boundary (sp @ cs) = accepts boundary cs"
  by (induction sp) (auto simp: spaces_def accepts_space)

lemma accepts_token:
  assumes "okToken t" "clean (tokenText t)" "separated cs" "clean cs"
  shows "accepts boundary (tokenText t @ cs) = accepts boundary cs"
proof (cases t)
  case (Word as)
  with assms(1) obtain a as' where as: "as = a # as'" "wordAtom a" "list_all wordAtom as'" "\<not> startsQuote [a]"
    by (cases as) (auto, (metis atom.exhaust startsQuote.simps)+)
  have "accepts boundary (atomText a @ atomsText as' @ cs) = accepts inWord (atomsText as' @ cs)"
    by (rule accepts_atom) (use as assms Word word_next [OF as(3) assms(3)] in auto)
  also have "\<dots> = accepts inWord cs"
    by (rule accepts_word) (use as assms Word in auto)
  finally show ?thesis
    using as Word accepts_separated [OF assms(3,4)] by simp
next
  case (Quoted q as)
  then have q: "isQuote q" and as: "list_all (quotedAtom q) as" "clean (atomsText as)"
    using assms(1,2) by auto
  have "bracedVariable (q # atomsText as @ q # cs) = None"
    by (rule not_braced) (use quote_bytes(3) [OF q] in blast)
  then have "accepts boundary (q # atomsText as @ q # cs) = accepts (inQuote q) (atomsText as @ q # cs)"
    using quote_bytes [OF q] q by (simp add: accepts_Cons nextRune_boundary)
  with accepts_quoted [OF q as] accepts_separated [OF assms(3,4)] Quoted show ?thesis
    by simp
qed

lemma accepts_spacedText:
  "okTokens ts \<Longrightarrow> spaces trail \<Longrightarrow> clean (spacedText ts trail) \<Longrightarrow> accepts boundary (spacedText ts trail)"
proof (induction ts)
  case Nil
  then show ?case
    using accepts_spaces [of trail "[]"] by simp
next
  case (Cons e ts)
  obtain sp t where e: "e = (sp, t)"
    by (cases e)
  have "separated (spacedText ts trail)"
  proof (cases ts)
    case Nil
    with Cons.prems(2) show ?thesis
      by (cases trail) (auto simp: separated_def spaces_def)
  next
    case (Cons f fs)
    with Cons.prems(1) show ?thesis
      by (cases f; cases "fst f") (auto simp: separated_def okTokens_def spaces_def)
  qed
  moreover have "okTokens ts"
    using Cons.prems(1) by (cases ts) (auto simp: okTokens_def)
  ultimately show ?case
    using Cons e by (auto simp: accepts_spaces accepts_token okTokens_def)
qed

subsection \<open>Accepted texts have the grammar\<close>

lemma accepts_escape: "accepts (scanner q True False False) cs \<Longrightarrow> \<exists>c cs'. cs = c # cs' \<and> accepts (scanner q False False False) cs'"
  by (cases cs) (auto simp: accepts_Cons nextRune_escape split: if_splits)

lemma accepts_afterQuote:
  assumes "accepts afterQuote (c # cs)"
  shows "spaceByte c \<and> accepts boundary cs"
proof (cases "bracedVariable (c # cs)")
  case None
  with assms show ?thesis
    by (auto simp: accepts_Cons nextRune_afterQuote split: if_splits)
next
  case (Some x)
  have "nextRune 36 afterQuote = Inl NoSpaceAfterQuote"
    using nextRune_afterQuote [of "CHR ''$''"] by (simp add: isForbiddenRune_def isNginxSpace_def)
  with Some assms show ?thesis
    by (auto simp: accepts_def maskList.simps(2) split: prod.splits)
qed

text \<open>What may follow a token.\<close>

definition tokenRest :: "string \<Rightarrow> bool" where
  "tokenRest rest = (case rest of [] \<Rightarrow> True | c # r \<Rightarrow> spaceByte c \<and> accepts boundary r)"

lemma inWord_split:
  "accepts inWord cs \<Longrightarrow> \<exists>as rest. cs = atomsText as @ rest \<and> list_all wordAtom as \<and> tokenRest rest"
proof (induction cs rule: length_induct)
  case (1 cs)
  have IH: "\<exists>as rest. cs = a @ atomsText as @ rest \<and> list_all wordAtom as \<and> tokenRest rest"
    if "cs = a @ ds" "a \<noteq> []" "accepts inWord ds" for a ds
    using 1(1) that by fastforce
  show ?case
  proof (cases "bracedVariable cs")
    case (Some x)
    then obtain n ds where v: "bracedVariable cs = Some (n, ds)"
      by (cases x) auto
    then have "accepts inWord ds"
      using accepts_variable [OF v, of inWord] 1(2) by simp
    with v IH [of "atomText (Braced n)" ds] obtain as rest where
      "cs = atomText (Braced n) @ atomsText as @ rest" "list_all wordAtom as" "tokenRest rest"
      by (auto simp: bracedVariable_iff)
    with v show ?thesis
      by (intro exI [of _ "Braced n # as"] exI [of _ rest]) (auto simp: bracedVariable_iff)
  next
    case None
    show ?thesis
    proof (cases cs)
      case (Cons c ds)
      note step = accepts_Cons [of inWord c ds, unfolded nextRune_inWord] None [unfolded Cons] 1(2) [unfolded Cons]
      show ?thesis
      proof (cases "spaceByte c \<or> c = backslash")
        case False
        with step quote_bytes(7) [of c] have "accepts inWord ds" "wordAtom (Plain c)"
          by (auto split: if_splits)
        with IH [of "[c]" ds] Cons obtain as rest where "cs = c # atomsText as @ rest" "list_all wordAtom as" "tokenRest rest"
          by auto
        with \<open>wordAtom (Plain c)\<close> show ?thesis
          by (intro exI [of _ "Plain c # as"] exI [of _ rest]) auto
      next
        case True
        then show ?thesis
        proof
          assume "spaceByte c"
          with step Cons show ?thesis
            by (intro exI [of _ "[]"] exI [of _ cs]) (auto simp: tokenRest_def split: if_splits)
        next
          assume b: "c = backslash"
          with step have "accepts (scanner 0 True False False) ds"
            by (auto simp: isNginxSpace_def split: if_splits)
          then obtain d es where "ds = d # es" "accepts inWord es"
            using accepts_escape by blast
          with IH [of "[backslash, d]" es] Cons b obtain as rest where
            "cs = backslash # d # atomsText as @ rest" "list_all wordAtom as" "tokenRest rest"
            by auto
          then show ?thesis
            by (intro exI [of _ "Escaped d # as"] exI [of _ rest]) auto
        qed
      qed
    qed (auto simp: tokenRest_def intro: exI [of _ "[]"])
  qed
qed

lemma inQuote_split:
  assumes q: "isQuote q"
  shows "accepts (inQuote q) cs \<Longrightarrow> \<exists>as rest. cs = atomsText as @ q # rest \<and> list_all (quotedAtom q) as \<and> tokenRest rest"
proof (induction cs rule: length_induct)
  case (1 cs)
  have IH: "\<exists>as rest. cs = a @ atomsText as @ q # rest \<and> list_all (quotedAtom q) as \<and> tokenRest rest"
    if "cs = a @ ds" "a \<noteq> []" "accepts (inQuote q) ds" for a ds
    using 1(1) that by fastforce
  obtain c ds where cs: "cs = c # ds"
    using 1(2) quote_bytes(8) [OF q] by (cases cs) auto
  have bad: "\<not> badByte c"
    using accepts_clean [OF 1(2)] cs by simp
  consider "c = q" | "c = backslash" | "c \<noteq> q" "c \<noteq> backslash"
    by blast
  then show ?case
  proof cases
    case 1
    have "bracedVariable (c # ds) = None"
      by (rule not_braced) (use 1 quote_bytes(3) [OF q] in blast)
    with \<open>accepts (inQuote q) cs\<close> 1 cs quote_bytes [OF q] have "accepts afterQuote ds"
      by (auto simp: accepts_Cons nextRune_inQuote [OF q] split: if_splits)
    then have "tokenRest ds"
      using accepts_afterQuote by (cases ds) (auto simp: tokenRest_def)
    with 1 cs show ?thesis
      by (intro exI [of _ "[]"] exI [of _ ds]) auto
  next
    case 2
    have "bracedVariable (c # ds) = None"
      by (rule not_braced) (use 2 in simp)
    with \<open>accepts (inQuote q) cs\<close> 2 cs have "accepts (scanner (rune q) True False False) ds"
      by (auto simp: accepts_Cons nextRune_backslash(3) [OF q] split: if_splits)
    then obtain d es where "ds = d # es" "accepts (inQuote q) es"
      using accepts_escape by blast
    with IH [of "[backslash, d]" es] cs 2 obtain as rest where
      "cs = backslash # d # atomsText as @ q # rest" "list_all (quotedAtom q) as" "tokenRest rest"
      by auto
    then show ?thesis
      by (intro exI [of _ "Escaped d # as"] exI [of _ rest]) auto
  next
    case 3
    then have "accepts (inQuote q) ds"
      using accepts_quoted_plain [OF q 3 bad] 1(2) cs by simp
    with IH [of "[c]" ds] cs obtain as rest where "cs = c # atomsText as @ q # rest" "list_all (quotedAtom q) as" "tokenRest rest"
      by auto
    with 3 show ?thesis
      by (intro exI [of _ "Plain c # as"] exI [of _ rest]) auto
  qed
qed

lemma prepend_space:
  assumes "okTokens ts" "spaces trail" "spaceByte c"
  shows "\<exists>ts' trail'. c # spacedText ts trail = spacedText ts' trail' \<and> okTokens ts' \<and> spaces trail' \<and>
    list_all (\<lambda>(sp, t). sp \<noteq> []) ts'"
proof (cases ts)
  case Nil
  with assms show ?thesis
    by (intro exI [of _ "[]"] exI [of _ "c # trail"]) (auto simp: spaces_def)
next
  case (Cons e fs)
  obtain sp t where "e = (sp, t)"
    by (cases e)
  with assms Cons show ?thesis
    by (intro exI [of _ "(c # sp, t) # fs"] exI [of _ trail]) (auto simp: okTokens_def spaces_def)
qed

text \<open>A token in front of a rest that has the grammar.\<close>

lemma token_in_front:
  assumes "okToken t" and "tokenRest rest" and IH: "\<And>c r. rest = c # r \<Longrightarrow> accepts boundary r \<Longrightarrow> directiveArguments r"
  shows "directiveArguments (tokenText t @ rest)"
proof (cases rest)
  case Nil
  with assms(1) show ?thesis
    unfolding directiveArguments_def
    by (intro exI [of _ "[([], t)]"] exI [of _ "[]"]) (auto simp: okTokens_def spaces_def)
next
  case (Cons c r)
  with assms(2) have c: "spaceByte c" "accepts boundary r"
    by (simp_all add: tokenRest_def)
  obtain ts trail where r: "r = spacedText ts trail" "okTokens ts" "spaces trail"
    using IH [OF Cons c(2)] by (auto simp: directiveArguments_def)
  obtain ts' trail' where "c # r = spacedText ts' trail'" "okTokens ts'" "spaces trail'" "list_all (\<lambda>(sp, t). sp \<noteq> []) ts'"
    using prepend_space [OF r(2,3) c(1)] r(1) by blast
  with assms(1) Cons show ?thesis
    unfolding directiveArguments_def
    by (intro exI [of _ "([], t) # ts'"] exI [of _ trail']) (auto simp: okTokens_def spaces_def)
qed

lemma boundary_arguments: "accepts boundary cs \<Longrightarrow> directiveArguments cs"
proof (induction cs rule: length_induct)
  case (1 cs)
  have IH: "directiveArguments r" if "accepts boundary r" "length r < length cs" for r
    using 1(1) that by blast
  have word: ?case if w: "cs = atomText a @ ds" "wordAtom a" "\<not> startsQuote [a]" "accepts inWord ds" for a ds
  proof -
    obtain as rest where r: "ds = atomsText as @ rest" "list_all wordAtom as" "tokenRest rest"
      using inWord_split [OF w(4)] by blast
    have "okToken (Word (a # as))"
      using w(2,3) r(2) by (cases a) auto
    then have "directiveArguments (tokenText (Word (a # as)) @ rest)"
      by (rule token_in_front [OF _ r(3)]) (use w(1) r(1) in \<open>auto intro: IH\<close>)
    with w(1) r(1) show ?thesis
      by simp
  qed
  show ?case
  proof (cases "bracedVariable cs")
    case (Some x)
    then obtain n ds where v: "bracedVariable cs = Some (n, ds)"
      by (cases x) auto
    with accepts_variable [OF v, of boundary] 1(2) word [of "Braced n" ds] show ?thesis
      by (auto simp: bracedVariable_iff)
  next
    case None
    show ?thesis
    proof (cases cs)
      case Nil
      then show ?thesis
        unfolding directiveArguments_def
        by (intro exI [of _ "[]"] exI [of _ "[]"]) (auto simp: okTokens_def spaces_def)
    next
      case (Cons c ds)
      note step = accepts_Cons [of boundary c ds, unfolded nextRune_boundary] None [unfolded Cons] 1(2) [unfolded Cons]
      consider "spaceByte c" | "c = backslash" | "isQuote c" | "\<not> spaceByte c" "c \<noteq> backslash" "\<not> isQuote c"
        by blast
      then show ?thesis
      proof cases
        case 1
        with step have "accepts boundary ds"
          by (auto split: if_splits)
        then obtain ts trail where "ds = spacedText ts trail" "okTokens ts" "spaces trail"
          using IH [of ds] Cons by (auto simp: directiveArguments_def)
        with prepend_space [of ts trail c] 1 Cons show ?thesis
          by (auto simp: directiveArguments_def)
      next
        case 2
        with step have "accepts (scanner 0 True False False) ds"
          by (auto simp: isNginxSpace_def split: if_splits)
        then obtain d es where "ds = d # es" "accepts inWord es"
          using accepts_escape by blast
        with word [of "Escaped d" es] Cons 2 show ?thesis
          by simp
      next
        case 3
        with step quote_bytes [OF 3] have "accepts (inQuote c) ds"
          by (auto split: if_splits)
        then obtain as rest where r: "ds = atomsText as @ c # rest" "list_all (quotedAtom c) as" "tokenRest rest"
          using inQuote_split [OF 3] by blast
        then have "directiveArguments (tokenText (Quoted c as) @ rest)"
          by (intro token_in_front) (use 3 Cons in \<open>auto intro: IH\<close>)
        with r(1) Cons show ?thesis
          by simp
      next
        case 4
        with step have "accepts inWord ds" "wordAtom (Plain c)"
          by (auto split: if_splits)
        with word [of "Plain c" ds] Cons 4 show ?thesis
          by simp
      qed
    qed
  qed
qed

lemma accepts_grammar: "accepts boundary v \<longleftrightarrow> clean v \<and> directiveArguments v"
  using accepts_clean [of boundary v] boundary_arguments [of v] accepts_spacedText
  by (auto simp: directiveArguments_def)

text \<open>
  C23. \<^verbatim>\<open>ValidateDirectiveValue\<close> accepts a value exactly when it is not blank, has no line break and
  no backtick, and is a sequence of words and quoted arguments with white space between them, in
  which a delimiter of directives (semicolon, brace or number sign) only occurs quoted, escaped or
  as part of a braced variable.
\<close>

theorem directive_value_grammar:
  "ValidateDirectiveValue v = None \<longleftrightarrow>
     trimSpace v \<noteq> [] \<and> list_all (\<lambda>c. \<not> isForbiddenRune (rune c)) v \<and> directiveArguments v"
  by (simp add: accepts_ValidateDirectiveValue accepts_grammar)

section \<open>Single tokens\<close>

lemma rune_literals:
  "rune c = 32 \<longleftrightarrow> c = CHR '' ''" "rune c = 9 \<longleftrightarrow> c = CHR 0x09" "rune c = 13 \<longleftrightarrow> c = CHR 0x0D" "rune c = 10 \<longleftrightarrow> c = CHR 0x0A"
  using of_char_eq_iff [of c "CHR '' ''", where 'a = nat] of_char_eq_iff [of c "CHR 0x09", where 'a = nat]
    of_char_eq_iff [of c "CHR 0x0D", where 'a = nat] of_char_eq_iff [of c "CHR 0x0A", where 'a = nat]
  by simp_all

lemma trimSpace_Nil: "trimSpace [] = []"
  by (simp add: trimSpace_def trimLeftSpace.simps [of "[]"] trimEndSpace.simps [of "[]"] spaceWidth_def spaceWidthEnd_def)

lemma no_space_spaces: "spaces sp \<Longrightarrow> \<forall>c \<in> set sp. \<not> spaceByte c \<Longrightarrow> sp = []"
  by (cases sp) (auto simp: spaces_def)

lemma single_token_text:
  assumes "directiveArguments v" "v \<noteq> []" "\<forall>c \<in> set v. \<not> spaceByte c"
  shows "\<exists>t. v = tokenText t \<and> okToken t"
proof -
  obtain ts trail where v: "v = spacedText ts trail" "okTokens ts" "spaces trail"
    using assms(1) by (auto simp: directiveArguments_def)
  have set_text: "set trail \<subseteq> set (spacedText ts trail) \<and> (\<forall>(sp, t) \<in> set ts. set sp \<subseteq> set (spacedText ts trail))" for ts trail
    by (induction ts) fastforce+
  have "trail = []"
    by (rule no_space_spaces [OF v(3)]) (use set_text [of trail ts] v(1) assms(3) in auto)
  obtain sp t ts' where ts: "ts = (sp, t) # ts'"
    using v(1) assms(2) \<open>trail = []\<close> by (cases ts) auto
  have empty: "sp' = []" if "(sp', t') \<in> set ts" for sp' t'
  proof (rule no_space_spaces)
    show "spaces sp'"
      using v(2) that by (auto simp: okTokens_def list_all_iff)
    show "\<forall>c \<in> set sp'. \<not> spaceByte c"
      using set_text [of trail ts] v(1) assms(3) that by fastforce
  qed
  have "ts' = []"
  proof (rule ccontr)
    assume "ts' \<noteq> []"
    then obtain sp' t' where "(sp', t') \<in> set ts'" "sp' \<noteq> []"
      using v(2) ts by (cases ts') (auto simp: okTokens_def)
    with empty [of sp' t'] ts show False
      by simp
  qed
  then have "v = tokenText t" "okToken t"
    using v ts empty [of sp t] \<open>trail = []\<close> by (auto simp: okTokens_def)
  then show ?thesis
    by blast
qed


section \<open>Quoted values\<close>

lemma quotedLoop_high: "128 \<le> r \<Longrightarrow> isQuote q \<Longrightarrow> quotedLoop q e (r # rs) = quotedLoop q False rs"
  by (auto simp: isQuoteRune_def)

lemma quotedLoop_bytes: "isQuote q \<Longrightarrow> quotedLoop q e (runes v) = quotedLoop q e (map rune v)"
proof (induction v arbitrary: e rule: runes.induct)
  case (2 c s)
  obtain r w where d: "decodeRune (c # s) = (r, w)"
    by fastforce
  have IH: "quotedLoop q e (runes (drop (w - 1) s)) = quotedLoop q e (map rune (drop (w - 1) s))" for e
    using 2 d by simp
  show ?case
  proof (cases "asciiByte c")
    case True
    then show ?thesis
      using IH d by (simp add: decodeRune_ascii)
  next
    case False
    note h = decodeRune_high [OF False d]
    have "quotedLoop q False (map rune (xs @ ys)) = quotedLoop q False (map rune ys)"
      if "\<forall>x \<in> set xs. \<not> asciiByte x" for xs ys
      using that quotedLoop_high [OF _ 2(2)] by (induction xs) (simp_all add: not_less del: quotedLoop.simps)
    from this [OF h(4), of "drop (w - 1) s"] have "quotedLoop q False (map rune s) = quotedLoop q False (map rune (drop (w - 1) s))"
      by simp
    with False h(1) IH d quotedLoop_high [OF _ 2(2)] show ?thesis
      by (simp add: not_less del: quotedLoop.simps)
  qed
qed simp

definition noLineBreak :: "string \<Rightarrow> bool" where
  "noLineBreak v = list_all (\<lambda>c. rune c \<noteq> 13 \<and> rune c \<noteq> 10) v"

definition quotedBody :: "char \<Rightarrow> string \<Rightarrow> bool" where
  "quotedBody q v = (\<exists>as. v = atomsText as \<and> list_all (quotedAtom q) as)"

lemma quotedBody_Nil [simp]: "quotedBody q []"
  by (auto simp: quotedBody_def intro: exI [of _ "[]"])

lemma quotedBody_plain: "c \<noteq> backslash \<Longrightarrow> quotedBody q (c # s) \<longleftrightarrow> c \<noteq> q \<and> quotedBody q s"
proof
  assume c: "c \<noteq> backslash" and "quotedBody q (c # s)"
  then obtain as where as: "c # s = atomsText as" "list_all (quotedAtom q) as"
    by (auto simp: quotedBody_def)
  then obtain as' where "as = Plain c # as'"
    using c by (cases as; cases "hd as") auto
  with as show "c \<noteq> q \<and> quotedBody q s"
    by (auto simp: quotedBody_def)
next
  assume "c \<noteq> backslash" "c \<noteq> q \<and> quotedBody q s"
  then obtain as where "c \<noteq> backslash" "c \<noteq> q" "s = atomsText as" "list_all (quotedAtom q) as"
    by (auto simp: quotedBody_def)
  then show "quotedBody q (c # s)"
    unfolding quotedBody_def by (intro exI [of _ "Plain c # as"]) auto
qed

lemma quotedBody_escaped: "quotedBody q (backslash # s) \<longleftrightarrow> (\<exists>d t. s = d # t \<and> quotedBody q t)"
proof
  assume "quotedBody q (backslash # s)"
  then obtain as where as: "backslash # s = atomsText as" "list_all (quotedAtom q) as"
    by (auto simp: quotedBody_def)
  then obtain d as' where "as = Escaped d # as'"
    by (cases as; cases "hd as") auto
  with as show "\<exists>d t. s = d # t \<and> quotedBody q t"
    by (auto simp: quotedBody_def)
next
  assume "\<exists>d t. s = d # t \<and> quotedBody q t"
  then obtain d as where "s = d # atomsText as" "list_all (quotedAtom q) as"
    by (auto simp: quotedBody_def)
  then show "quotedBody q (backslash # s)"
    unfolding quotedBody_def by (intro exI [of _ "Escaped d # as"]) auto
qed

lemma quotedLoop_grammar:
  assumes q: "isQuote q"
  shows "quotedLoop q False (map rune v) = None \<longleftrightarrow> noLineBreak v \<and> quotedBody q v"
proof (induction v rule: length_induct)
  case (1 v)
  have IH: "quotedLoop q False (map rune t) = None \<longleftrightarrow> noLineBreak t \<and> quotedBody q t" if "length t < length v" for t
    using 1 that by blast
  have rune_q: "rune c = rune q \<longleftrightarrow> c = q" "rune c = 92 \<longleftrightarrow> c = backslash" for c
    using of_char_eq_iff [of c backslash, where 'a = nat] by simp_all
  consider "v = []" | "v = [backslash]" | d t where "v = backslash # d # t" | c t where "v = c # t" "c \<noteq> backslash"
    by (metis list.exhaust)
  then show ?case
  proof cases
    case 2
    then show ?thesis
      by (simp add: noLineBreak_def quotedBody_escaped)
  next
    case 3
    with IH [of t] show ?thesis
      by (auto simp: noLineBreak_def quotedBody_escaped)
  next
    case 4
    with IH [of t] rune_q [of c] show ?thesis
      by (auto simp: noLineBreak_def quotedBody_plain)
  qed (simp add: noLineBreak_def)
qed

lemma quote_literals: "isQuote dquote" "isQuote squote"
  by (simp_all add: isQuoteRune_def)

text \<open>
  C25. A value is accepted for a quoted argument exactly when it has no line break and, between two
  such quotes, is one quoted token, so that rendered in quotes it stays one argument. This holds for
  double and for single quotes.
\<close>

theorem quoted_value_one_token:
  "(ValidateQuotedDirectiveValue v = None \<longleftrightarrow>
     noLineBreak v \<and> (\<exists>as. dquote # v @ [dquote] = tokenText (Quoted dquote as) \<and> okToken (Quoted dquote as))) \<and>
   (ValidateSingleQuotedDirectiveValue v = None \<longleftrightarrow>
     noLineBreak v \<and> (\<exists>as. squote # v @ [squote] = tokenText (Quoted squote as) \<and> okToken (Quoted squote as)))"
proof -
  have "(\<exists>as. q # v @ [q] = tokenText (Quoted q as) \<and> okToken (Quoted q as)) \<longleftrightarrow> quotedBody q v" if "isQuote q" for q
    using that by (auto simp: quotedBody_def)
  note this [OF quote_literals(1)] this [OF quote_literals(2)]
  then show ?thesis
    unfolding ValidateQuotedDirectiveValue_def ValidateSingleQuotedDirectiveValue_def
      quotedLoop_bytes [OF quote_literals(1)] quotedLoop_bytes [OF quote_literals(2)]
      quotedLoop_grammar [OF quote_literals(1)] quotedLoop_grammar [OF quote_literals(2)] by blast
qed

section \<open>Unescaping\<close>

text \<open>The escaped form of a text: a backslash before every quote and backslash.\<close>

definition escapeText :: "string \<Rightarrow> string" where
  "escapeText s = concat (map (\<lambda>c. if c \<in> {dquote, squote, backslash} then [backslash, c] else [c]) s)"

definition escapeRunes :: "nat list \<Rightarrow> nat list" where
  "escapeRunes rs = concat (map (\<lambda>r. if r \<in> {34, 39, 92} then [92, r] else [r]) rs)"

lemma escapeRunes_simps [simp]:
  "escapeRunes [] = []" "escapeRunes (r # rs) = (if r \<in> {34, 39, 92} then [92, r] else [r]) @ escapeRunes rs"
  by (simp_all add: escapeRunes_def)

lemma unescape_plain: "r \<noteq> 92 \<Longrightarrow> unescapeRunes (r # rs) = r # unescapeRunes rs"
  by (cases rs) simp_all

lemma unescape_escape: "unescapeRunes (escapeRunes rs) = rs"
  by (induction rs) (auto simp: unescape_plain)

lemma escape_rune: "(if rune c \<in> {34, 39, 92} then [92, rune c] else [rune c]) =
   map rune (if c \<in> {dquote, squote, backslash} then [backslash, c] else [c])"
  using of_char_eq_iff [of c dquote, where 'a = nat] of_char_eq_iff [of c squote, where 'a = nat]
    of_char_eq_iff [of c backslash, where 'a = nat] by simp

lemma escapeText_simps [simp]:
  "escapeText [] = []" "escapeText (c # s) = (if c \<in> {dquote, squote, backslash} then [backslash, c] else [c]) @ escapeText s"
  by (simp_all add: escapeText_def)

lemma escapeText_high: "\<not> asciiByte c \<Longrightarrow> escapeText (c # s) = c # escapeText s"
  by auto

lemma escapeText_append: "escapeText (s @ t) = escapeText s @ escapeText t"
  by (simp add: escapeText_def)

lemma escapeText_id: "\<forall>c \<in> set s. \<not> asciiByte c \<Longrightarrow> escapeText s = s"
  by (induction s) auto

lemma decodeRune_append:
  assumes "\<not> asciiByte c" "decodeRune (c # s) = (r, w)" "r \<noteq> replacementRune \<or> w \<noteq> 1"
  shows "decodeRune (take w (c # s) @ t) = (r, w)"
  using assms by (auto simp: decodeRune.simps(2) Let_def split: if_splits list.splits)

lemma runes_escapeText: "validString s \<Longrightarrow> runes (escapeText s) = escapeRunes (runes s)"
proof (induction s rule: runes.induct)
  case (2 c s)
  obtain r w where d: "decodeRune (c # s) = (r, w)"
    by fastforce
  have v: "r \<noteq> replacementRune \<or> w \<noteq> 1" "validString (drop (w - 1) s)"
    using 2(2) d by auto
  have IH: "runes (escapeText (drop (w - 1) s)) = escapeRunes (runes (drop (w - 1) s))"
    using 2(1) d v by simp
  show ?case
  proof (cases "asciiByte c")
    case True
    then show ?thesis
      using IH d escape_rune [of c] by (auto simp: decodeRune_ascii)
  next
    case False
    note h = decodeRune_high [OF False d]
    have split: "c # s = take w (c # s) @ drop (w - 1) s"
      using h(2) by (cases w) simp_all
    have w: "take w (c # s) = c # take (w - 1) s"
      using h(2) by (cases w) simp_all
    have "escapeText (take w (c # s)) = take w (c # s)"
      by (rule escapeText_id) (use False h(4) w in auto)
    then have "escapeText (c # s) = take w (c # s) @ escapeText (drop (w - 1) s)"
      using escapeText_append [of "take w (c # s)" "drop (w - 1) s"] split by metis
    moreover have "runes (take w (c # s) @ t) = r # runes t" for t
      using decodeRune_append [OF False d v(1), of t] h(3) w by (simp add: min_def)
    ultimately show ?thesis
      using IH d h(1) by (auto simp del: escapeText_simps)
  qed
qed simp

lemma quotedBody_escapeText: "isQuote q \<Longrightarrow> quotedBody q (escapeText s)"
proof (induction s)
  case (Cons c s)
  then show ?case
    using of_char_eq_iff [of q squote, where 'a = nat] of_char_eq_iff [of q dquote, where 'a = nat]
    by (auto simp: quotedBody_escaped quotedBody_plain isQuoteRune_def)
qed simp

lemma noLineBreak_escapeText: "noLineBreak (escapeText s) = noLineBreak s"
  by (induction s) (auto simp: noLineBreak_def)



section \<open>TLS protocols\<close>

lemma fieldsBy_bytes: "c \<in> set v \<Longrightarrow> sep c \<or> (\<exists>p \<in> set (fieldsBy sep v). c \<in> set p)"
proof (induction sep v rule: fieldsBy.induct)
  case (2 sep d v)
  have "set v = set (takeWhile (\<lambda>x. \<not> sep x) v) \<union> set (dropWhile (\<lambda>x. \<not> sep x) v)"
    by (metis set_append takeWhile_dropWhile_id)
  with 2 show ?case
    by auto
qed simp

definition protocolByte :: "char \<Rightarrow> bool" where
  "protocolByte c = (c \<in> set ''SLVTslvt123.'')"

lemma lowerChar_protocol: "protocolByte (lowerChar c) \<Longrightarrow> protocolByte c"
proof (cases "65 \<le> rune c \<and> rune c \<le> 90")
  case True
  assume "protocolByte (lowerChar c)"
  then have "char_of (rune c + 32) \<in> set ''SLVTslvt123.''"
    using True by (simp add: protocolByte_def lowerChar_def)
  moreover have "rune (char_of (rune c + 32)) = rune c + 32"
    using True by (simp add: of_char_of)
  ultimately have "rune c + 32 \<in> rune ` set ''SLVTslvt123.''"
    by (metis imageI)
  then have "rune c \<in> rune ` set ''SLVTslvt123.''"
    using True by auto
  then obtain d where "d \<in> set ''SLVTslvt123.''" "rune c = rune d"
    by (rule imageE)
  then show "protocolByte c"
    unfolding protocolByte_def of_char_eq_iff by (simp only:)
qed (simp add: lowerChar_def)

text \<open>Bytes that mean nothing to NGINX.\<close>

definition safeByte :: "char \<Rightarrow> bool" where
  "safeByte c = (plainChar c \<and> \<not> delimiter c \<and> \<not> isQuote c \<and> c \<notin> {backslash, CHR ''$'', CHR 0x60})"

lemma safe_bytes:
  assumes "safeByte c"
  shows "\<not> spaceByte c" "\<not> badByte c" "\<not> delimiter c" "\<not> isQuote c" "c \<noteq> backslash" "c \<noteq> CHR ''$''" "plainChar c"
  using assms of_char_eq_iff [of c "CHR 0x60", where 'a = nat]
  by (auto simp: safeByte_def plainChar_def isNginxSpace_def isForbiddenRune_def Let_def)

lemma protocol_safe: "protocolByte c \<Longrightarrow> safeByte c"
  by (auto simp: protocolByte_def safeByte_def plainChar_def isDelimiterRune_def isQuoteRune_def)

lemma accepts_safe:
  "\<forall>c \<in> set v. spaceByte c \<or> safeByte c \<Longrightarrow> noLineBreak v \<Longrightarrow> accepts boundary v \<and> accepts inWord v"
proof (induction v)
  case (Cons c v)
  show ?case
  proof (cases "safeByte c")
    case True
    have "bracedVariable (c # v) = None"
      by (rule not_braced) (use safe_bytes(6) [OF True] in blast)
    with Cons safe_bytes [OF True] show ?thesis
      by (simp add: accepts_Cons nextRune_boundary nextRune_inWord noLineBreak_def)
  next
    case False
    with Cons.prems have "spaceByte c" "rune c \<noteq> 13" "rune c \<noteq> 10"
      by (auto simp: noLineBreak_def)
    moreover from this have "\<not> badByte c"
      by (auto simp: isNginxSpace_def isForbiddenRune_def)
    ultimately show ?thesis
      using Cons accepts_space [of c] by (simp add: noLineBreak_def)
  qed
qed simp

lemma trimSpace_space: "asciiSpace c \<Longrightarrow> trimSpace (c # s) = trimSpace s"
  by (simp add: trimSpace_def trimLeftSpace.simps [of "c # s"] spaceWidth_def)

lemma trimSpace_safe:
  "\<forall>c \<in> set v. spaceByte c \<or> safeByte c \<Longrightarrow> \<exists>c \<in> set v. safeByte c \<Longrightarrow> trimSpace v \<noteq> []"
proof (induction v)
  case (Cons c v)
  show ?case
  proof (cases "safeByte c")
    case True
    then show ?thesis
      using trimSpace_keeps safe_bytes(7) by blast
  next
    case False
    with Cons have "spaceByte c" "trimSpace v \<noteq> []"
      by auto
    then show ?thesis
      using trimSpace_space [of c v] by (auto simp: isNginxSpace_def)
  qed
qed simp

text \<open>A text of safe bytes and blanks is accepted.\<close>

lemma safe_text:
  assumes "\<forall>c \<in> set v. spaceByte c \<or> safeByte c" "\<exists>c \<in> set v. safeByte c" "noLineBreak v"
  shows "ValidateDirectiveValue v = None"
  using trimSpace_safe [OF assms(1,2)] accepts_safe [OF assms(1,3)] accepts_ValidateDirectiveValue by blast

lemma fieldsBy_nonempty: "p \<in> set (fieldsBy sep v) \<Longrightarrow> p \<noteq> []"
  by (induction sep v rule: fieldsBy.induct) (auto split: if_splits)

lemma fieldsBy_subset: "p \<in> set (fieldsBy sep v) \<Longrightarrow> set p \<subseteq> set v"
proof (induction sep v rule: fieldsBy.induct)
  case (2 sep c v)
  have "set (takeWhile (\<lambda>x. \<not> sep x) v) \<subseteq> set v" "set (dropWhile (\<lambda>x. \<not> sep x) v) \<subseteq> set v"
    by (auto dest: set_takeWhileD set_dropWhileD)
  with 2 show ?case
    by (cases "sep c") auto
qed simp

text \<open>
  C27. An accepted list of TLS protocols consists of white space and of the bytes of protocol names,
  so that no delimiter, quote or backslash gets through although it is rendered without quotes; if
  it has no line break, the general check accepts it as well.
\<close>

theorem tls_protocols_safe:
  assumes "ValidateTLSProtocols v = None"
  shows "(\<forall>c \<in> set v. isNginxSpace (rune c) \<or> protocolByte c) \<and>
    (noLineBreak v \<longrightarrow> ValidateDirectiveValue v = None)"
proof -
  let ?fs = "fieldsBy (\<lambda>c. spaceByte c) v"
  have f: "?fs \<noteq> []" "\<forall>p \<in> set ?fs. toLower p \<in> set validTLSProtocols"
    using assms by (auto simp: ValidateTLSProtocols_def find_None_iff Let_def split: if_splits)
  have "protocolByte c" if "p \<in> set ?fs" "c \<in> set p" for p c
  proof -
    have "lowerChar c \<in> set (toLower p)"
      using that(2) by (auto simp: toLower_def)
    moreover have "toLower p \<in> set validTLSProtocols"
      using f(2) that(1) by blast
    ultimately have "protocolByte (lowerChar c)"
      by (auto simp: validTLSProtocols_def protocolByte_def)
    then show ?thesis
      by (rule lowerChar_protocol)
  qed
  then have bytes: "\<forall>c \<in> set v. spaceByte c \<or> protocolByte c"
    using fieldsBy_bytes [of _ v "\<lambda>c. spaceByte c"] by blast
  obtain p c where "p \<in> set ?fs" "c \<in> set p"
    using f(1) fieldsBy_nonempty by (metis list.set_intros(1) neq_Nil_conv)
  then have "\<exists>c \<in> set v. protocolByte c"
    using \<open>\<And>c p. p \<in> set ?fs \<Longrightarrow> c \<in> set p \<Longrightarrow> protocolByte c\<close> fieldsBy_subset by blast
  then have "noLineBreak v \<longrightarrow> ValidateDirectiveValue v = None"
    using safe_text [of v] bytes protocol_safe by blast
  with bytes show ?thesis
    by blast
qed

theorem tls_protocols_safe_witness:
  "ValidateTLSProtocols ''TLSv1.2  tlsv1.3'' = None \<and> ValidateDirectiveValue ''TLSv1.2  tlsv1.3'' = None"
proof -
  have "ValidateTLSProtocols ''TLSv1.2  tlsv1.3'' = None"
    by code_simp
  moreover have "noLineBreak ''TLSv1.2  tlsv1.3''"
    by (simp add: noLineBreak_def)
  ultimately show ?thesis
    using tls_protocols_safe [of "''TLSv1.2  tlsv1.3''"] by blast
qed

end
