(* ===== verification/Value_Parsers.thy ===== *)
theory Value_Parsers
  imports Nginx_Values
begin

text \<open>
  The parsers of annotation and ConfigMap values (\<^verbatim>\<open>internal/configs/parsing_helpers.go\<close>), with the
  checks of hosts, ports and header lists of \<^verbatim>\<open>internal/validation\<close>. A parser that returns an error
  returns \<^const>\<open>None\<close>.

  The regular expressions are written as predicates on bytes. Their classes are ASCII classes or
  complements of ASCII classes, so a rune that is not ASCII matches as its bytes do.
\<close>

section \<open>Keys of a map\<close>

text \<open>
  \<^verbatim>\<open>GetMapKeyAsBool\<close> and its siblings return the value, whether the key exists, and whether there is an
  error. The text of the error names the object and is not modelled.
\<close>

definition getMapKeyAs :: "(string \<Rightarrow> 'a option) \<Rightarrow> 'a \<Rightarrow> (string, string) gomap \<Rightarrow> string \<Rightarrow> 'a \<times> bool \<times> bool" where
  "getMapKeyAs parse zero m key =
     (case gget m key of
        None \<Rightarrow> (zero, False, False)
      | Some str \<Rightarrow> (case parse str of None \<Rightarrow> (zero, True, True) | Some v \<Rightarrow> (v, True, False)))"

definition ParseBool :: "string \<Rightarrow> bool option" where
  "ParseBool s =
     (if s \<in> {''1'', ''t'', ''T'', ''TRUE'', ''true'', ''True''} then Some True
      else if s \<in> {''0'', ''f'', ''F'', ''FALSE'', ''false'', ''False''} then Some False
      else None)"

definition ParseInt :: "string \<Rightarrow> int option" where
  "ParseInt = atoi"

text \<open>\<^verbatim>\<open>strconv.ParseInt(s, 10, 64)\<close> accepts what \<^verbatim>\<open>Atoi\<close> accepts, ints having 64 bits.\<close>

definition ParseInt64 :: "string \<Rightarrow> int option" where
  "ParseInt64 = atoi"

definition ParseUint64 :: "string \<Rightarrow> 64 word option" where
  "ParseUint64 = parseUint"

definition GetMapKeyAsBool :: "(string, string) gomap \<Rightarrow> string \<Rightarrow> bool \<times> bool \<times> bool" where
  "GetMapKeyAsBool = getMapKeyAs ParseBool False"

definition GetMapKeyAsInt :: "(string, string) gomap \<Rightarrow> string \<Rightarrow> int \<times> bool \<times> bool" where
  "GetMapKeyAsInt = getMapKeyAs ParseInt 0"

definition GetMapKeyAsInt64 :: "(string, string) gomap \<Rightarrow> string \<Rightarrow> int \<times> bool \<times> bool" where
  "GetMapKeyAsInt64 = getMapKeyAs ParseInt64 0"

definition GetMapKeyAsUint64 :: "(string, string) gomap \<Rightarrow> string \<Rightarrow> bool \<Rightarrow> 64 word \<times> bool \<times> bool" where
  "GetMapKeyAsUint64 m key nonZero =
     getMapKeyAs (\<lambda>s. case ParseUint64 s of None \<Rightarrow> None | Some i \<Rightarrow> if nonZero \<and> i = 0 then None else Some i) 0 m key"

definition GetMapKeyAsStringSlice :: "(string, string) gomap \<Rightarrow> string \<Rightarrow> char \<Rightarrow> string list option" where
  "GetMapKeyAsStringSlice m key sep = map_option (splitOn sep) (gget m key)"

section \<open>Load balancing methods\<close>

definition nginxLBValidInput :: "string list" where
  "nginxLBValidInput = [''least_conn'', ''ip_hash'', ''random'', ''random two'', ''random two least_conn'']"

definition nginxPlusLBValidInput :: "string list" where
  "nginxPlusLBValidInput =
     [''least_conn'', ''ip_hash'', ''random'', ''random two'', ''random two least_conn'',
      ''random two least_time=header'', ''random two least_time=last_byte'', ''least_time header'',
      ''least_time last_byte'', ''least_time header inflight'', ''least_time last_byte inflight'']"

definition validateHashLBMethod :: "string \<Rightarrow> string option" where
  "validateHashLBMethod method =
     (if ValidateDirectiveValue method \<noteq> None then None
      else if CHR 0x09 \<in> set method then None
      else case splitOn CHR '' '' method of
             [k, _] \<Rightarrow> if k = ''hash'' then Some method else None
           | [k, _, c] \<Rightarrow> if k = ''hash'' \<and> c = ''consistent'' then Some method else None
           | _ \<Rightarrow> None)"

text \<open>The body of both functions, which differ in the table of methods.\<close>

definition parseLBMethodWith :: "string list \<Rightarrow> string \<Rightarrow> string option" where
  "parseLBMethodWith table method0 =
     (let method = trimSpace method0
      in if method = ''round_robin'' then Some []
         else if hasPrefix method ''hash'' then validateHashLBMethod method
         else if method \<in> set table then Some method
         else None)"

definition ParseLBMethod :: "string \<Rightarrow> string option" where
  "ParseLBMethod = parseLBMethodWith nginxLBValidInput"

definition ParseLBMethodForPlus :: "string \<Rightarrow> string option" where
  "ParseLBMethodForPlus = parseLBMethodWith nginxPlusLBValidInput"

definition ParseAddHeaderInherit :: "string \<Rightarrow> string option" where
  "ParseAddHeaderInherit value0 =
     (let value = toLower (trimSpace value0) in if value \<in> {''on'', ''off'', ''merge''} then Some value else None)"

section \<open>Times\<close>

text \<open>\<^verbatim>\<open>\s\<close> of Go regular expressions.\<close>

definition regexSpace :: "char \<Rightarrow> bool" where
  "regexSpace c = (rune c = 9 \<or> rune c = 10 \<or> rune c = 12 \<or> rune c = 13 \<or> rune c = 32)"

text \<open>
  \<^verbatim>\<open>timeRegexp\<close>: a group for each unit, lazy, with white space between groups. A lazy group is tried
  empty first. The unit of seconds may be left out. A group takes all digits at its place: the rest
  of the expression has no other way to match the digits than the group for milliseconds, which the
  empty choice has tried.
\<close>

definition timeUnit :: "string \<Rightarrow> string \<Rightarrow> (string \<times> string) option" where
  "timeUnit u s =
     (let ds = takeWhile isDigit s; r = dropWhile isDigit s
      in if ds = [] then None
         else if hasPrefix r u then Some (ds @ u, drop (length u) r)
         else if u = ''s'' then Some (ds, r)
         else None)"

fun matchTime :: "string list \<Rightarrow> string \<Rightarrow> string list option" where
  "matchTime [] s = None"
| "matchTime [u] s =
     (if s = [] then Some [[]]
      else case timeUnit u s of Some (g, r) \<Rightarrow> if r = [] then Some [g] else None | None \<Rightarrow> None)"
| "matchTime (u # us) s =
     (case matchTime us (dropWhile regexSpace s) of
        Some gs \<Rightarrow> Some ([] # gs)
      | None \<Rightarrow>
          (case timeUnit u s of
             Some (g, r) \<Rightarrow> map_option ((#) g) (matchTime us (dropWhile regexSpace r))
           | None \<Rightarrow> None))"

definition timeUnits :: "string list" where
  "timeUnits = [''y'', ''M'', ''w'', ''d'', ''h'', ''m'', ''s'', ''ms'']"

definition ParseTime :: "string \<Rightarrow> string option" where
  "ParseTime s =
     (if s = [] \<or> trimSpace s = [] then None
      else case matchTime timeUnits s of
             Some [years, months, weeks, days, hours, mins, secs, millis] \<Rightarrow>
               (let secs' = (if secs \<noteq> [] \<and> last secs \<noteq> CHR ''s'' then secs @ ''s'' else secs)
                in Some (years @ months @ weeks @ days @ hours @ mins @ secs' @ millis))
           | _ \<Rightarrow> None)"

section \<open>Sizes and rates\<close>

text \<open>Digits and at most one of the unit letters: \<^verbatim>\<open>\d+[...]?\<close>.\<close>

definition sizeShape :: "string \<Rightarrow> string \<Rightarrow> bool" where
  "sizeShape units s =
     (takeWhile isDigit s \<noteq> [] \<and>
      (case dropWhile isDigit s of [] \<Rightarrow> True | [c] \<Rightarrow> c \<in> set units | _ \<Rightarrow> False))"

definition ParseOffset :: "string \<Rightarrow> string option" where
  "ParseOffset s0 = (let s = trimSpace s0 in if sizeShape ''kKmMgG'' s then Some s else None)"

definition ParseSize :: "string \<Rightarrow> string option" where
  "ParseSize s0 = (let s = trimSpace s0 in if sizeShape ''kKmM'' s then Some s else None)"

definition ParseRequestRate :: "string \<Rightarrow> string option" where
  "ParseRequestRate s0 =
     (let s = trimSpace s0; ds = takeWhile isDigit s
      in if ds = [] \<or> dropWhile isDigit s \<notin> {''r/s'', ''r/m''} then None
         else case atoi ds of None \<Rightarrow> None | Some number \<Rightarrow> if number \<le> 0 then None else Some s)"

text \<open>\<^verbatim>\<open>^(\d+) (\d+)([a-zA-Z]?)$\<close>: the groups.\<close>

definition asciiLetter :: "char \<Rightarrow> bool" where
  "asciiLetter c = (byteIn 65 90 c \<or> byteIn 97 122 c)"

definition buffersGroups :: "string \<Rightarrow> (string \<times> string \<times> string) option" where
  "buffersGroups s =
     (case dropWhile isDigit s of
        c # r \<Rightarrow>
          (let unit = dropWhile isDigit r
           in if takeWhile isDigit s \<noteq> [] \<and> c = CHR '' '' \<and> takeWhile isDigit r \<noteq> [] \<and>
                 (case unit of [] \<Rightarrow> True | [u] \<Rightarrow> asciiLetter u | _ \<Rightarrow> False)
              then Some (takeWhile isDigit s, takeWhile isDigit r, unit) else None)
      | [] \<Rightarrow> None)"

definition proxyBuffersShape :: "string \<Rightarrow> bool" where
  "proxyBuffersShape s =
     (case dropWhile isDigit s of
        c # r \<Rightarrow> takeWhile isDigit s \<noteq> [] \<and> c = CHR '' '' \<and> sizeShape ''kKmM'' r
      | [] \<Rightarrow> False)"

definition ParseProxyBuffersSpec :: "string \<Rightarrow> string option" where
  "ParseProxyBuffersSpec s0 =
     (let s = trimSpace s0
      in if proxyBuffersShape s then Some s
         else case buffersGroups s of
                Some (bufferCount, bufferSize, u) \<Rightarrow>
                  (let unit = toLower u
                   in if unit \<in> {[], ''k'', ''m''} then Some (bufferCount @ '' '' @ bufferSize @ unit) else None)
              | None \<Rightarrow> None)"

section \<open>Lists\<close>

text \<open>\<^verbatim>\<open>strconv.ParseInt(value, 10, 32)\<close>\<close>

definition parsePort :: "string \<Rightarrow> int option" where
  "parsePort value =
     (case atoi value of
        None \<Rightarrow> None
      | Some port \<Rightarrow> if port < - (2 ^ 31) \<or> 2 ^ 31 \<le> port then None else if port \<le> 0 then None else Some port)"

fun parsePorts :: "string list \<Rightarrow> int list option" where
  "parsePorts [] = Some []"
| "parsePorts (value # values) =
     (case parsePort value of None \<Rightarrow> None | Some port \<Rightarrow> map_option ((#) port) (parsePorts values))"

definition ParsePortList :: "string \<Rightarrow> int list option" where
  "ParsePortList s = parsePorts (splitOn CHR '','' s)"

definition ParseServiceList :: "string \<Rightarrow> (string, bool) gomap" where
  "ParseServiceList s = fold (\<lambda>part services. gput services part True) (splitOn CHR '','' s) []"

text \<open>\<^verbatim>\<open>strings.SplitN(s, " ", 2)\<close>\<close>

definition splitFirst :: "string \<Rightarrow> string list" where
  "splitFirst s =
     (case dropWhile (\<lambda>c. c \<noteq> CHR '' '') s of
        [] \<Rightarrow> [s]
      | _ # rest \<Rightarrow> [takeWhile (\<lambda>c. c \<noteq> CHR '' '') s, rest])"

definition VerifyPath :: "string \<Rightarrow> bool" where
  "VerifyPath s =
     (case s of
        [] \<Rightarrow> False
      | c # cs \<Rightarrow> c = CHR ''/'' \<and> list_all (\<lambda>d. \<not> regexSpace d \<and> d \<notin> set ''{};$'') cs)"

definition parseRewrites :: "string \<Rightarrow> (string \<times> string) option" where
  "parseRewrites service =
     (case splitFirst (trimSpace service) of
        [p0, p1] \<Rightarrow>
          (case (splitOn CHR ''='' p0, splitOn CHR ''='' p1) of
             ([k, svc], [r, path]) \<Rightarrow>
               if k = ''serviceName'' \<and> r = ''rewrite'' \<and> VerifyPath path then Some (svc, path) else None
           | _ \<Rightarrow> None)
      | _ \<Rightarrow> None)"

text \<open>\<^verbatim>\<open>^([^"$\\]|\\[^$])*$\<close>\<close>

fun stickyCookieShape :: "string \<Rightarrow> bool" where
  "stickyCookieShape [] = True"
| "stickyCookieShape [c] = (c \<notin> {dquote, CHR ''$'', backslash})"
| "stickyCookieShape (c # d # s) =
     (if c = backslash then d \<noteq> CHR ''$'' \<and> stickyCookieShape s
      else c \<notin> {dquote, CHR ''$''} \<and> stickyCookieShape (d # s))"

definition parseStickyService :: "string \<Rightarrow> (string \<times> string) option" where
  "parseStickyService service =
     (case splitFirst service of
        [p0, p1] \<Rightarrow>
          (case splitOn CHR ''='' p0 of
             [_, svc] \<Rightarrow> if stickyCookieShape p1 then Some (svc, p1) else None
           | _ \<Rightarrow> None)
      | _ \<Rightarrow> None)"

text \<open>The loop of \<^verbatim>\<open>ParseRewriteList\<close> and \<^verbatim>\<open>ParseStickyServiceList\<close>.\<close>

fun collectParts :: "(string \<Rightarrow> (string \<times> string) option) \<Rightarrow> string list \<Rightarrow> (string, string) gomap \<Rightarrow> (string, string) gomap option" where
  "collectParts parse [] m = Some m"
| "collectParts parse (part # parts) m =
     (case parse part of None \<Rightarrow> None | Some (k, v) \<Rightarrow> collectParts parse parts (gput m k v))"

definition ParseRewriteList :: "string \<Rightarrow> (string, string) gomap option" where
  "ParseRewriteList s = collectParts parseRewrites (splitOn CHR '';'' s) []"

definition ParseStickyServiceList :: "string \<Rightarrow> (string, string) gomap option" where
  "ParseStickyServiceList s = collectParts parseStickyService (splitOn CHR '';'' s) []"

section \<open>Thresholds\<close>

text \<open>
  The expressions for thresholds are not anchored: they match anywhere in the value. What the group
  of a number leaves of the text; \<^verbatim>\<open>\b\<close> after the last number is the end of the text or a byte that
  is no word character.
\<close>

definition percentRests :: "string \<Rightarrow> string list" where
  "percentRests s =
     (case s of a # r \<Rightarrow> if byteIn 49 57 a then [r] else [] | [] \<Rightarrow> []) @
     (case s of a # b # r \<Rightarrow> if byteIn 49 57 a \<and> isDigit b then [r] else [] | _ \<Rightarrow> []) @
     (if hasPrefix s ''100'' then [drop 3 s] else [])"

definition wordChar :: "char \<Rightarrow> bool" where
  "wordChar c = (asciiLetter c \<or> isDigit c \<or> c = CHR ''_'')"

definition thresholdsAt :: "string \<Rightarrow> string \<Rightarrow> string \<Rightarrow> bool" where
  "thresholdsAt name1 name2 s =
     (hasPrefix s name1 \<and>
      list_ex (\<lambda>r. hasPrefix r name2 \<and>
          list_ex (\<lambda>t. case t of [] \<Rightarrow> True | c # _ \<Rightarrow> \<not> wordChar c) (percentRests (drop (length name2) r)))
        (percentRests (drop (length name1) s)))"

fun matchesSomewhere :: "(string \<Rightarrow> bool) \<Rightarrow> string \<Rightarrow> bool" where
  "matchesSomewhere P [] = P []"
| "matchesSomewhere P (c # s) = (P (c # s) \<or> matchesSomewhere P s)"

definition VerifyAppProtectThresholds :: "string \<Rightarrow> bool" where
  "VerifyAppProtectThresholds v =
     (matchesSomewhere (thresholdsAt ''high='' '' low='') v \<or> matchesSomewhere (thresholdsAt ''low='' '' high='') v)"

section \<open>Status codes\<close>

definition customHTTPErrorMaxCodes :: nat where
  "customHTTPErrorMaxCodes = 300"

definition nginxErrorPageRejectedCodes :: "int list" where
  "nginxErrorPageRejectedCodes = [499]"

definition expandHTTPErrorRange :: "int \<Rightarrow> int \<Rightarrow> int list \<Rightarrow> int list" where
  "expandHTTPErrorRange start end codes =
     fold (\<lambda>c codes. if c \<in> set nginxErrorPageRejectedCodes then codes else List.insert c codes) [start..end] codes"

definition isASCIIDigits :: "string \<Rightarrow> bool" where
  "isASCIIDigits s = (s \<noteq> [] \<and> list_all isDigit s)"

definition parseCustomHTTPErrorToken :: "string \<Rightarrow> int list \<Rightarrow> int list option" where
  "parseCustomHTTPErrorToken token codes =
     (if toLower token = ''4xx'' then Some (expandHTTPErrorRange 400 499 codes)
      else if toLower token = ''5xx'' then Some (expandHTTPErrorRange 500 599 codes)
      else if \<not> isASCIIDigits token then None
      else case atoi token of
             None \<Rightarrow> None
           | Some code \<Rightarrow>
               if code < 300 \<or> 599 < code then None
               else if code \<in> set nginxErrorPageRejectedCodes then None
               else Some (List.insert code codes))"

fun customErrorTokens :: "string list \<Rightarrow> int list \<Rightarrow> int list option" where
  "customErrorTokens [] codes = Some codes"
| "customErrorTokens (raw # raws) codes =
     (let token = trimSpace raw
      in if token = [] then customErrorTokens raws codes
         else case parseCustomHTTPErrorToken token codes of
                None \<Rightarrow> None
              | Some codes' \<Rightarrow> customErrorTokens raws codes')"

datatype customErrorsError = EmptyErrors | InvalidCode | NoCodes | TooManyCodes

definition ParseCustomHTTPErrors :: "string \<Rightarrow> customErrorsError + int list" where
  "ParseCustomHTTPErrors value =
     (if trimSpace value = [] then Inl EmptyErrors
      else case customErrorTokens (splitOn CHR '','' value) [] of
             None \<Rightarrow> Inl InvalidCode
           | Some codes \<Rightarrow>
               if codes = [] then Inl NoCodes
               else if length codes > customHTTPErrorMaxCodes then Inl TooManyCodes
               else Inr (sort codes))"

section \<open>Header names, hosts and URIs\<close>

text \<open>\<^verbatim>\<open>IsHTTPHeaderName\<close> of the Kubernetes library is the parameter \<open>messages\<close>.\<close>

definition SplitHeaderNameList :: "string \<Rightarrow> string list" where
  "SplitHeaderNameList value = map trimSpace (splitOn CHR '','' value)"

definition ValidateHeaderNameList :: "(string \<Rightarrow> string list) \<Rightarrow> string \<Rightarrow> string list \<times> string list" where
  "ValidateHeaderNameList messages value =
     (let names = SplitHeaderNameList value in (names, concat (map messages names)))"

definition ValidateRealIPHeader :: "(string \<Rightarrow> string list) \<Rightarrow> string \<Rightarrow> string list" where
  "ValidateRealIPHeader messages value = (if value = ''proxy_protocol'' then [] else messages value)"

definition ParseHeaderList :: "(string \<Rightarrow> string list) \<Rightarrow> string \<Rightarrow> string list option" where
  "ParseHeaderList messages s =
     (let (names, msgs) = ValidateHeaderNameList messages s in if msgs \<noteq> [] then None else Some names)"

text \<open>The checks of ports return whether there is an error.\<close>

definition ValidatePort :: "int \<Rightarrow> bool" where
  "ValidatePort value = (value > 65535 \<or> value < 1)"

definition ValidateUnprivilegedPort :: "int \<Rightarrow> bool" where
  "ValidateUnprivilegedPort value = (value > 65535 \<or> value < 1023)"

definition alnum :: "char \<Rightarrow> bool" where
  "alnum c = (asciiLetter c \<or> isDigit c)"

definition hostChar :: "char \<Rightarrow> bool" where
  "hostChar c = (alnum c \<or> c = CHR ''-'')"

text \<open>\<^verbatim>\<open>(?::\d{1,5})?$\<close>\<close>

definition portSuffix :: "string \<Rightarrow> bool" where
  "portSuffix s =
     (case s of [] \<Rightarrow> True | c # ds \<Rightarrow> c = CHR '':'' \<and> ds \<noteq> [] \<and> length ds \<le> 5 \<and> list_all isDigit ds)"

fun octet :: "string \<Rightarrow> bool" where
  "octet [a] = isDigit a"
| "octet [a, b] = (byteIn 49 57 a \<and> isDigit b)"
| "octet [a, b, c] =
     ((a = CHR ''2'' \<and> b = CHR ''5'' \<and> byteIn 48 53 c) \<or> (a = CHR ''2'' \<and> byteIn 48 52 b \<and> isDigit c) \<or>
      (a = CHR ''1'' \<and> isDigit b \<and> isDigit c))"
| "octet _ = False"

definition validIPShape :: "string \<Rightarrow> bool" where
  "validIPShape base = (length (splitOn CHR ''.'' base) = 4 \<and> list_all octet (splitOn CHR ''.'' base))"

definition validDNSShape :: "string \<Rightarrow> bool" where
  "validDNSShape base =
     (let labels = splitOn CHR ''.'' base; first = hd labels; top = last labels
      in 2 \<le> length labels \<and>
         2 \<le> length first \<and> length first \<le> 63 \<and> alnum (hd first) \<and> list_all hostChar first \<and>
         list_all (\<lambda>l. 1 \<le> length l \<and> length l \<le> 63 \<and> list_all hostChar l) (butlast (tl labels)) \<and>
         2 \<le> length top \<and> length top \<le> 63 \<and> list_all asciiLetter top)"

definition validHostnameShape :: "string \<Rightarrow> bool" where
  "validHostnameShape base =
     (2 \<le> length base \<and> length base \<le> 63 \<and> byteIn 97 122 (hd base) \<and> list_all hostChar (tl base))"

datatype hostError = EmptyHost | BadPort | BadHost

definition ValidateHost :: "string \<Rightarrow> hostError option" where
  "ValidateHost host =
     (if host = [] then Some EmptyHost
      else
        (let base = takeWhile (\<lambda>c. c \<noteq> CHR '':'') host; rest = dropWhile (\<lambda>c. c \<noteq> CHR '':'') host
         in if portSuffix rest \<and> (validIPShape base \<or> validDNSShape base \<or> validHostnameShape base) then
              (case splitOn CHR '':'' host of
                 _ # port # _ \<Rightarrow>
                   (case atoi port of None \<Rightarrow> Some BadPort | Some n \<Rightarrow> if ValidatePort n then Some BadPort else None)
               | _ \<Rightarrow> None)
            else Some BadHost))"

text \<open>
  \<^verbatim>\<open>ValidateURI\<close>. \<^verbatim>\<open>url.Parse\<close> and \<^verbatim>\<open>netip.ParseAddr\<close> are parameters: the parsed URL or nothing, and
  whether an address is IPv4 or nothing.
\<close>

record parsedURL =
  url_Scheme :: string
  url_hasUser :: bool
  url_Host :: string
  url_Hostname :: string
  url_Port :: string

record uriValidator =
  uri_allowedSchemes :: "string list"
  uri_userAllowed :: bool
  uri_defaultScheme :: string

datatype uriError = URIUnparsed | URIScheme | URIUser | URIv6 | URIPort | URILabel

definition schemeSeparator :: string where
  "schemeSeparator = ''://''"

definition containsText :: "string \<Rightarrow> string \<Rightarrow> bool" where
  "containsText s t = matchesSomewhere (\<lambda>r. hasPrefix r t) s"

definition ValidateURI :: "(string \<Rightarrow> parsedURL option) \<Rightarrow> (string \<Rightarrow> bool option) \<Rightarrow> uriValidator \<Rightarrow> string \<Rightarrow> uriError option" where
  "ValidateURI parse parseAddr cfg uri0 =
     (let uri = (if \<not> containsText uri0 schemeSeparator then uri_defaultScheme cfg @ schemeSeparator @ uri0 else uri0)
      in case parse uri of
           None \<Rightarrow> Some URIUnparsed
         | Some parsed \<Rightarrow>
             if url_Scheme parsed \<notin> set (uri_allowedSchemes cfg) then Some URIScheme
             else if \<not> uri_userAllowed cfg \<and> url_hasUser parsed then Some URIUser
             else if parseAddr (if CHR ''['' \<in> set (url_Host parsed) then url_Hostname parsed else url_Host parsed) = Some False
               then Some URIv6
             else if url_Port parsed \<noteq> [] \<and>
                 (case atoi (url_Port parsed) of None \<Rightarrow> True | Some n \<Rightarrow> ValidatePort n) then Some URIPort
             else if list_ex (\<lambda>part. length part > 63) (splitOn CHR ''.'' (url_Hostname parsed)) then Some URILabel
             else None)"

section \<open>Parsed status codes\<close>

definition goodCodes :: "int list \<Rightarrow> bool" where
  "goodCodes codes = (distinct codes \<and> (\<forall>c \<in> set codes. 300 \<le> c \<and> c \<le> 599 \<and> c \<noteq> 499))"

lemma goodCodes_insert: "goodCodes codes \<Longrightarrow> 300 \<le> c \<Longrightarrow> c \<le> 599 \<Longrightarrow> c \<noteq> 499 \<Longrightarrow> goodCodes (List.insert c codes)"
  by (simp add: goodCodes_def)

lemma rejected_code: "c \<in> set nginxErrorPageRejectedCodes \<longleftrightarrow> c = 499"
  by (simp add: nginxErrorPageRejectedCodes_def)

lemma expandRange_codes:
  assumes "goodCodes codes" "300 \<le> a" "b \<le> 599"
  shows "goodCodes (expandHTTPErrorRange a b codes)"
proof -
  have "goodCodes (fold (\<lambda>c codes. if c \<in> set nginxErrorPageRejectedCodes then codes else List.insert c codes) xs codes)"
    if "\<forall>c \<in> set xs. 300 \<le> c \<and> c \<le> 599" "goodCodes codes" for xs codes
    using that by (induction xs arbitrary: codes) (simp_all add: rejected_code goodCodes_insert)
  from this [of "[a..b]" codes] assms show ?thesis
    by (simp add: expandHTTPErrorRange_def)
qed

lemma parseToken_codes:
  assumes "goodCodes codes" "parseCustomHTTPErrorToken t codes = Some codes'"
  shows "goodCodes codes'"
proof -
  note e = expandRange_codes [OF assms(1), of 400 499] expandRange_codes [OF assms(1), of 500 599]
  show ?thesis
  proof (cases "toLower t = ''4xx'' \<or> toLower t = ''5xx''")
    case True
    with assms(2) e show ?thesis
      by (auto simp: parseCustomHTTPErrorToken_def split: if_splits)
  next
    case False
    with assms(2) obtain code where "300 \<le> code" "code \<le> 599" "code \<noteq> 499" "codes' = List.insert code codes"
      by (auto simp: parseCustomHTTPErrorToken_def rejected_code not_less split: if_splits option.splits)
    with assms(1) show ?thesis
      by (simp add: goodCodes_insert)
  qed
qed

lemma customErrorTokens_codes: "goodCodes codes \<Longrightarrow> customErrorTokens raws codes = Some codes' \<Longrightarrow> goodCodes codes'"
  by (induction raws codes rule: customErrorTokens.induct)
    (auto simp: Let_def split: if_splits option.splits dest: parseToken_codes)

lemma goodCodes_length: "goodCodes codes \<Longrightarrow> length codes \<le> 299"
proof -
  assume g: "goodCodes codes"
  then have "set codes \<subseteq> {300..599} - {499}"
    by (auto simp: goodCodes_def)
  then have "card (set codes) \<le> card ({300..599} - {499 :: int})"
    by (rule card_mono [rotated]) simp
  then show ?thesis
    using g by (simp add: goodCodes_def distinct_card)
qed

text \<open>
  C28. The status codes of \<^verbatim>\<open>nginx.org/custom-http-errors\<close>: what is returned is not empty, strictly
  sorted, within 300 to 599 and without 499, which NGINX rejects; the error about too many codes
  cannot occur.
\<close>

theorem custom_errors_codes:
  "case ParseCustomHTTPErrors value of
     Inr codes \<Rightarrow> codes \<noteq> [] \<and> sorted_wrt (<) codes \<and> list_all (\<lambda>c. 300 \<le> c \<and> c \<le> 599 \<and> c \<noteq> 499) codes
   | Inl e \<Rightarrow> e \<noteq> TooManyCodes"
proof (cases "customErrorTokens (splitOn CHR '','' value) []")
  case (Some codes)
  then have g: "goodCodes codes"
    by (rule customErrorTokens_codes [rotated]) (simp add: goodCodes_def)
  then have "sorted_wrt (<) (sort codes)"
    by (simp add: goodCodes_def strict_sorted_iff)
  moreover have "sort codes = [] \<longleftrightarrow> codes = []"
    by (metis set_empty set_sort)
  ultimately show ?thesis
    using g Some goodCodes_length [OF g]
    by (auto simp: ParseCustomHTTPErrors_def goodCodes_def list_all_iff customHTTPErrorMaxCodes_def)
qed (simp add: ParseCustomHTTPErrors_def)

section \<open>Times in normal form\<close>

text \<open>The group of a unit: empty, or digits with the unit, which seconds may lack.\<close>

definition timeGroup :: "string \<Rightarrow> string \<Rightarrow> bool" where
  "timeGroup u g = (g = [] \<or> (\<exists>ds. ds \<noteq> [] \<and> list_all isDigit ds \<and> (g = ds @ u \<or> (u = ''s'' \<and> g = ds))))"

lemma timeUnit_group: "timeUnit u s = Some (g, r) \<Longrightarrow> timeGroup u g \<and> g \<noteq> []"
  by (auto simp: timeUnit_def timeGroup_def Let_def list_all_iff split: if_splits dest: set_takeWhileD)

lemma matchTime_groups: "matchTime us s = Some gs \<Longrightarrow> list_all2 timeGroup us gs"
proof (induction us s arbitrary: gs rule: matchTime.induct)
  case (2 u s)
  then show ?case
    using timeUnit_group by (fastforce simp: timeGroup_def split: if_splits option.splits)
next
  case (3 u v us s)
  show ?case
  proof (cases "matchTime (v # us) (dropWhile regexSpace s)")
    case (Some gs')
    with 3 show ?thesis
      by (auto simp: timeGroup_def)
  next
    case None
    with 3(3) obtain g r gs' where "timeUnit u s = Some (g, r)" "matchTime (v # us) (dropWhile regexSpace r) = Some gs'" "gs = g # gs'"
      by (auto split: option.splits)
    with 3(2) [OF None] timeUnit_group [of u s g r] show ?thesis
      by auto
  qed
qed simp

text \<open>All groups are empty only for white space.\<close>

lemma matchTime_blank:
  "matchTime us s = Some gs \<Longrightarrow> list_all (\<lambda>g. g = []) gs \<Longrightarrow> list_all regexSpace s"
proof (induction us s arbitrary: gs rule: matchTime.induct)
  case (2 u s)
  then show ?case
    using timeUnit_group by (fastforce split: if_splits option.splits)
next
  case (3 u v us s)
  show ?case
  proof (cases "matchTime (v # us) (dropWhile regexSpace s)")
    case (Some gs')
    with 3 have "list_all regexSpace (dropWhile regexSpace s)"
      by auto
    then have "dropWhile regexSpace s = []"
      by (cases "dropWhile regexSpace s") (auto simp: dropWhile_eq_Cons_conv)
    then show ?thesis
      by (simp add: dropWhile_eq_Nil_conv list_all_iff)
  next
    case None
    with 3(3,4) timeUnit_group show ?thesis
      by (fastforce split: option.splits)
  qed
qed simp

lemma trimLeftSpace_blank: "list_all asciiSpace s \<Longrightarrow> trimLeftSpace s = []"
  by (induction s) (simp_all add: trimLeftSpace.simps [of "_ # _"] trimLeftSpace.simps [of "[]"] spaceWidth_def)

lemma trimSpace_blank: "list_all regexSpace s \<Longrightarrow> trimSpace s = []"
proof -
  assume "list_all regexSpace s"
  then have "list_all asciiSpace s"
    by (auto simp: list_all_iff regexSpace_def)
  then show ?thesis
    by (simp add: trimSpace_def trimLeftSpace_blank trimEndSpace.simps [of "[]"] spaceWidthEnd_def)
qed

text \<open>A unit is not mistaken for a later one when digits or nothing follow.\<close>

definition unitBefore :: "string \<Rightarrow> string \<Rightarrow> bool" where
  "unitBefore u u' = (hd u \<noteq> hd u' \<or> (u = ''m'' \<and> u' = ''ms''))"

definition unitList :: "string list \<Rightarrow> bool" where
  "unitList us = (sorted_wrt unitBefore us \<and> list_all (\<lambda>u. u \<noteq> [] \<and> \<not> isDigit (hd u) \<and> \<not> regexSpace (hd u)) us)"

definition startsDigit :: "string \<Rightarrow> bool" where
  "startsDigit r = (case r of [] \<Rightarrow> True | c # _ \<Rightarrow> isDigit c)"

lemma unitBefore_prefix: "unitBefore u u' \<Longrightarrow> u \<noteq> [] \<Longrightarrow> u' \<noteq> [] \<Longrightarrow> startsDigit r \<Longrightarrow> \<not> hasPrefix (u @ r) u'"
  by (cases u; cases u'; cases r) (auto simp: unitBefore_def hasPrefix_def startsDigit_def isDigit_def)

lemma digit_not_space: "isDigit c \<Longrightarrow> \<not> regexSpace c"
  by (auto simp: isDigit_def regexSpace_def)

lemma dropWhile_startsDigit: "startsDigit r \<Longrightarrow> dropWhile regexSpace r = r"
  by (cases r) (auto simp: startsDigit_def digit_not_space)

lemma matchTime_letter: "\<not> isDigit c \<Longrightarrow> \<not> regexSpace c \<Longrightarrow> matchTime us (c # s) = None"
proof (induction us)
  case (Cons u us)
  then show ?case
    by (cases us) (simp_all add: timeUnit_def)
qed simp

lemma matchTime_later:
  assumes ds: "ds \<noteq> []" "list_all isDigit ds" and u: "u \<noteq> []" "\<not> isDigit (hd u)" "\<not> regexSpace (hd u)" and r: "startsDigit r"
  shows "list_all (\<lambda>u'. u' \<noteq> [] \<and> unitBefore u u') us \<Longrightarrow> matchTime us (ds @ u @ r) = None"
proof (induction us)
  case (Cons u' us)
  obtain c x where cx: "u @ r = c # x" "\<not> isDigit c" "\<not> regexSpace c"
    using u by (cases u) auto
  have np: "\<not> hasPrefix (c # x) u'"
    using unitBefore_prefix [of u u' r] u(1) r Cons.prems cx(1) by auto
  have split: "takeWhile isDigit (ds @ c # x) = ds" "dropWhile isDigit (ds @ c # x) = c # x"
    using ds cx(2) by (auto simp: list_all_iff takeWhile_append2 dropWhile_append2)
  have sp: "dropWhile regexSpace (ds @ c # x) = ds @ c # x"
    using ds by (cases ds) (auto simp: digit_not_space)
  have unit: "timeUnit u' (ds @ c # x) = (if u' = ''s'' then Some (ds, c # x) else None)"
    using ds np by (simp add: timeUnit_def split)
  show ?case
  proof (cases us)
    case Nil
    with unit ds show ?thesis
      by (simp add: cx)
  next
    case (Cons v vs)
    with Cons.IH Cons.prems have "matchTime us (ds @ c # x) = None"
      by (simp add: cx)
    moreover have "matchTime us (dropWhile regexSpace (c # x)) = None"
      using cx matchTime_letter by simp
    ultimately show ?thesis
      using unit sp Cons by (simp add: cx)
  qed
qed simp

definition normalGroup :: "string \<Rightarrow> string \<Rightarrow> bool" where
  "normalGroup u g = (g = [] \<or> (\<exists>ds. ds \<noteq> [] \<and> list_all isDigit ds \<and> g = ds @ u))"

lemma startsDigit_concat: "list_all2 normalGroup us gs \<Longrightarrow> startsDigit (concat gs)"
proof (induction us gs rule: list_all2_induct)
  case (Cons u us g gs)
  then show ?case
    by (cases g) (auto simp: normalGroup_def startsDigit_def Cons_eq_append_conv)
qed (simp add: startsDigit_def)

lemma matchTime_normal:
  "list_all2 normalGroup us gs \<Longrightarrow> unitList us \<Longrightarrow> us \<noteq> [] \<Longrightarrow> matchTime us (concat gs) = Some gs"
proof (induction us gs rule: list_all2_induct)
  case (Cons u us g gs)
  have u: "u \<noteq> []" "\<not> isDigit (hd u)" "\<not> regexSpace (hd u)" "unitList us" "list_all (\<lambda>u'. u' \<noteq> [] \<and> unitBefore u u') us"
    using Cons.prems(1) by (auto simp: unitList_def list_all_iff)
  let ?r = "concat gs"
  have r: "startsDigit ?r"
    using startsDigit_concat Cons.hyps(2) by blast
  have unit: "timeUnit u (g @ ?r) = Some (g, ?r)" if ne: "g \<noteq> []"
  proof -
    obtain ds where ds: "ds \<noteq> []" "list_all isDigit ds" "g = ds @ u"
      using Cons.hyps(1) ne by (auto simp: normalGroup_def)
    obtain c x where cx: "u = c # x" "\<not> isDigit c"
      using u by (cases u) auto
    have "takeWhile isDigit (ds @ c # x @ ?r) = ds" "dropWhile isDigit (ds @ c # x @ ?r) = c # x @ ?r"
      using ds cx(2) by (auto simp: list_all_iff takeWhile_append2 dropWhile_append2)
    then show ?thesis
      using ds cx(1) hasPrefix_append [of u ?r] by (simp add: timeUnit_def)
  qed
  show ?case
  proof (cases us)
    case Nil
    with Cons.hyps(2) have "gs = []"
      by simp
    with unit Nil show ?thesis
      by (cases "g = []") simp_all
  next
    case (Cons v vs)
    then have IH: "matchTime us ?r = Some gs"
      using Cons.IH u(4) by blast
    have skip: "matchTime us (dropWhile regexSpace (g @ ?r)) = None" if ne: "g \<noteq> []"
    proof -
      obtain ds where ds: "ds \<noteq> []" "list_all isDigit ds" "g = ds @ u"
        using Cons.hyps(1) ne by (auto simp: normalGroup_def)
      have "dropWhile regexSpace (g @ ?r) = g @ ?r"
        using ds by (cases ds) (auto simp: digit_not_space)
      then show ?thesis
        using matchTime_later [OF ds(1,2) u(1-3) r u(5)] ds(3) by simp
    qed
    show ?thesis
      using IH skip unit Cons dropWhile_startsDigit [OF r] by (cases "g = []") simp_all
  qed
qed simp

lemma timeUnits_list: "unitList timeUnits"
  by (simp add: unitList_def timeUnits_def unitBefore_def isDigit_def regexSpace_def)

definition withSeconds :: "string \<Rightarrow> string" where
  "withSeconds secs = (if secs \<noteq> [] \<and> last secs \<noteq> CHR ''s'' then secs @ ''s'' else secs)"

lemma isDigit_s: "\<not> isDigit CHR ''s''"
  by (simp add: isDigit_def)

lemma withSeconds_normal: "timeGroup ''s'' g \<Longrightarrow> normalGroup ''s'' (withSeconds g)"
proof -
  have "last ds \<noteq> CHR ''s''" if "ds \<noteq> []" "list_all isDigit ds" for ds
    using that last_in_set [of ds] by (metis isDigit_s list_all_iff)
  then show "timeGroup ''s'' g \<Longrightarrow> normalGroup ''s'' (withSeconds g)"
    by (auto simp: timeGroup_def normalGroup_def withSeconds_def)
qed

lemma withSeconds_id: "normalGroup ''s'' g \<Longrightarrow> withSeconds g = g"
  by (auto simp: normalGroup_def withSeconds_def)

lemma withSeconds_Nil: "withSeconds g = [] \<longleftrightarrow> g = []"
  by (simp add: withSeconds_def)

lemma timeGroup_normal: "timeGroup u g \<Longrightarrow> u \<noteq> ''s'' \<Longrightarrow> normalGroup u g"
  by (auto simp: timeGroup_def normalGroup_def)

text \<open>\<^verbatim>\<open>ParseTime\<close> in terms of the groups.\<close>

lemma ParseTime_groups:
  assumes "ParseTime s = Some t"
  obtains gs where "list_all2 normalGroup timeUnits gs" "t = concat gs" "t \<noteq> []"
proof -
  from assms obtain y mo w d h mi sec ms where m: "matchTime timeUnits s = Some [y, mo, w, d, h, mi, sec, ms]"
    and t: "t = concat [y, mo, w, d, h, mi, withSeconds sec, ms]" and "trimSpace s \<noteq> []"
    by (auto simp: ParseTime_def withSeconds_def Let_def split: if_splits option.splits list.splits)
  have g: "list_all2 timeGroup timeUnits [y, mo, w, d, h, mi, sec, ms]"
    by (rule matchTime_groups [OF m])
  then have "list_all2 normalGroup timeUnits [y, mo, w, d, h, mi, withSeconds sec, ms]"
    by (simp add: timeUnits_def timeGroup_normal withSeconds_normal)
  moreover have "t \<noteq> []"
    using matchTime_blank [OF m] trimSpace_blank \<open>trimSpace s \<noteq> []\<close> withSeconds_Nil [of sec] t by auto
  ultimately show thesis
    using t that by blast
qed

lemma ParseTime_normal:
  assumes "list_all2 normalGroup timeUnits gs" and "concat gs \<noteq> []"
  shows "ParseTime (concat gs) = Some (concat gs)"
proof -
  have "matchTime timeUnits (concat gs) = Some gs"
    by (rule matchTime_normal [OF assms(1) timeUnits_list]) (simp add: timeUnits_def)
  moreover obtain y mo w d h mi sec ms where gs: "gs = [y, mo, w, d, h, mi, sec, ms]" "normalGroup ''s'' sec"
    using assms(1) by (auto simp: timeUnits_def list_all2_Cons1)
  moreover obtain c r where c: "concat gs = c # r" "isDigit c"
    using startsDigit_concat [OF assms(1)] assms(2) by (cases "concat gs") (auto simp: startsDigit_def)
  moreover have "trimSpace (concat gs) \<noteq> []"
    unfolding c(1) by (rule trimSpace_keeps [OF isDigit_plain [OF c(2)]])
  ultimately show ?thesis
    using withSeconds_id [OF gs(2)] by (simp add: ParseTime_def withSeconds_def Let_def split: if_splits)
qed

text \<open>
  C29. \<^verbatim>\<open>ParseTime\<close> returns a normal form: it is made of digits and unit letters, without white space
  and with the unit of seconds written out, and parsing it again returns it unchanged.
\<close>

theorem parse_time_normal:
  assumes "ParseTime s = Some t"
  shows "ParseTime t = Some t \<and> list_all (\<lambda>c. isDigit c \<or> c \<in> set ''yMwdhms'') t"
proof -
  obtain gs where gs: "list_all2 normalGroup timeUnits gs" "t = concat gs" "t \<noteq> []"
    by (rule ParseTime_groups [OF assms])
  have "list_all (\<lambda>c. isDigit c \<or> c \<in> set u) g" if "normalGroup u g" for u g
    using that by (auto simp: normalGroup_def list_all_iff)
  then have "list_all2 (\<lambda>u. list_all (\<lambda>c. isDigit c \<or> c \<in> set u)) timeUnits gs"
    using gs(1) by (auto elim: list_all2_mono)
  then have "list_all (list_all (\<lambda>c. isDigit c \<or> c \<in> set ''yMwdhms'')) gs"
    by (auto simp: timeUnits_def list_all2_Cons1 list_all_iff)
  then have "list_all (\<lambda>c. isDigit c \<or> c \<in> set ''yMwdhms'') t"
    by (auto simp: gs(2) list_all_iff)
  with ParseTime_normal [OF gs(1)] gs(2,3) show ?thesis
    by simp
qed

theorem parse_time_normal_witness:
  "ParseTime ''1h 30'' = Some ''1h30s'' \<and> ParseTime ''1h30s'' = Some ''1h30s''"
proof -
  have "ParseTime ''1h 30'' = Some ''1h30s''"
    by code_simp
  then show ?thesis
    using parse_time_normal [of "''1h 30''" "''1h30s''"] by blast
qed

section \<open>Values accepted beyond the stated format\<close>

text \<open>
  A text around the thresholds is accepted, even one with the delimiter of a directive; the port
  1023 passes the check for ports from 1024.
\<close>

lemma thresholds_not_anchored: "VerifyAppProtectThresholds ''high=1 low=2; error_log off''"
  by code_simp

lemma unprivileged_port_1023: "\<not> ValidateUnprivilegedPort 1023"
  by (simp add: ValidateUnprivilegedPort_def)

end
