(* ===== verification/Spec2Isabelle.thy ===== *)
theory Spec2Isabelle
  imports Served_Resources Value_Parsers
begin

text \<open>
  This development models the decision core of the NGINX Ingress Controller: which of the Ingresses,
  VirtualServers, VirtualServerRoutes, TransportServers and listeners of a cluster are served, what
  changes and problems a rebuild reports for them, and which texts are accepted as values of the
  generated NGINX configuration. Paths below are relative to \<^verbatim>\<open>src/\<close>.

  \<^bold>\<open>How the program is modelled.\<close> A Go string is a list of bytes. A Go map is an association list
  with distinct keys (\<^verbatim>\<open>gomap\<close>); where the code ranges over a map without sorting the keys, the order
  of the list stands for the order of that run, and theorems hold for every order. Structs are
  records, interfaces with a closed set of implementations are datatypes. Pointers that alias an entry
  of a map during a rebuild are keys into a store, resolved at the end. A panic is \<^const>\<open>None\<close>. Machine
  integers are 64-bit words where the code can overflow and integers with explicit bounds otherwise.
  Field errors keep their kind and path; warnings and problem texts are modelled as the code prints
  them. Recursion is structural or on decreasing lengths, so no fuel is used anywhere.

  \<^bold>\<open>The theories.\<close>
  \<^item> \<^verbatim>\<open>Go_Prelude\<close>, \<^verbatim>\<open>Go_Numbers\<close>, \<^verbatim>\<open>Go_Runes\<close>: maps, sorted keys, string functions, decimal numbers and
    UTF-8 of the Go library, with the lemmas that the components share.
  \<^item> \<^verbatim>\<open>Api_Types\<close>: the custom resources (\<^verbatim>\<open>pkg/apis/configuration/v1/types.go\<close>) and the parts of the
    Kubernetes types that are read.
  \<^item> \<^verbatim>\<open>Contest\<close>: \<^verbatim>\<open>chooseObjectMetaWinner\<close> is a strict order by age and UID; a locale for contests
    that are decided by such an order.
  \<^item> \<^verbatim>\<open>Resources\<close>: the configurations of \<^verbatim>\<open>internal/k8s/configuration.go\<close> with keys, equality, warnings.
  \<^item> \<^verbatim>\<open>Ingress_Validation\<close>, \<^verbatim>\<open>Minions\<close>: the checks of Ingresses (\<^verbatim>\<open>internal/k8s/validation.go\<close>), the index
    of minions by host, and the contest of minions for the paths of a master.
  \<^item> \<^verbatim>\<open>Route_Validation\<close>, \<^verbatim>\<open>VS_Routes\<close>: the checks of routes and subroutes
    (\<^verbatim>\<open>pkg/apis/configuration/validation/virtualserver.go\<close>) and the VirtualServerRoutes of a VirtualServer:
    collection by name and by selector, removal of duplicates and of conflicts.
  \<^item> \<^verbatim>\<open>Claims\<close>: contests in which claimants take slots from one another; a locale interpreted for
    listeners and for hosts.
  \<^item> \<^verbatim>\<open>Global_Configuration\<close>, \<^verbatim>\<open>Listeners\<close>: the listeners kept from a GlobalConfiguration
    (\<^verbatim>\<open>pkg/apis/configuration/validation/globalconfiguration.go\<close>) and the TransportServers that hold them.
  \<^item> \<^verbatim>\<open>Hosts\<close>, \<^verbatim>\<open>Changes\<close>, \<^verbatim>\<open>Rebuild\<close>: the state \<^verbatim>\<open>Configuration\<close>, \<^verbatim>\<open>buildHostsAndResources\<close>, detection and
    squashing of changes, and the two rebuilds with their problems and warnings.
  \<^item> \<^verbatim>\<open>Config_Operations\<close>: the operations that the controller calls for events (\<^verbatim>\<open>AddOrUpdateIngress\<close> to
    \<^verbatim>\<open>CompleteStartup\<close>), each with its validation, its rebuilds and the report of an invalid resource.
  \<^item> \<^verbatim>\<open>Settled\<close>, \<^verbatim>\<open>Config_Runs\<close>, \<^verbatim>\<open>Served_Resources\<close>: sequences of operations. What a rebuild depends on, the
    invariant of the states of a run, startup, and the resources that are served.
  \<^item> \<^verbatim>\<open>Proxy_Buffers\<close>: sizes and the balancing of proxy directives (\<^verbatim>\<open>internal/validation/data_types.go\<close>).
  \<^item> \<^verbatim>\<open>Nginx_Values\<close>: the scanner for directive values (\<^verbatim>\<open>internal/validation/nginx.go\<close>).
  \<^item> \<^verbatim>\<open>Value_Parsers\<close>: the parsers of annotation and ConfigMap values
    (\<^verbatim>\<open>internal/configs/parsing_helpers.go\<close>) and the checks of hosts, ports, URIs and header lists
    (\<^verbatim>\<open>internal/validation/validation.go\<close>, \<^verbatim>\<open>headers.go\<close>).

  \<^bold>\<open>What is shown.\<close>
  \<^item> Of runs of the controller: the changes of an operation are the difference of the served resources
    (C1), a host is served by the winner among the stored resources that claim it
    (C2), the shortcut of startup is sound (C3), no operation panics
    (C4), only accepted resources are stored (C5), states are settled
    (C6), and invalid resources are reported once (C7).
  \<^item> Of the contests: each path, listener and host goes to the winner among all that claim it, whatever the
    order of maps, and exactly the losers are warned (C8, C15, C20).
  \<^item> Of routes and listeners: accepted routes do not overlap (C9, C10,
    C11, C12, C13), kept listeners do not
    clash (C14).
  \<^item> Of rebuilds: changes are squashed to the last one per resource, deletes first (C21), and the
    problems are those of the resources that are not served (C22).
  \<^item> Of values: balanced proxy values satisfy the rules of NGINX, computed exactly, and balancing is
    idempotent (C16, C17, C18, C19). The scanner
    accepts exactly the texts of a token grammar, so that an accepted value cannot end its directive
    (C23, C24, C25), escaped texts are read back
    (C26), TLS protocols are safe unquoted (C27), and parsed codes and times
    are normal forms (C28, C29).

  Lemmas that are no properties record where the code does not do what it means to:
  \<^verbatim>\<open>passthrough_switch_lost\<close>, \<^verbatim>\<open>https_address_change_unseen\<close>, \<^verbatim>\<open>ts_address_change_unseen\<close>,
  \<^verbatim>\<open>relinkTS_no_effect\<close>, \<^verbatim>\<open>repeated_path_is_lost\<close>, \<^verbatim>\<open>conflict_depends_on_map_order\<close>,
  \<^verbatim>\<open>selector_entry_overwritten\<close>, \<^verbatim>\<open>giga_lost\<close>, \<^verbatim>\<open>size_wraps\<close>, \<^verbatim>\<open>thresholds_not_anchored\<close> and
  \<^verbatim>\<open>unprivileged_port_1023\<close>.

  \<^bold>\<open>Parameters.\<close> Checks that are not in the sources or that no modelled decision depends on are
  functions that the definitions take: the annotation checks of Ingresses (\<^verbatim>\<open>ingressChecks\<close>), the checks of
  upstreams and actions (\<^verbatim>\<open>routeChecks\<close>), label selectors and error texts (\<^verbatim>\<open>vsrEnv\<close>), names and addresses of
  listeners (\<^verbatim>\<open>listenerChecks\<close>), the Ingress class and the checks of TransportServers (\<^verbatim>\<open>configEnv\<close>), \<^verbatim>\<open>unicode.IsPrint\<close>, \<^verbatim>\<open>url.Parse\<close>, \<^verbatim>\<open>netip.ParseAddr\<close> and \<^verbatim>\<open>IsHTTPHeaderName\<close>.

  \<^bold>\<open>Not modelled.\<close> The controller loop, queues and API clients, file and process management, the
  generation of template data and the templates, status updates, secrets, Policies, App Protect
  resources, telemetry and the other integrations: they do I/O or copy fields of resources the modelled
  code has accepted. Locks are left out because the operations of the Configuration run one at a time
  under one lock. Generated code is left out.
\<close>

end
